(* ===== verification/Prelude.thy ===== *)
theory Prelude
  imports Main "HOL-Library.Word" "HOL-Library.List_Lexorder" "HOL-Library.Char_ord" "HOL-Library.Sublist"
begin

text \<open>
  Shared ground of the development: the machine types of the Go code, its error classes, the
  clock arithmetic of package \<open>time\<close>, the pieces of \<open>strings\<close>, \<open>strconv\<close>, \<open>fmt\<close> and
  \<open>encoding/hex\<close> that the indexer uses, and the facts about them that several components need.

  A Go \<open>string\<close> is a list of bytes; \<^typ>\<open>char\<close> is a byte, and the lexicographic order of
  \<^theory_text>\<open>List_Lexorder\<close> over \<^theory_text>\<open>Char_ord\<close> is the byte order of Go's \<open><\<close> on strings and
  of \<open>sort.Strings\<close>.
\<close>

section \<open>Collections of facts\<close>

named_theorems reg_simps \<open>how each registry operation changes the two sets\<close>
named_theorems inv_intros \<open>preservation of component invariants\<close>

section \<open>Machine types\<close>

type_synonym u32 = "32 word"
type_synonym i64 = "64 word"
type_synonym byte = "8 word"
type_synonym hash = "byte list"
type_synonym contract_id = string

section \<open>Errors\<close>

text \<open>
  The error classes that the code tests with \<open>errors.Is\<close>/\<open>errors.As\<close>, one constructor each.
  Wrapping with \<open>%w\<close> keeps the class and adds prose, so a wrapped error is modelled by its class;
  \<open>ErrOther\<close> is every error whose class nobody tests. \<open>TerminalConnect\<close> is the wrapper type
  \<open>terminalConnectError\<close>, and \<open>ErrJoined\<close> is \<open>errors.Join\<close>.
\<close>

datatype err =
    ErrStateNotFound
  | ErrStateLockHeld
  | ErrStateCorrupted
  | ErrEnvelopeInvalid string
  | ErrSinkUnavailable
  | ErrSinkPublishRejected
  | ErrSinkUnroutable
  | ErrTipStalled
  | ErrCanceled
  | ErrInvalidCommand string
  | TerminalConnect err
  | ErrJoined "err list"
  | ErrOther string

abbreviation Ok :: "'a \<Rightarrow> err + 'a" where "Ok \<equiv> Inr"
abbreviation Err :: "err \<Rightarrow> err + 'a" where "Err \<equiv> Inl"

section \<open>Time\<close>

text \<open>
  \<open>time.Time\<close> is an instant; the model counts nanoseconds from Go's zero time (January 1 of the
  year 1, UTC), so the zero value is \<open>0\<close> and \<open>IsZero\<close> is \<open>= 0\<close>. \<open>time.Duration\<close> is a signed
  64-bit count of nanoseconds; \<open>Time.Sub\<close> saturates at its ends.
\<close>

type_synonym time = int
type_synonym duration = int

definition second :: duration where "second = 1000000000"
definition minute :: duration where "minute = 60 * second"
definition hour :: duration where "hour = 60 * minute"

definition min_duration :: duration where "min_duration = - (2 ^ 63)"
definition max_duration :: duration where "max_duration = 2 ^ 63 - 1"

definition time_sub :: "time \<Rightarrow> time \<Rightarrow> duration" where
  "time_sub t u = max min_duration (min max_duration (t - u))"

text \<open>The sum of two durations, which wraps around in 64 bits.\<close>

definition duration_add :: "duration \<Rightarrow> duration \<Rightarrow> duration" where
  "duration_add a b = (a + b + 2 ^ 63) mod 2 ^ 64 - 2 ^ 63"

lemma duration_add_exact: "min_duration \<le> a + b \<Longrightarrow> a + b \<le> max_duration \<Longrightarrow> duration_add a b = a + b"
  by (simp add: duration_add_def min_duration_def max_duration_def)

text \<open>\<open>time.Unix(s, 0)\<close>: seconds since 1970, which is 62135596800 seconds after the zero time.\<close>

definition time_unix :: "int \<Rightarrow> time" where
  "time_unix s = (s + 62135596800) * second"

lemma second_pos [simp]: "0 < second" by (simp add: second_def)

lemma time_sub_less:
  "0 < d \<Longrightarrow> d \<le> max_duration \<Longrightarrow> (time_sub t u < d) = (t - u < d)"
  by (auto simp: time_sub_def min_duration_def max_duration_def)

lemma time_sub_greater:
  "0 \<le> d \<Longrightarrow> d < max_duration \<Longrightarrow> (d < time_sub t u) = (d < t - u)"
  by (auto simp: time_sub_def min_duration_def max_duration_def)

section \<open>Sorted enumeration of a set\<close>

text \<open>
  Go builds a slice from a \<open>map[string]struct{}\<close> in an unspecified order and sorts it with
  \<open>sort.Strings\<close>: whatever the order was, the result is the sorted enumeration of the set.
\<close>

definition sort_keys :: "string set \<Rightarrow> string list" where
  "sort_keys A = sorted_list_of_set A"

lemma set_sort_keys [simp]: "finite A \<Longrightarrow> set (sort_keys A) = A"
  by (simp add: sort_keys_def)

lemma sorted_sort_keys [simp]: "sorted (sort_keys A)"
  by (simp add: sort_keys_def)

lemma distinct_sort_keys [simp]: "distinct (sort_keys A)"
  by (simp add: sort_keys_def)

lemma length_sort_keys [simp]: "finite A \<Longrightarrow> length (sort_keys A) = card A"
  by (simp add: sort_keys_def)

lemma sort_keys_empty [simp]: "sort_keys {} = []"
  by (simp add: sort_keys_def)

lemma sort_keys_Nil_iff: "finite A \<Longrightarrow> (sort_keys A = []) = (A = {})"
  by (simp add: sort_keys_def)

lemma sort_keys_code [code]: "sort_keys (set xs) = sort (remdups xs)"
  by (simp add: sort_keys_def sorted_list_of_set_sort_remdups)

section \<open>Doubling with a cap\<close>

text \<open>The statement by which both retry loops of the code lengthen their wait.\<close>

definition next_backoff :: "duration \<Rightarrow> duration \<Rightarrow> duration" where
  "next_backoff maxb backoff =
     (if backoff < maxb then (if 2 * backoff > maxb then maxb else 2 * backoff) else backoff)"

fun backoffs :: "duration \<Rightarrow> duration \<Rightarrow> nat \<Rightarrow> duration list" where
  "backoffs maxb b 0 = []"
| "backoffs maxb b (Suc n) = b # backoffs maxb (next_backoff maxb b) n"

lemma nth_backoffs:
  assumes "0 < b" and "b \<le> maxb"
  shows "i < n \<Longrightarrow> backoffs maxb b n ! i = min (2 ^ i * b) maxb"
  using assms
proof (induction n arbitrary: b i)
  case (Suc n)
  show ?case
  proof (cases i)
    case (Suc j)
    have "backoffs maxb (next_backoff maxb b) n ! j = min (2 ^ j * next_backoff maxb b) maxb"
      by (rule Suc.IH) (use Suc Suc.prems in \<open>auto simp: next_backoff_def\<close>)
    moreover have "min (2 ^ j * next_backoff maxb b) maxb = min (2 ^ Suc j * b) maxb"
    proof (cases "2 * b \<le> maxb")
      case True
      then show ?thesis using Suc.prems by (simp add: next_backoff_def mult.assoc [symmetric])
    next
      case False
      have one: "(1::int) \<le> 2 ^ j" by simp
      have "maxb \<le> 2 ^ j * maxb" "maxb \<le> 2 ^ j * (2 * b)"
        using mult_mono [OF one, of maxb maxb] mult_mono [OF one, of maxb "2 * b"] False Suc.prems by auto
      moreover have "next_backoff maxb b = maxb" using False Suc.prems by (auto simp: next_backoff_def)
      ultimately show ?thesis by (simp add: min_absorb2 mult.left_commute)
    qed
    ultimately show ?thesis using Suc by simp
  qed (use Suc.prems in simp)
qed simp

lemma length_backoffs [simp]: "length (backoffs maxb b n) = n"
  by (induction n arbitrary: b) simp_all


end
