(* ===== verification/GoText.thy ===== *)
theory GoText
  imports Prelude
begin

text \<open>
  The text routines of the Go library that the indexer relies on: decimal printing
  (\<open>fmt.Sprintf("%d")\<close>), \<open>strconv.ParseUint(_, 10, 32)\<close>, \<open>strings.TrimSpace\<close>,
  \<open>strings.HasSuffix\<close>/\<open>TrimSuffix\<close>, \<open>encoding/hex\<close>, and the coercion of strings to UTF-8 by
  \<open>encoding/json\<close>. The lemmas give the round trips and the
  injectivity facts that message ids and hashes need.
\<close>

section \<open>Decimal numbers\<close>

definition digit_char :: "nat \<Rightarrow> char" where
  "digit_char d = ''0123456789'' ! d"

definition digit_val :: "char \<Rightarrow> nat" where
  "digit_val c = of_char c - 48"

definition is_digit :: "char \<Rightarrow> bool" where
  "is_digit c \<longleftrightarrow> 48 \<le> (of_char c :: nat) \<and> (of_char c :: nat) \<le> 57"

fun decimal :: "nat \<Rightarrow> string" where
  "decimal n = (if n < 10 then [digit_char n] else decimal (n div 10) @ [digit_char (n mod 10)])"

declare decimal.simps [simp del]

definition undecimal :: "string \<Rightarrow> nat" where
  "undecimal s = foldl (\<lambda>a c. 10 * a + digit_val c) 0 s"

lemma lt10_cases: "(n::nat) < 10 \<Longrightarrow> n \<in> {0,1,2,3,4,5,6,7,8,9}"
  by auto

lemma digit_char_props:
  "n < 10 \<Longrightarrow> digit_val (digit_char n) = n \<and> is_digit (digit_char n)"
  by (drule lt10_cases) (auto simp: digit_char_def digit_val_def is_digit_def nth_Cons')

lemma decimal_nonempty [simp]: "decimal n \<noteq> []"
  by (subst decimal.simps) simp

lemma decimal_digits: "c \<in> set (decimal n) \<Longrightarrow> is_digit c"
proof (induction n arbitrary: c rule: decimal.induct)
  case (1 n)
  then show ?case
    by (subst (asm) decimal.simps) (auto simp: digit_char_props split: if_splits)
qed

lemma undecimal_decimal [simp]: "undecimal (decimal n) = n"
proof (induction n rule: decimal.induct)
  case (1 n)
  show ?case
  proof (cases "n < 10")
    case True
    then show ?thesis
      by (simp add: decimal.simps [of n] undecimal_def digit_char_props)
  next
    case False
    then have "undecimal (decimal (n div 10)) = n div 10" using "1.IH" by simp
    then show ?thesis using False
      by (subst decimal.simps) (simp add: undecimal_def digit_char_props)
  qed
qed

lemma decimal_inj [simp]: "decimal m = decimal n \<longleftrightarrow> m = n"
  by (metis undecimal_decimal)

lemma decimal_not_mem: "\<not> is_digit c \<Longrightarrow> c \<notin> set (decimal n)"
  using decimal_digits by blast

text \<open>\<open>%d\<close> of a \<open>uint32\<close>.\<close>

definition show_u32 :: "u32 \<Rightarrow> string" where
  "show_u32 w = decimal (unat w)"

lemma show_u32_inj [simp]: "show_u32 a = show_u32 b \<longleftrightarrow> a = b"
  by (simp add: show_u32_def word_unat_eq_iff)

lemma show_u32_no_colon [simp]: "CHR '':'' \<notin> set (show_u32 w)"
  unfolding show_u32_def by (rule decimal_not_mem) (simp add: is_digit_def)

lemma show_u32_nonempty [simp]: "show_u32 w \<noteq> []"
  by (simp add: show_u32_def)

text \<open>\<open>strconv.ParseUint(s, 10, 32)\<close> on a string of digits: a range error above \<open>2^32 - 1\<close>.\<close>

definition parse_u32 :: "string \<Rightarrow> u32 option" where
  "parse_u32 s =
     (if s = [] \<or> \<not> list_all is_digit s \<or> 2 ^ 32 \<le> undecimal s then None
      else Some (of_nat (undecimal s)))"

lemma parse_show_u32 [simp]: "parse_u32 (show_u32 w) = Some w"
proof -
  have "unat w < 2 ^ 32" using unsigned_less [of w] by simp
  then show ?thesis
    by (auto simp: parse_u32_def show_u32_def list_all_iff dest: decimal_digits)
qed

section \<open>Splitting at the last colon\<close>

lemma split_last_unique:
  assumes "xs @ c # ys = xs' @ c # ys'" and "c \<notin> set ys" and "c \<notin> set ys'"
  shows "xs = xs' \<and> ys = ys'"
proof -
  have r: "rev ys @ c # rev xs = rev ys' @ c # rev xs'"
    using arg_cong [OF assms(1), of rev] by simp
  have t: "takeWhile (\<lambda>x. x \<noteq> c) (rev ys @ c # rev xs) = rev ys"
    "takeWhile (\<lambda>x. x \<noteq> c) (rev ys' @ c # rev xs') = rev ys'"
    using assms(2,3) by (auto simp: takeWhile_append)
  then have "ys = ys'" using r by (metis rev_is_rev_conv)
  then show ?thesis using assms(1) by simp
qed

section \<open>White space\<close>

text \<open>
  \<open>strings.TrimSpace\<close> removes the code points of \<open>unicode.IsSpace\<close> at both ends. The strings
  below are their UTF-8 encodings: six ASCII bytes, U+0085, U+00A0, U+1680, U+2000 to U+200A,
  U+2028, U+2029, U+202F, U+205F and U+3000.
\<close>

definition space_codes :: "nat list list" where
  "space_codes =
     [[9], [10], [11], [12], [13], [32], [194, 133], [194, 160], [225, 154, 128],
      [226, 128, 128], [226, 128, 129], [226, 128, 130], [226, 128, 131], [226, 128, 132],
      [226, 128, 133], [226, 128, 134], [226, 128, 135], [226, 128, 136], [226, 128, 137],
      [226, 128, 138], [226, 128, 168], [226, 128, 169], [226, 128, 175], [226, 129, 159],
      [227, 128, 128]]"

fun has_code_prefix :: "nat list \<Rightarrow> string \<Rightarrow> bool" where
  "has_code_prefix [] s = True"
| "has_code_prefix (k # ks) [] = False"
| "has_code_prefix (k # ks) (c # s) = (of_char c = k \<and> has_code_prefix ks s)"

definition leading_space :: "nat list list \<Rightarrow> string \<Rightarrow> nat" where
  "leading_space codes s = (case find (\<lambda>k. has_code_prefix k s) codes of None \<Rightarrow> 0 | Some k \<Rightarrow> length k)"

lemma has_code_prefix_length: "has_code_prefix k s \<Longrightarrow> length k \<le> length s"
  by (induction k s rule: has_code_prefix.induct) auto

lemma leading_space_le: "leading_space codes s \<le> length s"
  by (auto simp: leading_space_def find_Some_iff has_code_prefix_length split: option.splits)

function strip_codes :: "nat list list \<Rightarrow> string \<Rightarrow> string" where
  "strip_codes codes s =
     (let n = leading_space codes s in if n = 0 then s else strip_codes codes (drop n s))"
  by pat_completeness auto
termination
proof (relation "measure (\<lambda>(codes, s). length s)", goal_cases)
  case (2 codes s n)
  then show ?case using leading_space_le [of codes s] by simp
qed simp

declare strip_codes.simps [simp del]

definition trim_space :: "string \<Rightarrow> string" where
  "trim_space s = rev (strip_codes (map rev space_codes) (rev (strip_codes space_codes s)))"

lemma strip_codes_id: "leading_space codes s = 0 \<Longrightarrow> strip_codes codes s = s"
  by (simp add: strip_codes.simps [of codes s])

lemma find_None_all: "(\<And>x. x \<in> set xs \<Longrightarrow> \<not> P x) \<Longrightarrow> find P xs = None"
  by (auto simp: find_None_iff)

text \<open>A string of printable ASCII bytes is left as it is.\<close>

definition graphic :: "char \<Rightarrow> bool" where
  "graphic c \<longleftrightarrow> 33 \<le> (of_char c :: nat) \<and> (of_char c :: nat) < 127"

lemma graphic_no_lead:
  assumes "list_all graphic s" and "\<And>k. k \<in> set codes \<Longrightarrow> k \<noteq> [] \<and> \<not> (33 \<le> hd k \<and> hd k < 127)"
  shows "leading_space codes s = 0"
proof -
  have "\<not> has_code_prefix k s" if "k \<in> set codes" for k
    using assms(1) assms(2) [OF that] by (cases k; cases s) (auto simp: graphic_def)
  then have "find (\<lambda>k. has_code_prefix k s) codes = None"
    by (auto simp: find_None_iff)
  then show ?thesis by (simp add: leading_space_def)
qed

lemma trim_space_graphic [simp]: "list_all graphic s \<Longrightarrow> trim_space s = s"
proof -
  assume g: "list_all graphic s"
  have "leading_space space_codes s = 0"
    by (rule graphic_no_lead [OF g]) (auto simp: space_codes_def)
  then have l: "strip_codes space_codes s = s" by (rule strip_codes_id)
  have "leading_space (map rev space_codes) (rev s) = 0"
    by (rule graphic_no_lead) (use g in \<open>auto simp: space_codes_def list_all_iff\<close>)
  then have "strip_codes (map rev space_codes) (rev s) = rev s" by (rule strip_codes_id)
  with l show ?thesis by (simp add: trim_space_def)
qed

section \<open>Hexadecimal\<close>

definition hex_char :: "nat \<Rightarrow> char" where
  "hex_char d = ''0123456789abcdef'' ! d"

definition from_hex_char :: "char \<Rightarrow> nat option" where
  "from_hex_char c =
     (let n = of_char c :: nat in
      if 48 \<le> n \<and> n \<le> 57 then Some (n - 48)
      else if 97 \<le> n \<and> n \<le> 102 then Some (n - 87)
      else if 65 \<le> n \<and> n \<le> 70 then Some (n - 55)
      else None)"

text \<open>\<open>hex.DecodeString\<close>: \<open>None\<close> for a byte that is no hex digit and for an odd length.\<close>

fun hex_decode :: "string \<Rightarrow> byte list option" where
  "hex_decode [] = Some []"
| "hex_decode [c] = None"
| "hex_decode (c # d # s) =
     (case (from_hex_char c, from_hex_char d, hex_decode s) of
        (Some h, Some l, Some bs) \<Rightarrow> Some (of_nat (16 * h + l) # bs)
      | _ \<Rightarrow> None)"

fun hex_encode :: "byte list \<Rightarrow> string" where
  "hex_encode [] = []"
| "hex_encode (b # bs) = hex_char (unat b div 16) # hex_char (unat b mod 16) # hex_encode bs"

lemma lt16_cases: "(n::nat) < 16 \<Longrightarrow> n \<in> {0,1,2,3,4,5,6,7,8,9,10,11,12,13,14,15}"
  by (simp only: insert_iff empty_iff) presburger

lemma from_hex_char_hex_char [simp]: "n < 16 \<Longrightarrow> from_hex_char (hex_char n) = Some n"
  by (drule lt16_cases) (auto simp: hex_char_def from_hex_char_def nth_Cons')

lemma hex_char_graphic: "n < 16 \<Longrightarrow> graphic (hex_char n)"
  by (drule lt16_cases) (auto simp: hex_char_def graphic_def nth_Cons')

lemma unat_byte_bounds: "unat (b :: byte) div 16 < 16"
proof -
  have "unat b < 2 ^ LENGTH(8)" by (rule unsigned_less)
  then show ?thesis by simp
qed

lemma hex_decode_encode [simp]: "hex_decode (hex_encode bs) = Some bs"
  by (induction bs) (auto simp: unat_byte_bounds)

lemma hex_encode_graphic: "list_all graphic (hex_encode bs)"
  by (induction bs) (auto simp: unat_byte_bounds hex_char_graphic)

lemma length_hex_encode [simp]: "length (hex_encode bs) = 2 * length bs"
  by (induction bs) auto

lemma hex_decode_length: "hex_decode s = Some bs \<Longrightarrow> length s = 2 * length bs"
  by (induction s arbitrary: bs rule: hex_decode.induct) (auto split: option.splits)

section \<open>Prefixes and suffixes\<close>

definition has_suffix :: "string \<Rightarrow> string \<Rightarrow> bool" where
  "has_suffix s suf = suffix suf s"

definition trim_suffix :: "string \<Rightarrow> string \<Rightarrow> string" where
  "trim_suffix s suf = (if has_suffix s suf then take (length s - length suf) s else s)"

lemma trim_suffix_append [simp]: "trim_suffix (s @ suf) suf = s"
  by (simp add: trim_suffix_def has_suffix_def suffix_def)

lemma has_suffixE: "has_suffix s suf \<Longrightarrow> (\<And>p. s = p @ suf \<Longrightarrow> P) \<Longrightarrow> P"
  by (auto simp: has_suffix_def suffix_def)

section \<open>Strings in JSON\<close>

text \<open>
  \<open>encoding/json\<close> writes and reads strings as UTF-8: a byte at which \<open>utf8.DecodeRune\<close> finds no valid
  code point becomes U+FFFD, both by \<open>Marshal\<close> and by \<open>Unmarshal\<close>. \<open>rune_tail\<close> is the table of the
  decoder: for a first byte, the ranges of the bytes that have to follow it.
\<close>

definition rune_tail :: "nat \<Rightarrow> (nat \<times> nat) list option" where
  "rune_tail b =
     (if b < 128 then Some []
      else if 194 \<le> b \<and> b \<le> 223 then Some [(128, 191)]
      else if b = 224 then Some [(160, 191), (128, 191)]
      else if b = 237 then Some [(128, 159), (128, 191)]
      else if 225 \<le> b \<and> b \<le> 239 then Some [(128, 191), (128, 191)]
      else if b = 240 then Some [(144, 191), (128, 191), (128, 191)]
      else if b = 244 then Some [(128, 143), (128, 191), (128, 191)]
      else if 241 \<le> b \<and> b \<le> 243 then Some [(128, 191), (128, 191), (128, 191)]
      else None)"

fun follows :: "(nat \<times> nat) list \<Rightarrow> string \<Rightarrow> bool" where
  "follows [] s = True"
| "follows (r # rs) [] = False"
| "follows ((lo, hi) # rs) (c # s) = (lo \<le> of_char c \<and> of_char c \<le> hi \<and> follows rs s)"

text \<open>The length of the code point that a string starts with, 0 when there is none.\<close>

fun rune_length :: "string \<Rightarrow> nat" where
  "rune_length [] = 0"
| "rune_length (c # s) =
     (case rune_tail (of_char c) of None \<Rightarrow> 0 | Some rs \<Rightarrow> if follows rs s then Suc (length rs) else 0)"

definition replacement_char :: string where
  "replacement_char = map char_of [239, 191, 189 :: nat]"

function json_text :: "string \<Rightarrow> string" where
  "json_text s =
     (if s = [] then []
      else let n = rune_length s in
        if n = 0 then replacement_char @ json_text (drop 1 s) else take n s @ json_text (drop n s))"
  by pat_completeness auto
termination
  by (relation "measure length") auto

declare json_text.simps [simp del]

lemma json_text_Nil [simp]: "json_text [] = []"
  by (simp add: json_text.simps)

lemma json_text_invalid: "s \<noteq> [] \<Longrightarrow> rune_length s = 0 \<Longrightarrow> json_text s = replacement_char @ json_text (drop 1 s)"
  by (simp add: json_text.simps [of s])

lemma json_text_valid: "rune_length s \<noteq> 0 \<Longrightarrow> json_text s = take (rune_length s) s @ json_text (drop (rune_length s) s)"
  by (cases "s = []") (simp_all add: json_text.simps [of s] Let_def)

lemma follows_append: "follows rs s \<Longrightarrow> follows rs (take (length rs) s @ u)"
  by (induction rs s rule: follows.induct) auto

lemma follows_length: "follows rs s \<Longrightarrow> length rs \<le> length s"
  by (induction rs s rule: follows.induct) auto

lemma rune_length_le: "rune_length s \<le> length s"
  by (cases s) (auto split: option.splits dest: follows_length)

lemma rune_length_take: "rune_length s \<noteq> 0 \<Longrightarrow> rune_length (take (rune_length s) s @ u) = rune_length s"
  by (cases s) (auto split: option.splits if_splits intro: follows_append)

lemma rune_length_replacement: "rune_length (replacement_char @ u) = 3"
  by (simp add: replacement_char_def rune_tail_def)

lemma json_text_idem [simp]: "json_text (json_text s) = json_text s"
proof (induction s rule: json_text.induct)
  case (1 s)
  consider "s = []" | "s \<noteq> []" "rune_length s = 0" | "s \<noteq> []" "rune_length s \<noteq> 0" by blast
  then show ?case
  proof cases
    case 2
    have "json_text (replacement_char @ json_text (drop 1 s)) = replacement_char @ json_text (json_text (drop 1 s))"
      using json_text_valid [of "replacement_char @ json_text (drop 1 s)"]
      by (simp add: rune_length_replacement) (simp add: replacement_char_def)
    with 2 "1.IH" show ?thesis by (simp add: json_text_invalid)
  next
    case 3
    let ?n = "rune_length s"
    have "rune_length (take ?n s @ json_text (drop ?n s)) = ?n" using 3 by (simp add: rune_length_take)
    moreover have "length (take ?n s) = ?n" using rune_length_le [of s] by simp
    ultimately have "json_text (take ?n s @ json_text (drop ?n s)) = take ?n s @ json_text (json_text (drop ?n s))"
      using json_text_valid [of "take ?n s @ json_text (drop ?n s)"] 3 by simp
    with 3 "1.IH" show ?thesis by (simp add: json_text_valid)
  qed simp
qed

lemma json_text_empty [simp]: "json_text s = [] \<longleftrightarrow> s = []"
proof (cases "s = [] \<or> rune_length s = 0")
  case True
  then show ?thesis by (cases "s = []") (auto simp: json_text_invalid replacement_char_def)
next
  case False
  then show ?thesis by (auto simp: json_text_valid)
qed

text \<open>A string of ASCII bytes stays as it is, and so does every string that is valid UTF-8 already.\<close>

lemma json_text_ascii: "list_all (\<lambda>c. of_char c < (128 :: nat)) s \<Longrightarrow> json_text s = s"
  by (induction s) (simp_all add: json_text_valid rune_tail_def)

lemma json_text_invalid_byte: "json_text [char_of (255 :: nat)] = replacement_char"
  by (simp add: json_text_invalid rune_tail_def)

section \<open>Base64\<close>

text \<open>\<open>base64.StdEncoding.EncodeToString\<close>: three bytes to four characters, padded with \<open>=\<close>.\<close>

definition b64_char :: "nat \<Rightarrow> char" where
  "b64_char d = ''ABCDEFGHIJKLMNOPQRSTUVWXYZabcdefghijklmnopqrstuvwxyz0123456789+/'' ! d"

fun base64 :: "byte list \<Rightarrow> string" where
  "base64 [] = []"
| "base64 [a] =
     (let n = unat a * 16 in [b64_char (n div 64), b64_char (n mod 64), CHR ''='', CHR ''=''])"
| "base64 [a, b] =
     (let n = (unat a * 256 + unat b) * 4 in
      [b64_char (n div 4096), b64_char (n div 64 mod 64), b64_char (n mod 64), CHR ''=''])"
| "base64 (a # b # c # s) =
     (let n = (unat a * 256 + unat b) * 256 + unat c in
      [b64_char (n div 262144), b64_char (n div 4096 mod 64), b64_char (n div 64 mod 64), b64_char (n mod 64)]
      @ base64 s)"

lemma base64_Nil_iff [simp]: "base64 bs = [] \<longleftrightarrow> bs = []"
  by (cases bs rule: base64.cases) (simp_all add: Let_def)

end
