(* ===== verification/Chain.thy ===== *)
theory Chain
  imports GoText
begin

text \<open>
  What the indexer sees of the chain: the parts of the Stellar XDR types that the processors inspect,
  and the SDK routines they call. The SDK is not part of the repository. Its routines are the fields
  of \<open>sdk\<close>, an argument of every definition that calls them; the accessors of a transaction
  that may fail or panic on malformed meta are the fields of \<open>ledger_tx\<close>, each holding the answer
  the SDK gives for that transaction.
\<close>

section \<open>Answers of code that may panic\<close>

datatype 'a call = Ret 'a | Fail err | Panic string

fun bind_call :: "'a call \<Rightarrow> ('a \<Rightarrow> 'b call) \<Rightarrow> 'b call" where
  "bind_call (Ret x) f = f x"
| "bind_call (Fail e) f = Fail e"
| "bind_call (Panic m) f = Panic m"

lemma bind_call_Ret_iff [simp]: "bind_call c f = Ret y \<longleftrightarrow> (\<exists>x. c = Ret x \<and> f x = Ret y)"
  by (cases c) auto

section \<open>XDR values\<close>

datatype sc_address =
    ScAddressAccount "byte list"
  | ScAddressContract "byte list"
  | ScAddressOther "byte list"

datatype executable = ExecWasm hash | ExecStellarAsset

text \<open>The arms of \<open>xdr.ScVal\<close> the code distinguishes; all others are \<open>ScvOther\<close>.\<close>

datatype sc_val =
    ScvSymbol string
  | ScvAddress sc_address
  | ScvVec "sc_val list"
  | ScvContractInstance executable
  | ScvLedgerKeyContractInstance
  | ScvOther string

fun get_sym :: "sc_val \<Rightarrow> string option" where
  "get_sym (ScvSymbol s) = Some s"
| "get_sym _ = None"

fun get_address :: "sc_val \<Rightarrow> sc_address option" where
  "get_address (ScvAddress a) = Some a"
| "get_address _ = None"

fun get_instance :: "sc_val \<Rightarrow> executable option" where
  "get_instance (ScvContractInstance x) = Some x"
| "get_instance _ = None"

fun get_wasm_hash :: "executable \<Rightarrow> hash option" where
  "get_wasm_hash (ExecWasm h) = Some h"
| "get_wasm_hash ExecStellarAsset = None"

record contract_data =
  cd_contract :: sc_address
  cd_key :: sc_val
  cd_val :: sc_val

datatype entry_data = EntryContractData contract_data | EntryOther

fun get_contract_data :: "entry_data \<Rightarrow> contract_data option" where
  "get_contract_data (EntryContractData cd) = Some cd"
| "get_contract_data EntryOther = None"

datatype durability = Persistent | Temporary

record ledger_key =
  lk_contract :: sc_address
  lk_key :: sc_val
  lk_durability :: durability

text \<open>
  A contract event: the emitter (absent for system events), the body's version and its V0 arm (the
  topics), and everything the indexer forwards without looking at it.
\<close>

record contract_event =
  ce_contract_id :: "byte list option"
  ce_body_v :: int
  ce_topics :: "sc_val list option"
  ce_rest :: string

text \<open>A ledger-entry change: whether its type is contract data, and the entry after it.\<close>

record ledger_change =
  ch_contract_data :: bool
  ch_post :: "entry_data option"

text \<open>
  A transaction as the SDK presents it: \<open>tx_ops\<close> has one element per operation of the envelope, the
  answer of \<open>GetContractEventsForOperation\<close>.
\<close>

record ledger_tx =
  tx_hash :: hash
  tx_index :: u32
  tx_ledger :: u32
  tx_closed :: int
  tx_successful :: "bool call"
  tx_changes :: "ledger_change list call"
  tx_ops :: "contract_event list call list"

section \<open>SDK routines\<close>

record sdk =
  strkey_encode :: "byte list \<Rightarrow> string option"
  strkey_decode :: "string \<Rightarrow> byte list option"
  addr_string :: "sc_address \<Rightarrow> string option"
  marshal_event :: "contract_event \<Rightarrow> byte list option"
  unmarshal_entry :: "string \<Rightarrow> entry_data option"
  marshal_key :: "ledger_key \<Rightarrow> string option"

text \<open>
  \<open>utils.IsContractAddress\<close>.
\<close>

definition is_contract_address :: "sdk \<Rightarrow> string \<Rightarrow> bool" where
  "is_contract_address k a \<longleftrightarrow> strkey_decode k a \<noteq> None"

text \<open>
  A concrete instance for the examples: contract addresses are \<open>C\<close> and the hexadecimal of their
  bytes, other addresses start with \<open>G\<close>; keys and entries are written with a readable tag.
\<close>

definition sample_addr :: "sc_address \<Rightarrow> string option" where
  "sample_addr a = (case a of ScAddressAccount b \<Rightarrow> Some (CHR ''G'' # hex_encode b)
     | ScAddressContract b \<Rightarrow> Some (CHR ''C'' # hex_encode b) | ScAddressOther b \<Rightarrow> None)"

definition sample_sdk :: sdk where
  "sample_sdk = \<lparr>
     strkey_encode = (\<lambda>b. Some (CHR ''C'' # hex_encode b)),
     strkey_decode = (\<lambda>s. case s of [] \<Rightarrow> None | c # t \<Rightarrow> if c = CHR ''C'' then hex_decode t else None),
     addr_string = sample_addr,
     marshal_event = (\<lambda>ev. Some (map (\<lambda>c. of_nat (of_char c)) (''ev'' @ ce_rest ev))),
     unmarshal_entry = (\<lambda>s. case s of [] \<Rightarrow> None
        | c # t \<Rightarrow>
          (case hex_decode t of None \<Rightarrow> None
           | Some b \<Rightarrow>
             if c = CHR ''D'' then Some (EntryContractData \<lparr>cd_contract = ScAddressContract b, cd_key = ScvSymbol ''Escrow'', cd_val = ScvOther []\<rparr>)
             else if c = CHR ''I'' then Some (EntryContractData \<lparr>cd_contract = ScAddressContract b, cd_key = ScvLedgerKeyContractInstance, cd_val = ScvContractInstance ExecStellarAsset\<rparr>)
             else None)),
     marshal_key = (\<lambda>k. case (sample_addr (lk_contract k), lk_durability k) of
        (Some a, Persistent) \<Rightarrow> (case lk_key k of ScvVec _ \<Rightarrow> Some (''vp'' @ a)
            | ScvSymbol _ \<Rightarrow> Some (''sp'' @ a) | _ \<Rightarrow> Some (''ip'' @ a))
      | (Some a, Temporary) \<Rightarrow> Some (''vt'' @ a)
      | (None, _) \<Rightarrow> None)\<rparr>"

end
