(* ===== verification/Interfaces.thy ===== *)
theory Interfaces
  imports Prelude
begin

text \<open>
  The contracts between components, as locales: what a client may assume of the component it
  calls, and the client's lemmas proved once from that. Each locale is interpreted on the model's
  own definitions in the theory of the component that provides it.
\<close>

section \<open>The watchlist: what the sweep and the detectors assume of the registry\<close>

locale watchlist =
  fixes ids :: "'s \<Rightarrow> string list"
    and member :: "'s \<Rightarrow> string \<Rightarrow> bool"
    and inv :: "'s \<Rightarrow> bool"
  assumes ids_sorted: "inv s \<Longrightarrow> sorted (ids s)"
    and ids_distinct: "inv s \<Longrightarrow> distinct (ids s)"
    and member_iff: "inv s \<Longrightarrow> member s x \<longleftrightarrow> x \<in> set (ids s)"
begin

lemma filter_members: "inv s \<Longrightarrow> filter (member s) (ids s) = ids s"
  by (simp add: member_iff)

lemma ids_eq_sort_keys: "inv s \<Longrightarrow> ids s = sort_keys {x. member s x}"
proof -
  assume i: "inv s"
  have "{x. member s x} = set (ids s)" using member_iff [OF i] by blast
  then show ?thesis
    using ids_sorted [OF i] ids_distinct [OF i]
    by (simp add: sort_keys_def sorted_list_of_set.idem_if_sorted_distinct)
qed

text \<open>Two states that agree on membership have the same snapshot.\<close>

lemma ids_determined: "inv s \<Longrightarrow> inv t \<Longrightarrow> (\<And>x. member s x = member t x) \<Longrightarrow> ids s = ids t"
  by (simp add: ids_eq_sort_keys)

end

section \<open>Tombstones: what the boot sequence and the command executor assume\<close>

text \<open>
  \<open>tomb s x\<close> says that \<open>x\<close> was explicitly removed. Automatic additions (\<open>auto\<close>: discovery and
  seed files) respect tombstones and keep them; \<open>drop\<close> sets one.
\<close>

locale tombstoned_watchlist = watchlist ids member inv
  for ids :: "'s \<Rightarrow> string list" and member :: "'s \<Rightarrow> string \<Rightarrow> bool" and inv :: "'s \<Rightarrow> bool" +
  fixes tomb :: "'s \<Rightarrow> string \<Rightarrow> bool"
    and auto :: "string list \<Rightarrow> 's \<Rightarrow> 's"
    and drop :: "string \<Rightarrow> 's \<Rightarrow> 's"
  assumes tomb_excludes: "inv s \<Longrightarrow> tomb s x \<Longrightarrow> \<not> member s x"
    and auto_inv: "inv s \<Longrightarrow> inv (auto xs s)"
    and auto_tomb: "inv s \<Longrightarrow> tomb (auto xs s) x = tomb s x"
    and auto_member: "inv s \<Longrightarrow> member (auto xs s) x \<longleftrightarrow> member s x \<or> (x \<in> set xs \<and> x \<noteq> [] \<and> \<not> tomb s x)"
    and drop_inv: "inv s \<Longrightarrow> inv (drop x s)"
    and drop_tomb: "inv s \<Longrightarrow> x \<noteq> [] \<Longrightarrow> tomb (drop x s) y \<longleftrightarrow> y = x \<or> tomb s y"
begin

lemma autos_inv: "inv s \<Longrightarrow> inv (foldr auto xss s)"
  by (induction xss) (simp_all add: auto_inv)

lemma autos_tomb: "inv s \<Longrightarrow> tomb (foldr auto xss s) x = tomb s x"
  by (induction xss) (simp_all add: auto_tomb autos_inv)

text \<open>However many automatic additions follow a removal, the removed id is not a member.\<close>

lemma drop_then_autos: "inv s \<Longrightarrow> x \<noteq> [] \<Longrightarrow> \<not> member (foldr auto xss (drop x s)) x"
  by (rule tomb_excludes) (simp_all add: autos_inv autos_tomb drop_inv drop_tomb)

text \<open>Adding the same ids a second time changes nothing.\<close>

lemma auto_idem_member: "inv s \<Longrightarrow> member (auto xs (auto xs s)) x = member (auto xs s) x"
  by (auto simp: auto_inv auto_member auto_tomb)

end

end
