(* ===== verification/Registry.thy ===== *)
theory Registry
  imports GoText Interfaces
begin

text \<open>
  \<open>internal/indexer/registry/registry.go\<close>: the set of approved code hashes, the set of known
  escrows and the tombstones. The mutex is not modelled: only the ingest goroutine writes, and every
  operation holds the lock for its whole body, so each operation is one atomic step.
\<close>

section \<open>State and operations\<close>

record registry =
  approved :: "hash set"
  escrows :: "string set"
  removed :: "string set"

text \<open>\<open>ParseHash\<close>: 32 bytes of hexadecimal, surrounding white space ignored.\<close>

definition parse_hash :: "string \<Rightarrow> err + hash" where
  "parse_hash s =
     (case hex_decode (trim_space s) of
        None \<Rightarrow> Err (ErrOther ''hex'')
      | Some b \<Rightarrow> if length b \<noteq> 32 then Err (ErrOther ''expected 32 bytes'') else Ok b)"

fun new_loop :: "string list \<Rightarrow> hash set \<Rightarrow> err + hash set" where
  "new_loop [] acc = Ok acc"
| "new_loop (h # hs) acc =
     (if trim_space h = [] then new_loop hs acc
      else case parse_hash h of Err e \<Rightarrow> Err e | Ok b \<Rightarrow> new_loop hs (insert b acc))"

definition new_registry :: "string list \<Rightarrow> err + registry" where
  "new_registry hs =
     (case new_loop hs {} of
        Err e \<Rightarrow> Err e
      | Ok a \<Rightarrow> Ok \<lparr>approved = a, escrows = {}, removed = {}\<rparr>)"

definition is_approved_hash :: "registry \<Rightarrow> hash \<Rightarrow> bool" where
  "is_approved_hash r h \<longleftrightarrow> h \<in> approved r"

text \<open>\<open>Register\<close> returns whether the id was newly added.\<close>

definition register :: "string \<Rightarrow> hash \<Rightarrow> registry \<Rightarrow> registry \<times> bool" where
  "register cid h r =
     (if cid = [] \<or> \<not> is_approved_hash r h then (r, False)
      else if cid \<in> removed r then (r, False)
      else if cid \<in> escrows r then (r, False)
      else (r\<lparr>escrows := insert cid (escrows r)\<rparr>, True))"

fun seed :: "string list \<Rightarrow> registry \<Rightarrow> registry" where
  "seed [] r = r"
| "seed (x # xs) r =
     (if x = [] then seed xs r
      else if x \<in> removed r then seed xs r
      else seed xs (r\<lparr>escrows := insert x (escrows r)\<rparr>))"

definition track :: "string \<Rightarrow> registry \<Rightarrow> registry \<times> bool" where
  "track cid r =
     (if cid = [] then (r, False)
      else let r' = r\<lparr>removed := removed r - {cid}\<rparr> in
        if cid \<in> escrows r' then (r', False)
        else (r'\<lparr>escrows := insert cid (escrows r')\<rparr>, True))"

definition remove :: "string \<Rightarrow> registry \<Rightarrow> registry \<times> bool" where
  "remove cid r =
     (if cid = [] then (r, False)
      else (r\<lparr>escrows := escrows r - {cid}, removed := insert cid (removed r)\<rparr>, cid \<in> escrows r))"

fun seed_removed :: "string list \<Rightarrow> registry \<Rightarrow> registry" where
  "seed_removed [] r = r"
| "seed_removed (x # xs) r =
     (if x \<noteq> []
      then seed_removed xs (r\<lparr>removed := insert x (removed r), escrows := escrows r - {x}\<rparr>)
      else seed_removed xs r)"

definition is_escrow :: "registry \<Rightarrow> string \<Rightarrow> bool" where
  "is_escrow r cid = (if cid = [] then False else cid \<in> escrows r)"

definition registry_size :: "registry \<Rightarrow> nat" where
  "registry_size r = card (escrows r)"

definition snapshot :: "registry \<Rightarrow> string list" where
  "snapshot r = sort_keys (escrows r)"

definition removed_snapshot :: "registry \<Rightarrow> string list" where
  "removed_snapshot r = sort_keys (removed r)"

section \<open>The invariant\<close>

text \<open>
  Both sets are finite (they are Go maps), no id is empty, and no id is both tracked and
  tombstoned; every approved hash has 32 bytes.
\<close>

definition reg_inv :: "registry \<Rightarrow> bool" where
  "reg_inv r \<longleftrightarrow> finite (escrows r) \<and> finite (removed r) \<and> escrows r \<inter> removed r = {} \<and>
     [] \<notin> escrows r \<and> [] \<notin> removed r \<and> (\<forall>h\<in>approved r. length h = 32)"

lemma reg_invD:
  assumes "reg_inv r"
  shows "finite (escrows r)" "finite (removed r)" "escrows r \<inter> removed r = {}"
    "[] \<notin> escrows r" "[] \<notin> removed r"
  using assms by (auto simp: reg_inv_def)

section \<open>What each operation does\<close>

lemma parse_hash_length: "parse_hash s = Ok h \<Longrightarrow> length h = 32"
  by (auto simp: parse_hash_def split: option.splits if_splits)

lemma new_loop_length:
  "new_loop hs acc = Ok a \<Longrightarrow> \<forall>h\<in>acc. length h = 32 \<Longrightarrow> \<forall>h\<in>a. length h = 32"
proof (induction hs acc rule: new_loop.induct)
  case (2 h hs acc)
  show ?case
  proof (cases "trim_space h = []")
    case False
    with 2 show ?thesis
      by (cases "parse_hash h") (simp_all add: parse_hash_length)
  qed (use 2 in simp)
qed simp

lemma seed_eq [reg_simps]:
  "seed xs r = r\<lparr>escrows := escrows r \<union> {x \<in> set xs. x \<noteq> [] \<and> x \<notin> removed r}\<rparr>"
proof (induction xs arbitrary: r)
  case (Cons x xs)
  have "escrows r \<union> {y \<in> set (x # xs). y \<noteq> [] \<and> y \<notin> removed r} =
    (if x = [] \<or> x \<in> removed r then escrows r else insert x (escrows r)) \<union>
      {y \<in> set xs. y \<noteq> [] \<and> y \<notin> removed r}"
    by auto
  then show ?case by (simp add: Cons.IH)
qed simp

lemma seed_removed_eq [reg_simps]:
  "seed_removed xs r =
     r\<lparr>escrows := escrows r - {x \<in> set xs. x \<noteq> []}, removed := removed r \<union> {x \<in> set xs. x \<noteq> []}\<rparr>"
proof (induction xs arbitrary: r)
  case (Cons x xs)
  have e: "escrows r - {y \<in> set (x # xs). y \<noteq> []} =
      (if x = [] then escrows r else escrows r - {x}) - {y \<in> set xs. y \<noteq> []}"
    and d: "removed r \<union> {y \<in> set (x # xs). y \<noteq> []} =
      (if x = [] then removed r else insert x (removed r)) \<union> {y \<in> set xs. y \<noteq> []}"
    by auto
  show ?case unfolding e d by (simp add: Cons.IH)
qed simp

lemma register_escrows [reg_simps]:
  "escrows (fst (register cid h r)) =
     (if cid \<noteq> [] \<and> is_approved_hash r h \<and> cid \<notin> removed r then insert cid (escrows r) else escrows r)"
  by (auto simp: register_def)

lemma register_removed [reg_simps]: "removed (fst (register cid h r)) = removed r"
  by (simp add: register_def)

lemma register_approved [reg_simps]: "approved (fst (register cid h r)) = approved r"
  by (simp add: register_def)

lemma register_new [reg_simps]:
  "snd (register cid h r) \<longleftrightarrow>
     cid \<noteq> [] \<and> is_approved_hash r h \<and> cid \<notin> removed r \<and> cid \<notin> escrows r"
  by (auto simp: register_def)

lemma track_escrows [reg_simps]:
  "escrows (fst (track cid r)) = (if cid = [] then escrows r else insert cid (escrows r))"
  by (auto simp: track_def Let_def)

lemma track_removed [reg_simps]:
  "removed (fst (track cid r)) = (if cid = [] then removed r else removed r - {cid})"
  by (auto simp: track_def Let_def)

lemma track_approved [reg_simps]: "approved (fst (track cid r)) = approved r"
  by (auto simp: track_def Let_def)

lemma track_new [reg_simps]: "snd (track cid r) \<longleftrightarrow> cid \<noteq> [] \<and> cid \<notin> escrows r"
  by (auto simp: track_def Let_def)

lemma remove_escrows [reg_simps]:
  "escrows (fst (remove cid r)) = (if cid = [] then escrows r else escrows r - {cid})"
  by (simp add: remove_def)

lemma remove_removed [reg_simps]:
  "removed (fst (remove cid r)) = (if cid = [] then removed r else insert cid (removed r))"
  by (simp add: remove_def)

lemma remove_approved [reg_simps]: "approved (fst (remove cid r)) = approved r"
  by (simp add: remove_def)

section \<open>Preservation\<close>

lemma new_registry_inv [inv_intros]: "new_registry hs = Ok r \<Longrightarrow> reg_inv r"
  by (auto simp: new_registry_def reg_inv_def dest: new_loop_length split: sum.splits)

lemma register_inv [inv_intros]: "reg_inv r \<Longrightarrow> reg_inv (fst (register cid h r))"
  by (auto simp: reg_inv_def reg_simps)

lemma seed_inv [inv_intros]: "reg_inv r \<Longrightarrow> reg_inv (seed xs r)"
  by (auto simp: reg_inv_def reg_simps)

lemma track_inv [inv_intros]: "reg_inv r \<Longrightarrow> reg_inv (fst (track cid r))"
  by (auto simp: reg_inv_def reg_simps)

lemma remove_inv [inv_intros]: "reg_inv r \<Longrightarrow> reg_inv (fst (remove cid r))"
  by (auto simp: reg_inv_def reg_simps)

lemma seed_removed_inv [inv_intros]: "reg_inv r \<Longrightarrow> reg_inv (seed_removed xs r)"
  by (auto simp: reg_inv_def reg_simps)

lemma is_escrow_iff: "reg_inv r \<Longrightarrow> is_escrow r x \<longleftrightarrow> x \<in> escrows r"
  by (auto simp: is_escrow_def reg_inv_def)

section \<open>The registry provides the interfaces\<close>

interpretation reg: watchlist snapshot is_escrow reg_inv
  by unfold_locales (auto simp: snapshot_def is_escrow_iff reg_invD)

interpretation tombs: tombstoned_watchlist snapshot is_escrow reg_inv
  "\<lambda>r x. x \<in> removed r" seed "\<lambda>x r. fst (remove x r)"
  by unfold_locales (auto simp: is_escrow_def reg_simps reg_inv_def)

section \<open>Runs of operations\<close>

text \<open>The writes of a process's lifetime, in any order.\<close>

datatype reg_op =
    OpRegister string hash
  | OpSeed "string list"
  | OpTrack string
  | OpRemove string
  | OpSeedRemoved "string list"

fun reg_step :: "registry \<Rightarrow> reg_op \<Rightarrow> registry" where
  "reg_step r (OpRegister cid h) = fst (register cid h r)"
| "reg_step r (OpSeed xs) = seed xs r"
| "reg_step r (OpTrack cid) = fst (track cid r)"
| "reg_step r (OpRemove cid) = fst (remove cid r)"
| "reg_step r (OpSeedRemoved xs) = seed_removed xs r"

definition reg_run :: "registry \<Rightarrow> reg_op list \<Rightarrow> registry" where
  "reg_run = foldl reg_step"

lemma reg_step_inv [inv_intros]: "reg_inv r \<Longrightarrow> reg_inv (reg_step r x)"
  by (cases x) (auto intro: inv_intros)

lemma reg_run_inv [inv_intros]: "reg_inv r \<Longrightarrow> reg_inv (reg_run r xs)"
  by (induction xs arbitrary: r) (simp_all add: reg_run_def reg_step_inv)

text \<open>
  C25. Whatever sequence of writes follows a successful \<open>New\<close>, no contract is tracked and
  tombstoned at once, no empty id is in either set, and the snapshot written to the state file is
  the strictly increasing list of exactly the contracts for which \<open>IsEscrow\<close> answers true.
\<close>

theorem registry_always_consistent:
  assumes "new_registry hs = Ok r0"
  shows "let r = reg_run r0 ops in
    escrows r \<inter> removed r = {} \<and> [] \<notin> escrows r \<union> removed r \<and>
    sorted_wrt (<) (snapshot r) \<and> set (snapshot r) = {x. is_escrow r x} \<and>
    length (snapshot r) = registry_size r"
proof -
  let ?r = "reg_run r0 ops"
  have i: "reg_inv ?r" by (rule reg_run_inv) (rule new_registry_inv [OF assms])
  have "sorted_wrt (<) (snapshot ?r)"
    using reg.ids_sorted [OF i] reg.ids_distinct [OF i] by (simp add: strict_sorted_iff)
  moreover have "set (snapshot ?r) = {x. is_escrow ?r x}" using reg.member_iff [OF i] by blast
  ultimately show ?thesis
    using reg_invD [OF i] by (simp add: Let_def snapshot_def registry_size_def)
qed

text \<open>A registry for the examples: one approved hash of 32 bytes 7.\<close>

definition sample_hash :: hash where "sample_hash = replicate 32 7"

definition sample_registry :: registry where
  "sample_registry = \<lparr>approved = {sample_hash}, escrows = {}, removed = {}\<rparr>"

lemma parse_hash_encode: "length h = 32 \<Longrightarrow> parse_hash (hex_encode h) = Ok h"
  by (simp add: parse_hash_def hex_encode_graphic)

lemma trim_hex_encode [simp]: "trim_space (hex_encode h) = hex_encode h"
  by (simp add: hex_encode_graphic)

lemma new_sample: "new_registry [hex_encode sample_hash] = Ok sample_registry"
proof -
  have l: "length sample_hash = 32" by (simp add: sample_hash_def)
  then have "hex_encode sample_hash \<noteq> []" using length_hex_encode [of sample_hash] by fastforce
  then show ?thesis
    by (simp add: new_registry_def sample_registry_def parse_hash_encode [OF l])
qed

lemma sample_inv: "reg_inv sample_registry"
  by (rule new_registry_inv [OF new_sample])

theorem registry_always_consistent_witness:
  "new_registry [hex_encode sample_hash] = Ok sample_registry \<and>
   (let r = reg_run sample_registry [OpRegister ''CA'' sample_hash, OpRemove ''CB'', OpSeed [''CB'', ''CC'']] in
    escrows r \<inter> removed r = {} \<and> [] \<notin> escrows r \<union> removed r \<and>
    sorted_wrt (<) (snapshot r) \<and> set (snapshot r) = {x. is_escrow r x} \<and>
    length (snapshot r) = registry_size r)"
  using new_sample registry_always_consistent [OF new_sample] by blast

section \<open>Tombstones\<close>

text \<open>
  A tombstone holds until an operator tracks the contract again: after a removal, no sequence
  of discoveries, seedings, restores, removals and tracks of other contracts makes the registry
  answer that the contract is an escrow, and the tombstone is still in the persisted list.
\<close>

theorem tombstone_survives:
  assumes "reg_inv r" and "x \<in> removed r" and "OpTrack x \<notin> set ops"
  shows "\<not> is_escrow (reg_run r ops) x \<and> x \<in> set (removed_snapshot (reg_run r ops))"
proof -
  have "x \<in> removed (reg_run r ops)"
    using assms(2,3)
  proof (induction ops arbitrary: r)
    case (Cons a ops)
    then have "x \<in> removed (reg_step r a)" by (cases a) (auto simp: reg_simps)
    with Cons show ?case by (simp add: reg_run_def)
  qed (simp add: reg_run_def)
  moreover have "reg_inv (reg_run r ops)" by (rule reg_run_inv [OF assms(1)])
  ultimately show ?thesis
    by (auto simp: removed_snapshot_def reg_invD tombs.tomb_excludes)
qed

theorem tombstone_survives_witness:
  "\<not> is_escrow (reg_run (fst (remove ''CA'' sample_registry)) [OpRegister ''CA'' sample_hash, OpSeed [''CA''], OpTrack ''CB'']) ''CA'' \<and>
   ''CA'' \<in> set (removed_snapshot (reg_run (fst (remove ''CA'' sample_registry)) [OpRegister ''CA'' sample_hash, OpSeed [''CA''], OpTrack ''CB'']))"
  by (rule tombstone_survives) (simp_all add: remove_inv sample_inv reg_simps)

section \<open>Persisting and restoring\<close>

text \<open>
  \<open>ingest.go\<close> rebuilds the registry of a resumed process from the two persisted lists, tombstones
  first.
\<close>

definition restore :: "registry \<Rightarrow> string list \<Rightarrow> string list \<Rightarrow> registry" where
  "restore fresh gone kept = seed kept (seed_removed gone fresh)"

lemma restore_snapshots:
  assumes "reg_inv r" and "escrows fresh = {}" and "removed fresh = {}"
  shows "restore fresh (removed_snapshot r) (snapshot r) = fresh\<lparr>escrows := escrows r, removed := removed r\<rparr>"
proof -
  have "{x \<in> removed r. x \<noteq> []} = removed r"
    and "{x \<in> escrows r. x \<noteq> [] \<and> x \<notin> removed r} = escrows r"
    using assms(1) by (auto simp: reg_inv_def)
  then show ?thesis
    using assms reg_invD [OF assms(1)]
    by (simp add: restore_def reg_simps removed_snapshot_def snapshot_def)
qed

text \<open>
  Restart loses nothing: a fresh registry with the same approved hashes, given the persisted
  tombstones and then the persisted escrows, is the registry that was saved.
\<close>

theorem restore_roundtrip:
  assumes "reg_inv r" and "approved fresh = approved r" and "escrows fresh = {}" and "removed fresh = {}"
  shows "restore fresh (removed_snapshot r) (snapshot r) = r"
  using restore_snapshots [OF assms(1,3,4)] assms(2) by simp

theorem restore_roundtrip_witness:
  "restore sample_registry (removed_snapshot (reg_run sample_registry [OpTrack ''CA'', OpRemove ''CB'']))
     (snapshot (reg_run sample_registry [OpTrack ''CA'', OpRemove ''CB'']))
   = reg_run sample_registry [OpTrack ''CA'', OpRemove ''CB'']"
  by (rule restore_roundtrip)
    (simp_all add: reg_run_inv sample_inv, simp_all add: reg_run_def reg_simps sample_registry_def)

text \<open>
  The order of the two calls matters: a stale id in the escrow list does not outlive its own
  tombstone.
\<close>

lemma restore_respects_tombstones:
  "x \<in> set gone \<Longrightarrow> x \<noteq> [] \<Longrightarrow> escrows fresh = {} \<Longrightarrow> \<not> is_escrow (restore fresh gone kept) x"
  by (simp add: restore_def is_escrow_def reg_simps)

lemma restore_inv [inv_intros]: "reg_inv r \<Longrightarrow> reg_inv (restore r gone kept)"
  by (simp add: restore_def inv_intros)

end
