(* ===== verification/StateDetector.thy ===== *)
theory StateDetector
  imports Chain Registry "HOL-Library.AList_Mapping"
begin

text \<open>
  \<open>internal/indexer/processors/escrow_state.go\<close>: the current state of escrows read through
  \<open>getLedgerEntries\<close>. The RPC endpoint is not part of the repository: it is the argument \<open>rpc\<close>, which
  gives the answer to the \<open>n\<close>-th request of the process. The field \<open>asked\<close> of the detector is the
  history of the requests; the code does not keep it, nothing in the code reads it, and its length is
  the number of requests made, the \<open>n\<close> of the next one.
\<close>

section \<open>Types\<close>

definition escrow_state_key :: string where "escrow_state_key = ''Escrow''"
definition max_ledger_entry_keys :: nat where "max_ledger_entry_keys = 200"
definition candidate_keys_per_escrow :: nat where "candidate_keys_per_escrow = 4"
definition removal_guard_min_batch :: nat where "removal_guard_min_batch = 10"

record state_change =
  sc_escrow_id :: string
  sc_type :: string
  sc_ledger_seq :: u32
  sc_closed_at :: time
  sc_raw_xdr :: string
  sc_last_modified :: u32

definition updated_type :: string where "updated_type = ''updated''"
definition removed_type :: string where "removed_type = ''removed''"

text \<open>\<open>protocol.LedgerEntryResult\<close>.\<close>

record rpc_entry =
  re_key_xdr :: string
  re_data_xdr :: string
  re_last_modified :: u32

type_synonym rpc = "nat \<Rightarrow> string list \<Rightarrow> err + rpc_entry list"

record detector =
  learned :: "(string, string) mapping"
  warned_bad_ids :: "string set"
  suppressed_removals :: nat
  asked :: "string list list"

definition new_detector :: detector where
  "new_detector = \<lparr>learned = Mapping.empty, warned_bad_ids = {}, suppressed_removals = 0, asked = []\<rparr>"

definition key_cost :: "detector \<Rightarrow> string \<Rightarrow> nat" where
  "key_cost d cid = (case Mapping.lookup (learned d) cid of Some _ \<Rightarrow> 1 | None \<Rightarrow> candidate_keys_per_escrow)"

section \<open>Building the request\<close>

definition escrow_state_ledger_keys :: "sdk \<Rightarrow> string \<Rightarrow> err + ledger_key list" where
  "escrow_state_ledger_keys k cid =
     (case strkey_decode k cid of
        None \<Rightarrow> Err (ErrOther ''decoding contract id'')
      | Some raw \<Rightarrow>
          if length raw \<noteq> 32 then Err (ErrOther ''unexpected length'')
          else
            let addr = ScAddressContract raw;
                sym = ScvSymbol escrow_state_key;
                vec = ScvVec [sym];
                mk = (\<lambda>key dur. \<lparr>lk_contract = addr, lk_key = key, lk_durability = dur\<rparr>)
            in Ok [mk vec Persistent, mk sym Persistent, mk vec Temporary, mk ScvLedgerKeyContractInstance Persistent])"

definition warn_bad_id :: "string \<Rightarrow> detector \<Rightarrow> detector" where
  "warn_bad_id cid d = d\<lparr>warned_bad_ids := insert cid (warned_bad_ids d)\<rparr>"

text \<open>The inner loop: marshal an escrow's candidate keys, skipping those that fail.\<close>

fun marshal_candidates :: "sdk \<Rightarrow> string \<Rightarrow> ledger_key list \<Rightarrow> detector \<Rightarrow> string list \<Rightarrow> detector \<times> string list" where
  "marshal_candidates k cid [] d keys = (d, keys)"
| "marshal_candidates k cid (c # cs) d keys =
     (case marshal_key k c of
        None \<Rightarrow> marshal_candidates k cid cs (warn_bad_id cid d) keys
      | Some b \<Rightarrow> marshal_candidates k cid cs d (keys @ [b]))"

fun query_keys :: "sdk \<Rightarrow> string list \<Rightarrow> detector \<Rightarrow> string list \<Rightarrow> string list \<Rightarrow> detector \<times> string list \<times> string list" where
  "query_keys k [] d keys requested = (d, keys, requested)"
| "query_keys k (cid # ids) d keys requested =
     (case Mapping.lookup (learned d) cid of
        Some l \<Rightarrow> query_keys k ids d (keys @ [l]) (requested @ [cid])
      | None \<Rightarrow>
          (case escrow_state_ledger_keys k cid of
             Err e \<Rightarrow> query_keys k ids (warn_bad_id cid d) keys requested
           | Ok cands \<Rightarrow>
               (case marshal_candidates k cid cands d keys of
                  (d', keys') \<Rightarrow> query_keys k ids d' keys' (requested @ [cid]))))"

text \<open>\<open>chunkStrings\<close>: slices \<open>s[start:min(start+size, len(s))]\<close>, or one chunk when \<open>size\<close> is not positive.\<close>

function chunk_loop :: "'a list \<Rightarrow> nat \<Rightarrow> nat \<Rightarrow> 'a list list" where
  "chunk_loop s n start =
     (if n = 0 \<or> length s \<le> start then []
      else take n (drop start s) # chunk_loop s n (start + n))"
  by pat_completeness auto
termination
  by (relation "measure (\<lambda>(s, n, start). length s - start)") auto

declare chunk_loop.simps [simp del]

definition chunk_strings :: "'a list \<Rightarrow> int \<Rightarrow> 'a list list" where
  "chunk_strings s n =
     (if n \<le> 0 \<or> int (length s) \<le> n then [s] else chunk_loop s (nat n) 0)"

fun query_chunks :: "rpc \<Rightarrow> string list list \<Rightarrow> detector \<Rightarrow> rpc_entry list \<Rightarrow> detector \<times> (err + rpc_entry list)" where
  "query_chunks rpc [] d entries = (d, Ok entries)"
| "query_chunks rpc (chunk # chunks) d entries =
     (let d' = d\<lparr>asked := asked d @ [chunk]\<rparr> in
      case rpc (length (asked d)) chunk of
        Err e \<Rightarrow> (d', Err e)
      | Ok es \<Rightarrow> query_chunks rpc chunks d' (entries @ es))"

definition query_entries :: "sdk \<Rightarrow> rpc \<Rightarrow> string list \<Rightarrow> detector \<Rightarrow> detector \<times> (err + rpc_entry list \<times> string list)" where
  "query_entries k rpc ids d =
     (case query_keys k ids d [] [] of
        (d1, keys, requested) \<Rightarrow>
          if keys = [] then (d1, Ok ([], []))
          else (case query_chunks rpc (chunk_strings keys (int max_ledger_entry_keys)) d1 [] of
                  (d2, Err e) \<Rightarrow> (d2, Err e)
                | (d2, Ok entries) \<Rightarrow> (d2, Ok (entries, requested))))"

section \<open>Reading the response\<close>

record pick =
  pk_raw :: string
  pk_is_data :: bool
  pk_key_xdr :: string
  pk_last_modified :: u32

text \<open>One entry of the response: the owner, when it is a known escrow, and what to remember of it.\<close>

definition entry_pick :: "sdk \<Rightarrow> registry \<Rightarrow> rpc_entry \<Rightarrow> (string \<times> pick) option" where
  "entry_pick k r e =
     (case unmarshal_entry k (re_data_xdr e) of None \<Rightarrow> None
      | Some data \<Rightarrow>
        (case get_contract_data data of None \<Rightarrow> None
         | Some cd \<Rightarrow>
           (case addr_string k (cd_contract cd) of None \<Rightarrow> None
            | Some cid \<Rightarrow>
              if \<not> is_escrow r cid then None
              else Some (cid, \<lparr>pk_raw = re_data_xdr e, pk_is_data = (cd_key cd \<noteq> ScvLedgerKeyContractInstance),
                      pk_key_xdr = re_key_xdr e, pk_last_modified = re_last_modified e\<rparr>))))"

fun collect_picks :: "sdk \<Rightarrow> registry \<Rightarrow> rpc_entry list \<Rightarrow> (string, pick) mapping \<Rightarrow> (string, pick) mapping" where
  "collect_picks k r [] picks = picks"
| "collect_picks k r (e # es) picks =
     (case entry_pick k r e of
        None \<Rightarrow> collect_picks k r es picks
      | Some (cid, p) \<Rightarrow>
          (case Mapping.lookup picks cid of
             Some existing \<Rightarrow>
               if pk_is_data existing then collect_picks k r es picks
               else collect_picks k r es (Mapping.update cid p picks)
           | None \<Rightarrow> collect_picks k r es (Mapping.update cid p picks)))"

text \<open>
  The loop over the picks. Go ranges over the map in an unspecified order and sorts the output; the
  model ranges in the sorted order. The writes to \<open>learned\<close> are to different keys.
\<close>

fun emit_picks :: "(string \<times> pick) list \<Rightarrow> u32 \<Rightarrow> time \<Rightarrow> detector \<Rightarrow> state_change list \<Rightarrow> detector \<times> state_change list" where
  "emit_picks [] seq closed d out = (d, out)"
| "emit_picks ((cid, p) # ps) seq closed d out =
     emit_picks ps seq closed
       (if pk_key_xdr p \<noteq> [] then d\<lparr>learned := Mapping.update cid (pk_key_xdr p) (learned d)\<rparr> else d)
       (out @ [\<lparr>sc_escrow_id = cid, sc_type = updated_type, sc_ledger_seq = seq, sc_closed_at = closed,
                sc_raw_xdr = pk_raw p, sc_last_modified = pk_last_modified p\<rparr>])"

definition pick_list :: "(string, pick) mapping \<Rightarrow> (string \<times> pick) list" where
  "pick_list picks = List.map_filter (\<lambda>cid. map_option (Pair cid) (Mapping.lookup picks cid)) (sort_keys (Mapping.keys picks))"

definition build_state_changes :: "sdk \<Rightarrow> registry \<Rightarrow> rpc_entry list \<Rightarrow> u32 \<Rightarrow> time \<Rightarrow> detector \<Rightarrow> detector \<times> state_change list" where
  "build_state_changes k r entries seq closed d =
     emit_picks (pick_list (collect_picks k r entries Mapping.empty)) seq closed d []"

definition missing_from :: "string list \<Rightarrow> state_change list \<Rightarrow> string list" where
  "missing_from requested present = filter (\<lambda>cid. cid \<notin> sc_escrow_id ` set present) requested"

fun forget_learned_among :: "string list \<Rightarrow> detector \<Rightarrow> string list \<Rightarrow> detector \<times> string list" where
  "forget_learned_among [] d had = (d, had)"
| "forget_learned_among (cid # ids) d had =
     (case Mapping.lookup (learned d) cid of
        None \<Rightarrow> forget_learned_among ids d had
      | Some _ \<Rightarrow> forget_learned_among ids (d\<lparr>learned := Mapping.delete cid (learned d)\<rparr>) (had @ [cid]))"

definition filter_unchanged :: "state_change list \<Rightarrow> u32 \<Rightarrow> state_change list" where
  "filter_unchanged changes since =
     (if since = 0 then changes
      else filter (\<lambda>sc. sc_type sc = removed_type \<or> since \<le> sc_last_modified sc) changes)"

text \<open>\<open>sort.Slice\<close> by id. Among equal ids, where Go's order is unspecified, the model keeps the order of arrival.\<close>

definition sort_by_escrow_id :: "state_change list \<Rightarrow> state_change list" where
  "sort_by_escrow_id changes = sort_key sc_escrow_id changes"

definition removed_change :: "u32 \<Rightarrow> time \<Rightarrow> string \<Rightarrow> state_change" where
  "removed_change seq closed cid =
     \<lparr>sc_escrow_id = cid, sc_type = removed_type, sc_ledger_seq = seq, sc_closed_at = closed,
      sc_raw_xdr = [], sc_last_modified = 0\<rparr>"

definition append_removed :: "string list \<Rightarrow> state_change list \<Rightarrow> u32 \<Rightarrow> time \<Rightarrow> state_change list" where
  "append_removed requested present seq closed =
     sort_by_escrow_id (present @ map (removed_change seq closed)
       (filter (\<lambda>cid. cid \<notin> sc_escrow_id ` set present) requested))"

text \<open>
  The guard compares \<open>float64(missing) > float64(requested) * 0.5\<close>; on lengths of slices the
  conversion and the product are exact.
\<close>

definition is_implausible_removal_batch :: "nat \<Rightarrow> nat \<Rightarrow> bool" where
  "is_implausible_removal_batch requested missing =
     (if requested < removal_guard_min_batch then False else requested < 2 * missing)"

section \<open>fetchStates\<close>

text \<open>The absences are judged on the changes of both queries together, and only then filtered.\<close>

definition finish_states :: "string list \<Rightarrow> state_change list \<Rightarrow> u32 \<Rightarrow> time \<Rightarrow> u32 \<Rightarrow> detector \<Rightarrow> detector \<times> state_change list" where
  "finish_states requested changes seq closed since d =
     (let missing = missing_from requested changes in
      if is_implausible_removal_batch (length requested) (length missing)
      then (d\<lparr>suppressed_removals := suppressed_removals d + length missing\<rparr>,
            filter_unchanged (sort_by_escrow_id changes) since)
      else (d, filter_unchanged (append_removed requested changes seq closed) since))"

definition fetch_states :: "sdk \<Rightarrow> rpc \<Rightarrow> registry \<Rightarrow> string list \<Rightarrow> u32 \<Rightarrow> time \<Rightarrow> u32 \<Rightarrow> detector
    \<Rightarrow> detector \<times> (err + state_change list)" where
  "fetch_states k rpc r ids seq closed since d0 =
     (if ids = [] then (d0, Ok [])
      else case query_entries k rpc ids d0 of
        (d1, Err e) \<Rightarrow> (d1, Err e)
      | (d1, Ok (entries, requested)) \<Rightarrow>
          (case build_state_changes k r entries seq closed d1 of
             (d2, changes) \<Rightarrow>
               (case forget_learned_among (missing_from requested changes) d2 [] of
                  (d3, relearn) \<Rightarrow>
                    if relearn = []
                    then (case finish_states requested changes seq closed since d3 of (d6, out) \<Rightarrow> (d6, Ok out))
                    else (case query_entries k rpc relearn d3 of
                        (d4, Err e) \<Rightarrow> (d4, Err e)
                      | (d4, Ok (extra, _)) \<Rightarrow>
                          (case build_state_changes k r extra seq closed d4 of
                             (d5, later) \<Rightarrow>
                               (case finish_states requested (changes @ later) seq closed since d5 of
                                  (d6, out) \<Rightarrow> (d6, Ok out)))))))"

abbreviation fetch_states_all :: "sdk \<Rightarrow> rpc \<Rightarrow> registry \<Rightarrow> string list \<Rightarrow> u32 \<Rightarrow> time \<Rightarrow> detector
    \<Rightarrow> detector \<times> (err + state_change list)" where
  "fetch_states_all k rpc r ids seq closed d \<equiv> fetch_states k rpc r ids seq closed 0 d"

section \<open>Chunking\<close>

lemma chunk_loop_concat: "n \<noteq> 0 \<Longrightarrow> concat (chunk_loop s n start) = drop start s"
proof (induction s n start rule: chunk_loop.induct)
  case (1 s n start)
  show ?case
  proof (cases "length s \<le> start")
    case False
    with 1 have "concat (chunk_loop s n (start + n)) = drop n (drop start s)" by (simp add: add.commute)
    then show ?thesis
      using False 1 append_take_drop_id [of n "drop start s"]
      by (simp add: chunk_loop.simps [of s n start] del: append_take_drop_id drop_drop)
  qed (simp add: chunk_loop.simps [of s n start])
qed

lemma chunk_loop_length: "c \<in> set (chunk_loop s n start) \<Longrightarrow> 0 < length c \<and> length c \<le> n"
proof (induction s n start rule: chunk_loop.induct)
  case (1 s n start)
  then show ?case
    by (subst (asm) chunk_loop.simps) (auto split: if_splits)
qed

lemma chunk_strings_concat: "concat (chunk_strings s n) = s"
  by (auto simp: chunk_strings_def chunk_loop_concat)

lemma chunk_strings_length: "0 < n \<Longrightarrow> c \<in> set (chunk_strings s n) \<Longrightarrow> int (length c) \<le> n"
  by (auto simp: chunk_strings_def split: if_splits dest: chunk_loop_length)

lemma chunk_strings_single: "int (length s) \<le> n \<Longrightarrow> chunk_strings s n = [s]"
  by (simp add: chunk_strings_def)

section \<open>What a query asks\<close>

text \<open>The keys one query spends on an id, and whether the id goes on the wire at all.\<close>

definition id_keys :: "sdk \<Rightarrow> detector \<Rightarrow> string \<Rightarrow> string list" where
  "id_keys k d cid =
     (case Mapping.lookup (learned d) cid of Some l \<Rightarrow> [l]
      | None \<Rightarrow> (case escrow_state_ledger_keys k cid of Err e \<Rightarrow> []
                | Ok cands \<Rightarrow> List.map_filter (marshal_key k) cands))"

definition buildable :: "sdk \<Rightarrow> detector \<Rightarrow> string \<Rightarrow> bool" where
  "buildable k d cid \<longleftrightarrow>
     Mapping.lookup (learned d) cid \<noteq> None \<or> (\<exists>cands. escrow_state_ledger_keys k cid = Ok cands)"

lemma marshal_candidates_eq:
  "marshal_candidates k cid cs d keys = (d', keys') \<Longrightarrow>
     learned d' = learned d \<and> asked d' = asked d \<and> suppressed_removals d' = suppressed_removals d \<and>
     keys' = keys @ List.map_filter (marshal_key k) cs"
proof (induction cs arbitrary: d keys)
  case (Cons c cs)
  show ?case
  proof (cases "marshal_key k c")
    case None
    with Cons.prems have "marshal_candidates k cid cs (warn_bad_id cid d) keys = (d', keys')" by simp
    from Cons.IH [OF this] None show ?thesis by (simp add: warn_bad_id_def List.map_filter_def)
  next
    case (Some b)
    with Cons.prems have "marshal_candidates k cid cs d (keys @ [b]) = (d', keys')" by simp
    from Cons.IH [OF this] Some show ?thesis by (simp add: List.map_filter_def)
  qed
qed (simp add: List.map_filter_def)

lemma query_keys_eq:
  "query_keys k ids d keys req = (d', keys', req') \<Longrightarrow>
     learned d' = learned d \<and> asked d' = asked d \<and> suppressed_removals d' = suppressed_removals d \<and>
     keys' = keys @ concat (map (id_keys k d) ids) \<and> req' = req @ filter (buildable k d) ids"
proof (induction ids arbitrary: d keys req)
  case (Cons cid ids)
  have same: "id_keys k e = id_keys k d" "buildable k e = buildable k d" if "learned e = learned d" for e
    using that by (simp_all add: id_keys_def buildable_def fun_eq_iff)
  show ?case
  proof (cases "Mapping.lookup (learned d) cid")
    case (Some l)
    then have "buildable k d cid" and "id_keys k d cid = [l]" by (simp_all add: id_keys_def buildable_def)
    moreover from Some Cons.prems have q: "query_keys k ids d (keys @ [l]) (req @ [cid]) = (d', keys', req')" by simp
    ultimately show ?thesis using Cons.IH [OF q] by simp
  next
    case None
    show ?thesis
    proof (cases "escrow_state_ledger_keys k cid")
      case (Inl e)
      with None Cons.prems have q: "query_keys k ids (warn_bad_id cid d) keys req = (d', keys', req')" by simp
      moreover have "\<not> buildable k d cid" and "id_keys k d cid = []"
        using None Inl by (simp_all add: id_keys_def buildable_def)
      ultimately show ?thesis
        using Cons.IH [OF q] same [of "warn_bad_id cid d"] by (simp add: warn_bad_id_def)
    next
      case (Inr cands)
      obtain d1 k1 where m: "marshal_candidates k cid cands d keys = (d1, k1)"
        by (cases "marshal_candidates k cid cands d keys")
      note M = marshal_candidates_eq [OF m]
      from None Inr Cons.prems m have q: "query_keys k ids d1 k1 (req @ [cid]) = (d', keys', req')" by simp
      moreover have "buildable k d cid" and "id_keys k d cid = List.map_filter (marshal_key k) cands"
        using None Inr by (simp_all add: id_keys_def buildable_def)
      ultimately show ?thesis using Cons.IH [OF q] M same [of d1] by simp
    qed
  qed
qed simp

lemma escrow_keys_length: "escrow_state_ledger_keys k cid = Ok cands \<Longrightarrow> length cands = 4"
  by (auto simp: escrow_state_ledger_keys_def Let_def split: option.splits if_splits)

lemma length_map_filter: "length (List.map_filter f xs) \<le> length xs"
  by (simp add: List.map_filter_def)

lemma id_keys_cost: "length (id_keys k d cid) \<le> key_cost d cid"
proof (cases "Mapping.lookup (learned d) cid")
  case None
  have "length (List.map_filter (marshal_key k) cands) \<le> 4" if "escrow_state_ledger_keys k cid = Ok cands" for cands
    using length_map_filter [of "marshal_key k" cands] escrow_keys_length [OF that] by simp
  with None show ?thesis
    by (simp add: id_keys_def key_cost_def candidate_keys_per_escrow_def split: sum.split)
qed (simp add: id_keys_def key_cost_def)

text \<open>The answers to a list of requests that starts at request number \<open>n\<close>.\<close>

definition answers :: "rpc \<Rightarrow> nat \<Rightarrow> string list list \<Rightarrow> rpc_entry list" where
  "answers rpc n reqs = concat (map (\<lambda>(i, req). case rpc i req of Ok es \<Rightarrow> es | Err _ \<Rightarrow> []) (enumerate n reqs))"

lemma query_chunks_eq:
  "query_chunks rpc chunks d entries = (d', res) \<Longrightarrow>
     learned d' = learned d \<and> suppressed_removals d' = suppressed_removals d \<and>
     (\<exists>m \<le> length chunks. asked d' = asked d @ take m chunks) \<and>
     (\<forall>es. res = Ok es \<longrightarrow> asked d' = asked d @ chunks \<and> es = entries @ answers rpc (length (asked d)) chunks)"
proof (induction chunks arbitrary: d entries)
  case Nil
  then show ?case by (auto simp: answers_def)
next
  case (Cons c cs)
  let ?d = "d\<lparr>asked := asked d @ [c]\<rparr>"
  show ?case
  proof (cases "rpc (length (asked d)) c")
    case (Inl e)
    with Cons.prems show ?thesis by (auto simp: Let_def intro!: exI [of _ "Suc 0"])
  next
    case (Inr es)
    with Cons.prems have "query_chunks rpc cs ?d (entries @ es) = (d', res)" by (simp add: Let_def)
    from Cons.IH [OF this] obtain m where "m \<le> length cs" and "asked d' = asked ?d @ take m cs"
      and "learned d' = learned ?d" "suppressed_removals d' = suppressed_removals ?d"
      and "\<forall>es'. res = Ok es' \<longrightarrow> asked d' = asked ?d @ cs \<and> es' = (entries @ es) @ answers rpc (length (asked ?d)) cs"
      by blast
    then show ?thesis using Inr by (auto simp: answers_def intro!: exI [of _ "Suc m"])
  qed
qed

lemma answers_append:
  "answers rpc n (xs @ ys) = answers rpc n xs @ answers rpc (n + length xs) ys"
  by (simp add: answers_def enumerate_append_eq)

text \<open>The requests of one query: none when there is no key, else the keys in chunks of at most 200.\<close>

definition query_requests :: "sdk \<Rightarrow> detector \<Rightarrow> string list \<Rightarrow> string list list" where
  "query_requests k d ids =
     (let keys = concat (map (id_keys k d) ids) in
      if keys = [] then [] else chunk_strings keys (int max_ledger_entry_keys))"

lemma query_requests_concat: "concat (query_requests k d ids) = concat (map (id_keys k d) ids)"
  by (simp add: query_requests_def Let_def chunk_strings_concat)

lemma query_requests_length: "c \<in> set (query_requests k d ids) \<Longrightarrow> length c \<le> max_ledger_entry_keys"
  using chunk_strings_length [of "int max_ledger_entry_keys"]
  by (auto simp: query_requests_def Let_def max_ledger_entry_keys_def split: if_splits)

lemma query_entries_eq:
  assumes "query_entries k rpc ids d = (d', res)"
  shows "learned d' = learned d \<and> suppressed_removals d' = suppressed_removals d \<and>
    (\<exists>m. asked d' = asked d @ take m (query_requests k d ids))"
    and "res = Ok (entries, req) \<Longrightarrow> asked d' = asked d @ query_requests k d ids \<and>
      entries = answers rpc (length (asked d)) (query_requests k d ids) \<and>
      req = (if concat (map (id_keys k d) ids) = [] then [] else filter (buildable k d) ids)"
proof -
  obtain d1 keys r1 where q: "query_keys k ids d [] [] = (d1, keys, r1)"
    by (cases "query_keys k ids d [] []") auto
  note Q = query_keys_eq [OF q]
  have "(learned d' = learned d \<and> suppressed_removals d' = suppressed_removals d \<and>
      (\<exists>m. asked d' = asked d @ take m (query_requests k d ids))) \<and>
    (res = Ok (entries, req) \<longrightarrow> asked d' = asked d @ query_requests k d ids \<and>
      entries = answers rpc (length (asked d)) (query_requests k d ids) \<and>
      req = (if concat (map (id_keys k d) ids) = [] then [] else filter (buildable k d) ids))"
  proof (cases "keys = []")
    case True
    then have "query_requests k d ids = []" using Q by (simp add: query_requests_def)
    with True assms q Q show ?thesis by (auto simp: query_entries_def answers_def)
  next
    case False
    obtain d2 res2 where c: "query_chunks rpc (chunk_strings keys (int max_ledger_entry_keys)) d1 [] = (d2, res2)"
      by (cases "query_chunks rpc (chunk_strings keys (int max_ledger_entry_keys)) d1 []")
    have rq: "chunk_strings keys (int max_ledger_entry_keys) = query_requests k d ids"
      using Q False by (auto simp: query_requests_def Let_def)
    have ne: "concat (map (id_keys k d) ids) \<noteq> []" using Q False by auto
    note C = query_chunks_eq [OF c [unfolded rq]]
    show ?thesis
    proof (cases res2)
      case (Inl e)
      with assms q c False have "d' = d2" "res = Inl e" by (simp_all add: query_entries_def)
      with C Q show ?thesis by auto
    next
      case (Inr es)
      with assms q c False have "d' = d2" "res = Inr (es, r1)" by (simp_all add: query_entries_def)
      with C Q Inr ne show ?thesis by (auto intro: exI [of _ "length (query_requests k d ids)"])
    qed
  qed
  then show "learned d' = learned d \<and> suppressed_removals d' = suppressed_removals d \<and>
    (\<exists>m. asked d' = asked d @ take m (query_requests k d ids))"
    and "res = Ok (entries, req) \<Longrightarrow> asked d' = asked d @ query_requests k d ids \<and>
      entries = answers rpc (length (asked d)) (query_requests k d ids) \<and>
      req = (if concat (map (id_keys k d) ids) = [] then [] else filter (buildable k d) ids)"
    by blast+
qed

section \<open>What a response yields\<close>

definition pick_step :: "sdk \<Rightarrow> registry \<Rightarrow> rpc_entry \<Rightarrow> (string, pick) mapping \<Rightarrow> (string, pick) mapping" where
  "pick_step k r e picks =
     (case entry_pick k r e of None \<Rightarrow> picks
      | Some (cid, p) \<Rightarrow>
          (case Mapping.lookup picks cid of
             Some existing \<Rightarrow> if pk_is_data existing then picks else Mapping.update cid p picks
           | None \<Rightarrow> Mapping.update cid p picks))"

lemma collect_picks_fold: "collect_picks k r es picks = fold (pick_step k r) es picks"
  by (induction es arbitrary: picks) (simp_all add: pick_step_def split: option.splits prod.splits)

lemma pick_step_lookup:
  "Mapping.lookup (pick_step k r e picks) cid =
     (case entry_pick k r e of None \<Rightarrow> Mapping.lookup picks cid
      | Some (cid', p) \<Rightarrow>
          if cid' = cid \<and> (\<forall>q. Mapping.lookup picks cid = Some q \<longrightarrow> \<not> pk_is_data q) then Some p
          else Mapping.lookup picks cid)"
  by (auto simp: pick_step_def lookup_update' split: option.splits)

lemma pick_step_keys:
  "Mapping.keys (pick_step k r e picks) = Mapping.keys picks \<union> {cid. \<exists>p. entry_pick k r e = Some (cid, p)}"
  by (cases "entry_pick k r e") (auto simp: keys_dom_lookup pick_step_lookup split: if_splits)

lemma collect_picks_keys:
  "Mapping.keys (collect_picks k r es picks) =
     Mapping.keys picks \<union> {cid. \<exists>e\<in>set es. \<exists>p. entry_pick k r e = Some (cid, p)}"
  unfolding collect_picks_fold
  by (induction es arbitrary: picks) (auto simp: pick_step_keys)

lemma collect_picks_finite: "finite (Mapping.keys picks) \<Longrightarrow> finite (Mapping.keys (collect_picks k r es picks))"
  unfolding collect_picks_fold
proof (induction es arbitrary: picks)
  case (Cons e es)
  have "finite {cid. \<exists>p. entry_pick k r e = Some (cid, p)}" by (cases "entry_pick k r e") auto
  then show ?case using Cons by (simp add: pick_step_keys)
qed simp

lemma collect_picks_origin:
  "Mapping.lookup (collect_picks k r es picks) cid = Some p \<Longrightarrow>
     Mapping.lookup picks cid = Some p \<or> (\<exists>e\<in>set es. entry_pick k r e = Some (cid, p))"
  unfolding collect_picks_fold
proof (induction es arbitrary: picks)
  case (Cons e es)
  from Cons.IH [of "pick_step k r e picks"] Cons.prems
  have "Mapping.lookup (pick_step k r e picks) cid = Some p \<or> (\<exists>e\<in>set es. entry_pick k r e = Some (cid, p))"
    by simp
  then show ?case by (auto simp: pick_step_lookup split: option.splits if_splits)
qed simp

text \<open>A dedicated data entry wins over the instance entry, wherever it stands in the response.\<close>

lemma collect_picks_data:
  "Mapping.lookup (collect_picks k r es picks) cid = Some p \<Longrightarrow>
   (\<exists>q. Mapping.lookup picks cid = Some q \<and> pk_is_data q) \<or> (\<exists>e\<in>set es. \<exists>q. entry_pick k r e = Some (cid, q) \<and> pk_is_data q) \<Longrightarrow>
   pk_is_data p"
  unfolding collect_picks_fold
proof (induction es arbitrary: picks)
  case (Cons e es)
  have "(\<exists>q. Mapping.lookup (pick_step k r e picks) cid = Some q \<and> pk_is_data q) \<or>
      (\<exists>e\<in>set es. \<exists>q. entry_pick k r e = Some (cid, q) \<and> pk_is_data q)"
    using Cons.prems(2) by (auto simp: pick_step_lookup split: option.splits)
  with Cons show ?case by simp
qed simp

definition updated_change :: "u32 \<Rightarrow> time \<Rightarrow> string \<times> pick \<Rightarrow> state_change" where
  "updated_change seq closed cp =
     \<lparr>sc_escrow_id = fst cp, sc_type = updated_type, sc_ledger_seq = seq, sc_closed_at = closed,
      sc_raw_xdr = pk_raw (snd cp), sc_last_modified = pk_last_modified (snd cp)\<rparr>"

lemma emit_picks_eq:
  assumes "emit_picks ps seq closed d out = (d', out')"
  shows "out' = out @ map (updated_change seq closed) ps \<and> asked d' = asked d \<and>
    suppressed_removals d' = suppressed_removals d \<and>
    (\<forall>cid. cid \<notin> fst ` set ps \<longrightarrow> Mapping.lookup (learned d') cid = Mapping.lookup (learned d) cid)"
  using assms
proof (induction ps arbitrary: d out)
  case (Cons cp ps)
  obtain cid p where cp: "cp = (cid, p)" by (cases cp)
  from Cons.IH [OF Cons.prems [unfolded cp emit_picks.simps]] show ?case
    by (auto simp: cp updated_change_def lookup_update' split: if_splits)
qed simp

lemma pick_list_props:
  assumes "finite (Mapping.keys picks)"
  shows "map fst (pick_list picks) = sort_keys (Mapping.keys picks)"
    and "set (pick_list picks) = {(cid, p). Mapping.lookup picks cid = Some p}"
proof -
  have m: "Mapping.lookup picks cid \<noteq> None \<longleftrightarrow> cid \<in> Mapping.keys picks" for cid
    by (simp add: keys_is_none_rep Option.is_none_def)
  have "map fst (List.map_filter (\<lambda>cid. map_option (Pair cid) (Mapping.lookup picks cid)) xs) = xs"
    if "set xs \<subseteq> Mapping.keys picks" for xs
    using that by (induction xs) (use m in \<open>fastforce simp: List.map_filter_def\<close>)+
  then show "map fst (pick_list picks) = sort_keys (Mapping.keys picks)"
    using assms by (simp add: pick_list_def)
  show "set (pick_list picks) = {(cid, p). Mapping.lookup picks cid = Some p}"
  proof (intro set_eqI)
    fix cp :: "string \<times> pick"
    obtain cid p where cp: "cp = (cid, p)" by (cases cp)
    show "cp \<in> set (pick_list picks) \<longleftrightarrow> cp \<in> {(cid, p). Mapping.lookup picks cid = Some p}"
      using m [of cid] assms by (force simp: cp pick_list_def List.map_filter_def)
  qed
qed

text \<open>The escrows that own an entry of a response.\<close>

definition owners :: "sdk \<Rightarrow> registry \<Rightarrow> rpc_entry list \<Rightarrow> string set" where
  "owners k r es = {cid. \<exists>e\<in>set es. \<exists>p. entry_pick k r e = Some (cid, p)}"

lemma owners_append: "owners k r (xs @ ys) = owners k r xs \<union> owners k r ys"
  by (auto simp: owners_def)

lemma build_state_changes_eq:
  assumes "build_state_changes k r es seq closed d = (d', out)"
  shows "map sc_escrow_id out = sort_keys (owners k r es)"
    and "finite (owners k r es)"
    and "sc \<in> set out \<Longrightarrow> sc_type sc = updated_type \<and> sc_ledger_seq sc = seq \<and> sc_closed_at sc = closed \<and>
      (\<exists>e\<in>set es. \<exists>p. entry_pick k r e = Some (sc_escrow_id sc, p) \<and> sc_raw_xdr sc = re_data_xdr e \<and>
        sc_last_modified sc = re_last_modified e)"
    and "asked d' = asked d" and "suppressed_removals d' = suppressed_removals d"
    and "cid \<notin> owners k r es \<Longrightarrow> Mapping.lookup (learned d') cid = Mapping.lookup (learned d) cid"
proof -
  let ?picks = "collect_picks k r es Mapping.empty"
  have fin: "finite (Mapping.keys ?picks)" by (rule collect_picks_finite) simp
  have own: "owners k r es = Mapping.keys ?picks" by (simp add: owners_def collect_picks_keys)
  note E = emit_picks_eq [OF assms [unfolded build_state_changes_def]]
  note P = pick_list_props [OF fin]
  have o: "out = map (updated_change seq closed) (pick_list ?picks)" using E by simp
  have "map sc_escrow_id out = map fst (pick_list ?picks)" by (simp add: o updated_change_def)
  then show "map sc_escrow_id out = sort_keys (owners k r es)" by (simp add: P(1) own)
  show "finite (owners k r es)" using fin own by simp
  have "fst ` set (pick_list ?picks) = owners k r es"
    using arg_cong [OF P(1), of set] fin by (simp add: own)
  then show "cid \<notin> owners k r es \<Longrightarrow> Mapping.lookup (learned d') cid = Mapping.lookup (learned d) cid"
    using E by simp
  show "asked d' = asked d" and "suppressed_removals d' = suppressed_removals d" using E by simp_all
  assume "sc \<in> set out"
  then obtain cid p where sc: "sc = updated_change seq closed (cid, p)"
    and l: "Mapping.lookup ?picks cid = Some p"
    unfolding o by (auto simp: P(2))
  from collect_picks_origin [OF l] obtain e where e: "e \<in> set es" "entry_pick k r e = Some (cid, p)" by auto
  then have "pk_raw p = re_data_xdr e \<and> pk_last_modified p = re_last_modified e"
    by (auto simp: entry_pick_def split: option.splits if_splits)
  with sc e show "sc_type sc = updated_type \<and> sc_ledger_seq sc = seq \<and> sc_closed_at sc = closed \<and>
      (\<exists>e\<in>set es. \<exists>p. entry_pick k r e = Some (sc_escrow_id sc, p) \<and> sc_raw_xdr sc = re_data_xdr e \<and>
        sc_last_modified sc = re_last_modified e)"
    by (auto simp: updated_change_def)
qed

lemma build_state_changes_ids:
  "build_state_changes k r es seq closed d = (d', out) \<Longrightarrow> sc_escrow_id ` set out = owners k r es"
  using build_state_changes_eq(1,2) [of k r es seq closed d d' out]
  by (metis image_set set_sort_keys)

section \<open>A whole fetch\<close>

lemma lookup_delete_if:
  "Mapping.lookup (Mapping.delete k m) x = (if x = k then None else Mapping.lookup m x)"
  by simp

lemma forget_learned_among_eq:
  assumes "forget_learned_among ids d had = (d', had')"
  shows "set had' = set had \<union> {x \<in> set ids. Mapping.lookup (learned d) x \<noteq> None} \<and>
    (\<forall>x. Mapping.lookup (learned d') x = (if x \<in> set ids then None else Mapping.lookup (learned d) x)) \<and>
    asked d' = asked d \<and> suppressed_removals d' = suppressed_removals d"
  using assms
proof (induction ids arbitrary: d had)
  case (Cons cid ids)
  show ?case
  proof (cases "Mapping.lookup (learned d) cid")
    case None
    with Cons.prems have "forget_learned_among ids d had = (d', had')" by simp
    from Cons.IH [OF this] None show ?thesis by auto
  next
    case (Some l)
    with Cons.prems
    have "forget_learned_among ids (d\<lparr>learned := Mapping.delete cid (learned d)\<rparr>) (had @ [cid]) = (d', had')" by simp
    from Cons.IH [OF this] Some show ?thesis
      by (auto simp: lookup_delete_if split: if_splits)
  qed
qed simp

text \<open>
  The keys of an escrow's candidate storage shapes, marshalled. A key whose marshalling fails cannot be asked
  for; the code warns and goes on with the others, and so it is not in this set.
\<close>

definition marshalled_candidates :: "sdk \<Rightarrow> string \<Rightarrow> string set" where
  "marshalled_candidates k cid =
     (case escrow_state_ledger_keys k cid of Err _ \<Rightarrow> {} | Ok cands \<Rightarrow> set (List.map_filter (marshal_key k) cands))"

lemma unlearned_asks_candidates:
  "Mapping.lookup (learned d) cid = None \<Longrightarrow> cid \<in> set ids \<Longrightarrow>
     marshalled_candidates k cid \<subseteq> set (concat (query_requests k d ids))"
  unfolding query_requests_concat
  by (auto simp: marshalled_candidates_def id_keys_def split: sum.splits intro!: bexI [of _ cid])

text \<open>
  What a successful fetch has done by the time it judges absences: \<open>R\<close> are the requests it sent and
  \<open>changes\<close> what it understood of their answers.
\<close>

definition fetched :: "sdk \<Rightarrow> rpc \<Rightarrow> registry \<Rightarrow> string list \<Rightarrow> u32 \<Rightarrow> time \<Rightarrow> detector \<Rightarrow> string list
    \<Rightarrow> string list list \<Rightarrow> state_change list \<Rightarrow> bool" where
  "fetched k rpc r ids seq closed d req R changes \<longleftrightarrow>
     length req \<le> length ids \<and> set req \<subseteq> set ids \<and> list_all (\<lambda>c. length c \<le> max_ledger_entry_keys) R \<and>
     sc_escrow_id ` set changes = owners k r (answers rpc (length (asked d)) R) \<and>
     (\<forall>cid\<in>set req. cid \<notin> sc_escrow_id ` set changes \<longrightarrow> marshalled_candidates k cid \<subseteq> set (concat R)) \<and>
     (\<forall>sc\<in>set changes. sc_type sc = updated_type \<and> sc_ledger_seq sc = seq \<and> sc_closed_at sc = closed \<and>
        (\<exists>e\<in>set (answers rpc (length (asked d)) R). \<exists>p. entry_pick k r e = Some (sc_escrow_id sc, p) \<and>
           sc_raw_xdr sc = re_data_xdr e \<and> sc_last_modified sc = re_last_modified e))"

lemma fetch_states_fetched:
  assumes "fetch_states k rpc r ids seq closed since d = (d', Ok out)" and "ids \<noteq> []"
  shows "\<exists>req R changes d5. fetched k rpc r ids seq closed d req R changes \<and>
    finish_states req changes seq closed since d5 = (d', out) \<and>
    asked d5 = asked d @ R \<and> suppressed_removals d5 = suppressed_removals d \<and>
    (\<exists>d1 entries. query_entries k rpc ids d = (d1, Ok (entries, req)))"
proof -
  let ?n = "length (asked d)"
  obtain d1 entries req where q1: "query_entries k rpc ids d = (d1, Ok (entries, req))"
    using assms by (auto simp: fetch_states_def split: prod.splits sum.splits)
  let ?R1 = "query_requests k d ids"
  note Q1 = query_entries_eq(1) [OF q1] query_entries_eq(2) [OF q1 refl]
  obtain d2 ch1 where b1: "build_state_changes k r entries seq closed d1 = (d2, ch1)"
    by (cases "build_state_changes k r entries seq closed d1")
  note B1 = build_state_changes_eq [OF b1] and I1 = build_state_changes_ids [OF b1]
  obtain d3 relearn where f: "forget_learned_among (missing_from req ch1) d2 [] = (d3, relearn)"
    by (cases "forget_learned_among (missing_from req ch1) d2 []")
  note F = forget_learned_among_eq [OF f]
  have ln: "Mapping.lookup (learned d2) x = Mapping.lookup (learned d) x" if "x \<in> set (missing_from req ch1)" for x
    using that B1(6) [of x] Q1(1) I1 by (simp add: missing_from_def)
  have req: "length req \<le> length ids" "set req \<subseteq> set ids"
    using Q1(2) by (auto split: if_splits)
  have r1: "list_all (\<lambda>c. length c \<le> max_ledger_entry_keys) ?R1"
    using query_requests_length by (auto simp: list_all_iff)
  show ?thesis
  proof (cases "relearn = []")
    case True
    have "Mapping.lookup (learned d) x = None" if "x \<in> set req" "x \<notin> sc_escrow_id ` set ch1" for x
      using that F True ln [of x] by (auto simp: missing_from_def)
    then have "\<forall>cid\<in>set req. cid \<notin> sc_escrow_id ` set ch1 \<longrightarrow> marshalled_candidates k cid \<subseteq> set (concat ?R1)"
      using req(2) unlearned_asks_candidates by blast
    then have "fetched k rpc r ids seq closed d req ?R1 ch1"
      unfolding fetched_def using req r1 Q1(2) B1(3) I1 by blast
    moreover have "finish_states req ch1 seq closed since d3 = (d', out)"
      using assms q1 b1 f True by (auto simp: fetch_states_def split: prod.splits)
    moreover have "asked d3 = asked d @ ?R1 \<and> suppressed_removals d3 = suppressed_removals d" using F Q1 B1(4,5) by auto
    ultimately show ?thesis using q1 by blast
  next
    case False
    obtain d4 extra r2 where q2: "query_entries k rpc relearn d3 = (d4, Ok (extra, r2))"
      using assms q1 b1 f False by (auto simp: fetch_states_def split: prod.splits sum.splits)
    let ?R2 = "query_requests k d3 relearn"
    note Q2 = query_entries_eq(1) [OF q2] query_entries_eq(2) [OF q2 refl]
    obtain d5 ch2 where b2: "build_state_changes k r extra seq closed d4 = (d5, ch2)"
      by (cases "build_state_changes k r extra seq closed d4")
    note B2 = build_state_changes_eq [OF b2] and I2 = build_state_changes_ids [OF b2]
    have a3: "asked d3 = asked d @ ?R1" using F B1(4) Q1(2) by simp
    have ans: "answers rpc ?n (?R1 @ ?R2) = entries @ extra"
      using Q1(2) Q2(2) by (simp add: answers_append a3)
    have ids: "sc_escrow_id ` set (ch1 @ ch2) = owners k r (answers rpc ?n (?R1 @ ?R2))"
      unfolding ans owners_append by (simp add: I1 I2 image_Un)
    have "marshalled_candidates k x \<subseteq> set (concat (?R1 @ ?R2))"
      if "x \<in> set req" "x \<notin> sc_escrow_id ` set (ch1 @ ch2)" for x
    proof (cases "Mapping.lookup (learned d) x")
      case None
      then have "marshalled_candidates k x \<subseteq> set (concat ?R1)"
        by (rule unlearned_asks_candidates) (use that(1) req(2) in blast)
      then show ?thesis by auto
    next
      case (Some l)
      have m: "x \<in> set (missing_from req ch1)" using that by (simp add: missing_from_def image_Un)
      then have "x \<in> set relearn" and "Mapping.lookup (learned d3) x = None"
        using F ln [OF m] Some by auto
      then have "marshalled_candidates k x \<subseteq> set (concat ?R2)" by (intro unlearned_asks_candidates)
      then show ?thesis by auto
    qed
    moreover have "list_all (\<lambda>c. length c \<le> max_ledger_entry_keys) (?R1 @ ?R2)"
      using r1 query_requests_length by (auto simp: list_all_iff)
    moreover have "\<forall>sc\<in>set (ch1 @ ch2). sc_type sc = updated_type \<and> sc_ledger_seq sc = seq \<and> sc_closed_at sc = closed \<and>
        (\<exists>e\<in>set (entries @ extra). \<exists>p. entry_pick k r e = Some (sc_escrow_id sc, p) \<and>
           sc_raw_xdr sc = re_data_xdr e \<and> sc_last_modified sc = re_last_modified e)"
      using B1(3) B2(3) unfolding set_append by blast
    ultimately have "fetched k rpc r ids seq closed d req (?R1 @ ?R2) (ch1 @ ch2)"
      unfolding fetched_def using req ids ans by (simp only: ans) blast
    moreover have "finish_states req (ch1 @ ch2) seq closed since d5 = (d', out)"
      using assms q1 b1 f False q2 b2 by (auto simp: fetch_states_def split: prod.splits)
    moreover have "asked d5 = asked d @ (?R1 @ ?R2)" "suppressed_removals d5 = suppressed_removals d"
      using B2(4,5) Q2 a3 F Q1 B1(5) by simp_all
    ultimately show ?thesis using q1 by blast
  qed
qed

section \<open>Removals\<close>

lemma types_differ [simp]: "updated_type \<noteq> removed_type" "removed_type \<noteq> updated_type"
  by (simp_all add: updated_type_def removed_type_def)

lemma filter_unchanged_removed:
  "filter (\<lambda>sc. sc_type sc = removed_type) (filter_unchanged cs since) = filter (\<lambda>sc. sc_type sc = removed_type) cs"
  by (auto simp: filter_unchanged_def intro: filter_cong)

lemma filter_unchanged_subset: "set (filter_unchanged cs since) \<subseteq> set cs"
  by (auto simp: filter_unchanged_def)

lemma finish_states_removed:
  assumes "finish_states req changes seq closed since d = (d', out)"
    and "\<forall>sc\<in>set changes. sc_type sc = updated_type"
  shows "if is_implausible_removal_batch (length req) (length (missing_from req changes))
    then filter (\<lambda>sc. sc_type sc = removed_type) out = [] \<and>
      suppressed_removals d' = suppressed_removals d + length (missing_from req changes) \<and>
      set out \<subseteq> set changes
    else filter (\<lambda>sc. sc_type sc = removed_type) out =
        sort_key sc_escrow_id (map (removed_change seq closed) (missing_from req changes)) \<and>
      suppressed_removals d' = suppressed_removals d \<and>
      set out \<subseteq> set changes \<union> removed_change seq closed ` set (missing_from req changes)"
    and "asked d' = asked d"
proof -
  have f: "filter (\<lambda>sc. sc_type sc = removed_type) changes = []"
    using assms(2) by (auto simp: filter_empty_conv)
  have g: "filter (\<lambda>sc. sc_type sc = removed_type) (map (removed_change seq closed) xs) = map (removed_change seq closed) xs" for xs
    by (auto simp: removed_change_def)
  show "if is_implausible_removal_batch (length req) (length (missing_from req changes))
    then filter (\<lambda>sc. sc_type sc = removed_type) out = [] \<and>
      suppressed_removals d' = suppressed_removals d + length (missing_from req changes) \<and>
      set out \<subseteq> set changes
    else filter (\<lambda>sc. sc_type sc = removed_type) out =
        sort_key sc_escrow_id (map (removed_change seq closed) (missing_from req changes)) \<and>
      suppressed_removals d' = suppressed_removals d \<and>
      set out \<subseteq> set changes \<union> removed_change seq closed ` set (missing_from req changes)"
  proof (cases "is_implausible_removal_batch (length req) (length (missing_from req changes))")
    case True
    with assms(1) have "out = filter_unchanged (sort_by_escrow_id changes) since"
      and "d' = d\<lparr>suppressed_removals := suppressed_removals d + length (missing_from req changes)\<rparr>"
      by (simp_all add: finish_states_def Let_def)
    with True f filter_unchanged_subset [of "sort_by_escrow_id changes" since] show ?thesis
      by (simp add: filter_unchanged_removed sort_by_escrow_id_def filter_sort)
  next
    case False
    with assms(1) have "out = filter_unchanged (append_removed req changes seq closed) since" and "d' = d"
      by (simp_all add: finish_states_def Let_def)
    with False f filter_unchanged_subset [of "append_removed req changes seq closed" since] show ?thesis
      by (auto simp: filter_unchanged_removed append_removed_def sort_by_escrow_id_def filter_sort g missing_from_def)
  qed
  show "asked d' = asked d" using assms(1) by (auto simp: finish_states_def Let_def split: if_splits)
qed

text \<open>
  C23. A removal is never published on thin evidence. When a fetch returns a \<open>removed\<close> change for an
  escrow: the escrow was asked about; every key of its four candidate storage shapes that can be marshalled
  was in some request of this very fetch, also when the detector had a learned shortcut; and no entry of any
  answer belongs to it. The change carries no XDR.
\<close>

theorem removed_only_after_full_query:
  assumes "fetch_states k rpc r ids seq closed since d = (d', Ok out)"
    and "sc \<in> set out" and "sc_type sc = removed_type"
  shows "\<exists>R. asked d' = asked d @ R \<and> sc_escrow_id sc \<in> set ids \<and>
    marshalled_candidates k (sc_escrow_id sc) \<subseteq> set (concat R) \<and>
    sc_escrow_id sc \<notin> owners k r (answers rpc (length (asked d)) R) \<and>
    sc_raw_xdr sc = [] \<and> sc_ledger_seq sc = seq"
proof -
  have ne: "ids \<noteq> []" using assms by (auto simp: fetch_states_def)
  obtain req R changes d5 where F: "fetched k rpc r ids seq closed d req R changes"
    and fin: "finish_states req changes seq closed since d5 = (d', out)" and a: "asked d5 = asked d @ R"
    using fetch_states_fetched [OF assms(1) ne] by blast
  have up: "\<forall>sc\<in>set changes. sc_type sc = updated_type" using F by (simp add: fetched_def)
  have "sc \<in> removed_change seq closed ` set (missing_from req changes)"
    using finish_states_removed(1) [OF fin up] assms(2,3) up by (auto split: if_splits)
  then obtain cid where sc: "sc = removed_change seq closed cid"
    and m: "cid \<in> set req" "cid \<notin> sc_escrow_id ` set changes"
    by (auto simp: missing_from_def)
  show ?thesis
    using F m finish_states_removed(2) [OF fin up] a
    by (intro exI [of _ R]) (auto simp: sc removed_change_def fetched_def)
qed

text \<open>
  C27. The mass-removal guard, exactly. Let the fetch have sent the requests \<open>R\<close>, let \<open>req\<close> be the ids that its
  query could ask for, and \<open>missing\<close> those of them that own no entry of any answer. If ten or more ids were asked
  for and more than half of them are missing, the fetch reports no removal at all and the counter grows by the
  number of the missing; otherwise it reports a removal of each missing id, sorted, and the counter stays.
\<close>

theorem mass_removal_guard:
  assumes "fetch_states k rpc r ids seq closed since d = (d', Ok out)"
    and "query_entries k rpc ids d = (d1, Ok (entries, req))" and "asked d' = asked d @ R"
    and "missing = filter (\<lambda>cid. cid \<notin> owners k r (answers rpc (length (asked d)) R)) req"
  shows "if 10 \<le> length req \<and> length req < 2 * length missing
    then (\<forall>sc\<in>set out. sc_type sc \<noteq> removed_type) \<and> suppressed_removals d' = suppressed_removals d + length missing
    else filter (\<lambda>sc. sc_type sc = removed_type) out = sort_key sc_escrow_id (map (removed_change seq closed) missing) \<and>
      suppressed_removals d' = suppressed_removals d"
proof (cases "ids = []")
  case True
  with assms show ?thesis by (auto simp: fetch_states_def query_entries_def)
next
  case False
  obtain req' R' changes d5 where F: "fetched k rpc r ids seq closed d req' R' changes"
    and fin: "finish_states req' changes seq closed since d5 = (d', out)" and a: "asked d5 = asked d @ R'"
    and s: "suppressed_removals d5 = suppressed_removals d" and q: "\<exists>d1 entries. query_entries k rpc ids d = (d1, Ok (entries, req'))"
    using fetch_states_fetched [OF assms(1) False] by blast
  have up: "\<forall>sc\<in>set changes. sc_type sc = updated_type" and own: "sc_escrow_id ` set changes = owners k r (answers rpc (length (asked d)) R')"
    using F by (simp_all add: fetched_def)
  note S = finish_states_removed [OF fin up]
  have e: "req' = req" "R' = R" using q assms(2,3) a S(2) by auto
  then have m: "missing_from req changes = missing" by (simp add: missing_from_def own assms(4))
  show ?thesis
    using S(1) [unfolded e m] s
    by (auto simp: is_implausible_removal_batch_def removal_guard_min_batch_def filter_empty_conv split: if_splits)
qed

section \<open>Requests\<close>

text \<open>
  No request exceeds the server's cap of 200 keys, however many escrows a fetch covers and whether
  or not it succeeds.
\<close>

theorem requests_within_cap:
  assumes "fetch_states k rpc r ids seq closed since d = (d', res)"
  shows "\<exists>R. asked d' = asked d @ R \<and> list_all (\<lambda>c. length c \<le> 200) R"
proof (cases "ids = []")
  case True
  with assms show ?thesis by (simp add: fetch_states_def)
next
  case False
  have cap: "list_all (\<lambda>c. length c \<le> 200) (take m (query_requests k e xs))" for e xs m
    using query_requests_length [of _ k e xs] by (auto simp: list_all_iff max_ledger_entry_keys_def dest: in_set_takeD)
  show ?thesis
  proof (cases res)
    case (Inr out)
    with fetch_states_fetched [of k rpc r ids seq closed since d d' out] assms False
    obtain req R changes d5 where F: "fetched k rpc r ids seq closed d req R changes"
      and fin: "finish_states req changes seq closed since d5 = (d', out)" and a: "asked d5 = asked d @ R"
      by blast
    have "asked d' = asked d5" using fin by (auto simp: finish_states_def Let_def split: if_splits)
    with F a show ?thesis by (auto simp: fetched_def max_ledger_entry_keys_def)
  next
    case (Inl e)
    obtain d1 res1 where q1: "query_entries k rpc ids d = (d1, res1)" by (cases "query_entries k rpc ids d")
    obtain m where a1: "asked d1 = asked d @ take m (query_requests k d ids)"
      using query_entries_eq(1) [OF q1] by blast
    show ?thesis
    proof (cases res1)
      case (Inl e1)
      with assms False q1 have "d' = d1" by (simp add: fetch_states_def)
      with a1 cap show ?thesis by blast
    next
      case (Inr er)
      obtain entries req where er: "er = (entries, req)" by (cases er)
      obtain d2 ch where b: "build_state_changes k r entries seq closed d1 = (d2, ch)"
        by (cases "build_state_changes k r entries seq closed d1")
      obtain d3 re where f: "forget_learned_among (missing_from req ch) d2 [] = (d3, re)"
        by (cases "forget_learned_among (missing_from req ch) d2 []")
      obtain d4 res4 where q2: "query_entries k rpc re d3 = (d4, res4)" by (cases "query_entries k rpc re d3")
      have "d' = d4"
        using assms False q1 Inr er b f q2 \<open>res = Inl e\<close> by (auto simp: fetch_states_def split: if_splits sum.splits prod.splits)
      moreover obtain m2 where "asked d4 = asked d3 @ take m2 (query_requests k d3 re)"
        using query_entries_eq(1) [OF q2] by blast
      moreover have "asked d3 = asked d1"
        using forget_learned_among_eq [OF f] build_state_changes_eq(4) [OF b] by simp
      ultimately have "asked d' = asked d @ (take m (query_requests k d ids) @ take m2 (query_requests k d3 re))"
        using a1 by simp
      then show ?thesis using cap by (metis list_all_append)
    qed
  qed
qed


section \<open>A concrete fetch\<close>

text \<open>
  One escrow with a learned key, and an endpoint that knows nothing: the learned key is asked first, it
  is forgotten, the four candidates are asked, and the escrow is reported as removed.
\<close>

definition gone_id :: string where
  "gone_id = CHR ''C'' # hex_encode sample_hash"

definition gone_detector :: detector where
  "gone_detector = new_detector\<lparr>learned := Mapping.update gone_id ''old key'' Mapping.empty\<rparr>"

definition no_entries :: rpc where "no_entries n keys = Ok []"

lemma gone_candidates:
  "escrow_state_ledger_keys sample_sdk gone_id = Ok
     (let mk = (\<lambda>key dur. \<lparr>lk_contract = ScAddressContract sample_hash, lk_key = key, lk_durability = dur\<rparr>);
          sym = ScvSymbol escrow_state_key; vec = ScvVec [sym]
      in [mk vec Persistent, mk sym Persistent, mk vec Temporary, mk ScvLedgerKeyContractInstance Persistent])"
  by (simp add: escrow_state_ledger_keys_def gone_id_def sample_sdk_def Let_def) (simp add: sample_hash_def)

lemma gone_marshal:
  "marshal_key sample_sdk \<lparr>lk_contract = ScAddressContract sample_hash, lk_key = key, lk_durability = dur\<rparr> =
      (case dur of Persistent \<Rightarrow> (case key of ScvVec _ \<Rightarrow> Some (''vp'' @ gone_id)
            | ScvSymbol _ \<Rightarrow> Some (''sp'' @ gone_id) | _ \<Rightarrow> Some (''ip'' @ gone_id))
      | Temporary \<Rightarrow> Some (''vt'' @ gone_id))"
  by (simp add: sample_sdk_def sample_addr_def gone_id_def split: durability.splits sc_val.splits)

lemma gone_run:
  "fetch_states sample_sdk no_entries sample_registry [gone_id] 9 0 0 gone_detector =
    (new_detector\<lparr>learned := Mapping.empty, asked := [[''old key''],
        [''vp'' @ gone_id, ''sp'' @ gone_id, ''vt'' @ gone_id, ''ip'' @ gone_id]]\<rparr>,
     Ok [removed_change 9 0 gone_id])"
proof -
  have l: "Mapping.delete gone_id (Mapping.update gone_id v Mapping.empty) = Mapping.empty" for v :: string
    by transfer auto
  show ?thesis
    by (simp add: fetch_states_def query_entries_def gone_candidates gone_marshal gone_detector_def new_detector_def no_entries_def
        chunk_strings_def max_ledger_entry_keys_def build_state_changes_def pick_list_def map_filter_simps
        missing_from_def finish_states_def is_implausible_removal_batch_def removal_guard_min_batch_def
        append_removed_def sort_by_escrow_id_def filter_unchanged_def l Let_def lookup_update lookup_empty)
qed

lemma removed_only_after_full_query_witness:
  "\<exists>R. asked (fst (fetch_states sample_sdk no_entries sample_registry [gone_id] 9 0 0 gone_detector)) = asked gone_detector @ R \<and>
     marshalled_candidates sample_sdk gone_id \<subseteq> set (concat R)"
  using removed_only_after_full_query [OF gone_run, of "removed_change 9 0 gone_id"] gone_run
  by (auto simp: removed_change_def)

text \<open>Ten escrows, all without an entry: no removal is reported, and ten are counted as suppressed.\<close>

definition gone_keys :: "string list" where
  "gone_keys = [''vp'' @ gone_id, ''sp'' @ gone_id, ''vt'' @ gone_id, ''ip'' @ gone_id]"

lemma gone_query:
  "query_entries sample_sdk no_entries (replicate 10 gone_id) new_detector =
     (new_detector\<lparr>asked := [concat (replicate 10 gone_keys)]\<rparr>, Ok ([], replicate 10 gone_id))"
  by (simp add: query_entries_def gone_candidates gone_marshal Let_def new_detector_def no_entries_def chunk_strings_def
      max_ledger_entry_keys_def gone_keys_def numeral_eq_Suc lookup_empty)

lemma gone_batch:
  "fetch_states sample_sdk no_entries sample_registry (replicate 10 gone_id) 9 0 0 new_detector =
     (new_detector\<lparr>asked := [concat (replicate 10 gone_keys)], suppressed_removals := 10\<rparr>, Ok [])"
proof -
  have "build_state_changes sample_sdk sample_registry [] 9 0 d = (d, [])" for d
    by (simp add: build_state_changes_def pick_list_def map_filter_simps)
  moreover have "forget_learned_among (replicate n gone_id) (new_detector\<lparr>asked := a\<rparr>) [] = (new_detector\<lparr>asked := a\<rparr>, [])" for n a
    by (induction n) (simp_all add: new_detector_def lookup_empty)
  moreover have "filter (\<lambda>cid. True) (replicate 10 gone_id) = replicate 10 gone_id" by simp
  moreover have "suppressed_removals new_detector = 0" by (simp add: new_detector_def)
  ultimately show ?thesis
    by (simp add: fetch_states_def gone_query missing_from_def finish_states_def is_implausible_removal_batch_def
        removal_guard_min_batch_def sort_by_escrow_id_def filter_unchanged_def Let_def)
qed

lemma mass_removal_guard_witness:
  "let (d', res) = fetch_states sample_sdk no_entries sample_registry (replicate 10 gone_id) 9 0 0 new_detector
   in res = Ok [] \<and> suppressed_removals d' = suppressed_removals new_detector + 10"
proof -
  have o: "owners sample_sdk sample_registry (answers no_entries 0 [concat (replicate 10 gone_keys)]) = {}"
    by (simp add: answers_def no_entries_def owners_def)
  have "length (filter (\<lambda>cid. cid \<notin> owners sample_sdk sample_registry
      (answers no_entries (length (asked new_detector)) [concat (replicate 10 gone_keys)])) (replicate 10 gone_id)) = 10"
    using o by (simp add: new_detector_def)
  with mass_removal_guard [OF gone_batch gone_query _ refl, of "[concat (replicate 10 gone_keys)]"] gone_batch
  show ?thesis by (simp add: new_detector_def)
qed

lemma requests_within_cap_witness:
  "\<exists>R. asked (fst (fetch_states sample_sdk no_entries sample_registry [gone_id] 9 0 0 gone_detector)) = asked gone_detector @ R \<and>
     list_all (\<lambda>c. length c \<le> 200) R"
  using requests_within_cap [OF gone_run] gone_run by simp

end
