(* ===== verification/Sweeper.thy ===== *)
theory Sweeper
  imports StateDetector
begin

text \<open>
  \<open>internal/indexer/processors/escrow_sweep.go\<close>: the rotation over the watchlist. The sweeper holds a
  pointer to the registry, which other steps of the loop change between calls; here the registry is an
  argument of each call. \<open>keyCost\<close> is the detector's \<open>KeyCost\<close>, which is never negative.
\<close>

section \<open>Operations\<close>

record sweeper =
  pos :: nat
  pass_start :: u32
  prev_pass_start :: u32

definition new_sweeper :: sweeper where
  "new_sweeper = \<lparr>pos = 0, pass_start = 0, prev_pass_start = 0\<rparr>"

function batch_loop :: "string list \<Rightarrow> (string \<Rightarrow> nat) \<Rightarrow> nat \<Rightarrow> nat \<Rightarrow> nat \<Rightarrow> string list \<Rightarrow> string list \<times> nat" where
  "batch_loop ids cost budget p spent batch =
     (if p < length ids then
        (if batch \<noteq> [] \<and> budget < spent + cost (ids ! p) then (batch, p)
         else batch_loop ids cost budget (p + 1) (spent + cost (ids ! p)) (batch @ [ids ! p]))
      else (batch, p))"
  by pat_completeness auto
termination
  by (relation "measure (\<lambda>(ids, cost, budget, p, spent, batch). length ids - p)") auto

declare batch_loop.simps [simp del]

definition rewind :: "nat \<Rightarrow> sweeper \<Rightarrow> sweeper" where
  "rewind n s = (if n \<le> pos s then s\<lparr>pos := 0\<rparr> else s)"

definition start_pass :: "u32 \<Rightarrow> sweeper \<Rightarrow> sweeper" where
  "start_pass ledger s =
     (if pos s = 0 then s\<lparr>prev_pass_start := pass_start s, pass_start := ledger\<rparr> else s)"

definition next_batch :: "registry \<Rightarrow> u32 \<Rightarrow> (string \<Rightarrow> nat) \<Rightarrow> nat \<Rightarrow> sweeper \<Rightarrow> sweeper \<times> string list \<times> bool" where
  "next_batch r ledger cost budget s =
     (let ids = snapshot r in
      if ids = [] then (s, [], False)
      else
        let s1 = start_pass ledger (rewind (length ids) s);
            (batch, p) = batch_loop ids cost budget (pos s1) 0 [];
            completed = (length ids \<le> p)
        in (s1\<lparr>pos := (if completed then 0 else p)\<rparr>, batch, completed))"

definition modified_since :: "sweeper \<Rightarrow> u32" where
  "modified_since s = prev_pass_start s"

definition reset_sweep :: "sweeper \<Rightarrow> sweeper" where
  "reset_sweep s = s\<lparr>pos := 0, pass_start := 0, prev_pass_start := 0\<rparr>"

section \<open>One batch\<close>

lemma batch_loop_slice:
  assumes "batch_loop ids cost budget p spent batch = (out, q)" and "p \<le> length ids"
  shows "p \<le> q \<and> q \<le> length ids \<and> out = batch @ take (q - p) (drop p ids) \<and>
    (batch = [] \<longrightarrow> p < length ids \<longrightarrow> p < q) \<and>
    (q < length ids \<longrightarrow> budget < spent + sum_list (map cost (take (q - p) (drop p ids))) + cost (ids ! q))"
  using assms
proof (induction ids cost budget p spent batch rule: batch_loop.induct)
  case (1 ids cost budget p spent batch)
  show ?case
  proof (cases "p < length ids \<and> \<not> (batch \<noteq> [] \<and> budget < spent + cost (ids ! p))")
    case True
    then have "batch_loop ids cost budget (p + 1) (spent + cost (ids ! p)) (batch @ [ids ! p]) = (out, q)"
      using "1.prems"(1) by (subst (asm) batch_loop.simps) (auto split: if_splits)
    note IH = "1.IH" [OF conjunct1 [OF True] conjunct2 [OF True] this]
    have d: "drop p ids = ids ! p # drop (Suc p) ids" using True by (simp add: Cons_nth_drop_Suc)
    from IH True show ?thesis
      by (auto simp: d take_Cons' Suc_diff_Suc add.assoc simp flip: diff_Suc_eq_diff_pred)
  next
    case False
    with "1.prems" show ?thesis by (subst (asm) batch_loop.simps) (auto split: if_splits)
  qed
qed

lemma batch_loop_budget:
  assumes "batch_loop ids cost budget p spent batch = (out, q)"
    and "spent = sum_list (map cost batch)" and "spent \<le> budget \<or> length batch = 1"
  shows "sum_list (map cost out) \<le> budget \<or> length out \<le> 1"
  using assms
proof (induction ids cost budget p spent batch rule: batch_loop.induct)
  case (1 ids cost budget p spent batch)
  show ?case
  proof (cases "p < length ids \<and> \<not> (batch \<noteq> [] \<and> budget < spent + cost (ids ! p))")
    case True
    then have "batch_loop ids cost budget (p + 1) (spent + cost (ids ! p)) (batch @ [ids ! p]) = (out, q)"
      using "1.prems"(1) by (subst (asm) batch_loop.simps) (auto split: if_splits)
    then show ?thesis
      by (rule "1.IH" [OF conjunct1 [OF True] conjunct2 [OF True]]) (use True "1.prems" in auto)
  next
    case False
    with "1.prems" show ?thesis by (subst (asm) batch_loop.simps) (auto split: if_splits)
  qed
qed

definition start_pos :: "registry \<Rightarrow> sweeper \<Rightarrow> nat" where
  "start_pos r s = (if length (snapshot r) \<le> pos s then 0 else pos s)"

lemma next_batch_eq:
  assumes "next_batch r ledger cost budget s = (s', batch, completed)" and "snapshot r \<noteq> []"
  shows "\<exists>q. batch_loop (snapshot r) cost budget (start_pos r s) 0 [] = (batch, q) \<and>
     completed = (length (snapshot r) \<le> q) \<and> pos s' = (if completed then 0 else q) \<and>
     pass_start s' = (if start_pos r s = 0 then ledger else pass_start s) \<and>
     prev_pass_start s' = (if start_pos r s = 0 then pass_start s else prev_pass_start s)"
  using assms
  by (auto simp: next_batch_def Let_def rewind_def start_pass_def start_pos_def split: prod.splits if_splits)

lemma next_batch_slice:
  assumes "next_batch r ledger cost budget s = (s', batch, completed)" and "snapshot r \<noteq> []"
  shows "\<exists>q. start_pos r s < q \<and> q \<le> length (snapshot r) \<and>
     batch = take (q - start_pos r s) (drop (start_pos r s) (snapshot r)) \<and>
     completed = (q = length (snapshot r)) \<and> pos s' = (if completed then 0 else q) \<and>
     (\<not> completed \<longrightarrow> budget < sum_list (map cost batch) + cost (snapshot r ! q))"
proof -
  obtain q where q: "batch_loop (snapshot r) cost budget (start_pos r s) 0 [] = (batch, q)"
    and c: "completed = (length (snapshot r) \<le> q)" and p: "pos s' = (if completed then 0 else q)"
    using next_batch_eq [OF assms] by blast
  have l: "start_pos r s < length (snapshot r)" using assms(2) by (simp add: start_pos_def)
  show ?thesis
    using batch_loop_slice [OF q] c p l by (intro exI [of _ q]) auto
qed


text \<open>
  One batch. On a non-empty watchlist \<open>NextBatch\<close> returns a non-empty contiguous slice of the sorted
  snapshot that begins where the rotation stands; the slice fits the key budget unless it is a single
  escrow; it is maximal, so the next escrow would not have fitted; and it is reported as completing the
  pass exactly when it ends at the last escrow.
\<close>

theorem next_batch_correct:
  assumes "next_batch r ledger cost budget s = (s', batch, completed)" and "snapshot r \<noteq> []"
  shows "\<exists>q. start_pos r s < q \<and> q \<le> length (snapshot r) \<and>
     batch = take (q - start_pos r s) (drop (start_pos r s) (snapshot r)) \<and>
     (sum_list (map cost batch) \<le> budget \<or> length batch = 1) \<and>
     (q < length (snapshot r) \<longrightarrow> budget < sum_list (map cost batch) + cost (snapshot r ! q)) \<and>
     completed = (q = length (snapshot r)) \<and> pos s' = (if completed then 0 else q)"
proof -
  obtain q where "start_pos r s < q" "q \<le> length (snapshot r)"
    "batch = take (q - start_pos r s) (drop (start_pos r s) (snapshot r))"
    "completed = (q = length (snapshot r))" "pos s' = (if completed then 0 else q)"
    "\<not> completed \<longrightarrow> budget < sum_list (map cost batch) + cost (snapshot r ! q)"
    using next_batch_slice [OF assms] by blast
  moreover obtain q' where "batch_loop (snapshot r) cost budget (start_pos r s) 0 [] = (batch, q')"
    using next_batch_eq [OF assms] by blast
  then have "sum_list (map cost batch) \<le> budget \<or> length batch \<le> 1"
    by (rule batch_loop_budget) simp_all
  moreover have "0 < length batch" using calculation by simp
  ultimately show ?thesis by (intro exI [of _ q]) auto
qed

lemma next_batch_correct_witness:
  "let r = sample_registry\<lparr>escrows := {''CA'', ''CB'', ''CC''}\<rparr> in
    \<exists>q. start_pos r new_sweeper < q \<and> q \<le> 3 \<and>
     fst (snd (next_batch r 7 (\<lambda>_. 4) 9 new_sweeper)) = take q [''CA'', ''CB'', ''CC''] \<and>
     \<not> snd (snd (next_batch r 7 (\<lambda>_. 4) 9 new_sweeper))"
proof -
  let ?r = "sample_registry\<lparr>escrows := {''CA'', ''CB'', ''CC''}\<rparr>"
  have s: "snapshot ?r = [''CA'', ''CB'', ''CC'']" by (simp add: snapshot_def sort_keys_def)
  have n: "next_batch ?r 7 (\<lambda>_. 4) 9 new_sweeper = (new_sweeper\<lparr>pos := 2, pass_start := 7\<rparr>, [''CA'', ''CB''], False)"
    by (simp add: next_batch_def s new_sweeper_def Let_def rewind_def start_pass_def batch_loop.simps)
  have z: "start_pos ?r new_sweeper = 0" by (simp add: start_pos_def new_sweeper_def)
  obtain q where "start_pos ?r new_sweeper < q" "q \<le> length (snapshot ?r)"
    "[''CA'', ''CB''] = take (q - start_pos ?r new_sweeper) (drop (start_pos ?r new_sweeper) (snapshot ?r))"
    using next_batch_correct [OF n] s by auto
  then show ?thesis unfolding Let_def n by (intro exI [of _ q]) (simp add: s z)
qed

section \<open>Ranks in the snapshot\<close>

lemma in_take_sort_keys:
  assumes "finite A"
  shows "x \<in> set (take p (sort_keys A)) \<longleftrightarrow> x \<in> A \<and> card {y \<in> A. y < x} < p"
proof -
  have rank: "card {y \<in> A. y < sort_keys A ! i} = i" if i: "i < length (sort_keys A)" for i
  proof -
    have sd: "sorted_wrt (<) (sort_keys A)" using assms by (simp add: strict_sorted_iff)
    have "{y \<in> A. y < sort_keys A ! i} = set (take i (sort_keys A))"
    proof
      show "set (take i (sort_keys A)) \<subseteq> {y \<in> A. y < sort_keys A ! i}"
        using sd i assms by (auto simp: in_set_conv_nth sorted_wrt_iff_nth_less dest: in_set_takeD)
      show "{y \<in> A. y < sort_keys A ! i} \<subseteq> set (take i (sort_keys A))"
      proof
        fix y assume "y \<in> {y \<in> A. y < sort_keys A ! i}"
        then obtain j where j: "j < length (sort_keys A)" "y = sort_keys A ! j" "sort_keys A ! j < sort_keys A ! i"
          using assms by (metis (no_types, lifting) in_set_conv_nth mem_Collect_eq set_sort_keys)
        then have "j < i" using sd i by (metis linorder_neqE_nat order_less_asym sorted_wrt_nth_less)
        then show "y \<in> set (take i (sort_keys A))" using j i by (auto simp: in_set_conv_nth)
      qed
    qed
    then show ?thesis using i by (simp add: distinct_card)
  qed
  show ?thesis
  proof
    assume "x \<in> set (take p (sort_keys A))"
    then obtain i where "i < p" "i < length (sort_keys A)" "x = sort_keys A ! i"
      by (auto simp: in_set_conv_nth)
    then show "x \<in> A \<and> card {y \<in> A. y < x} < p"
      using rank [of i] assms by (metis nth_mem set_sort_keys)
  next
    assume x: "x \<in> A \<and> card {y \<in> A. y < x} < p"
    then obtain i where "i < length (sort_keys A)" "x = sort_keys A ! i"
      using assms by (metis in_set_conv_nth set_sort_keys)
    then show "x \<in> set (take p (sort_keys A))" using rank [of i] x by (auto simp: in_set_conv_nth)
  qed
qed

text \<open>Growth of the watchlist moves an escrow away from the front of the snapshot, never towards it.\<close>

lemma take_sort_keys_mono:
  assumes "finite B" and "A \<subseteq> B" and "x \<in> A" and "x \<in> set (take p (sort_keys B))"
  shows "x \<in> set (take p (sort_keys A))"
proof -
  have "card {y \<in> A. y < x} \<le> card {y \<in> B. y < x}" using assms by (intro card_mono) auto
  then show ?thesis using assms finite_subset [OF assms(2,1)] by (simp add: in_take_sort_keys)
qed


section \<open>Sequences of batches\<close>

text \<open>
  The sweep over many ledgers: one call per processed ledger at the tip, each with the watchlist of that
  moment, the ledger, and the key costs of that moment. A visit records the ledger, the filter anchor
  \<open>ModifiedSince\<close> that the loop reads after \<open>NextBatch\<close>, the batch, and whether it completes a pass.
\<close>

type_synonym sweep_call = "registry \<times> u32 \<times> (string \<Rightarrow> nat)"

record visit =
  v_ledger :: u32
  v_since :: u32
  v_batch :: "string list"
  v_done :: bool

fun sweep_run :: "nat \<Rightarrow> sweep_call list \<Rightarrow> sweeper \<Rightarrow> sweeper \<times> visit list" where
  "sweep_run budget [] s = (s, [])"
| "sweep_run budget ((r, ledger, cost) # cs) s =
     (case next_batch r ledger cost budget s of
        (s', batch, completed) \<Rightarrow>
          (case sweep_run budget cs s' of
             (s'', vs) \<Rightarrow> (s'', \<lparr>v_ledger = ledger, v_since = modified_since s', v_batch = batch, v_done = completed\<rparr> # vs)))"

abbreviation visits :: "nat \<Rightarrow> sweep_call list \<Rightarrow> sweeper \<Rightarrow> visit list" where
  "visits budget cs s \<equiv> snd (sweep_run budget cs s)"

abbreviation visited :: "visit list \<Rightarrow> string list" where
  "visited vs \<equiv> concat (map v_batch vs)"

lemma visits_Cons:
  "next_batch r ledger cost budget s = (s', batch, completed) \<Longrightarrow>
   visits budget ((r, ledger, cost) # cs) s =
     \<lparr>v_ledger = ledger, v_since = modified_since s', v_batch = batch, v_done = completed\<rparr> # visits budget cs s'"
  by (simp split: prod.splits)

declare sweep_run.simps(2) [simp del]

text \<open>The batch of a visit against the costs of its call: within the budget, or a single escrow.\<close>

definition within :: "nat \<Rightarrow> sweep_call \<Rightarrow> visit \<Rightarrow> bool" where
  "within budget c v \<longleftrightarrow>
     sum_list (map (snd (snd c)) (v_batch v)) \<le> budget \<or> length (v_batch v) = 1"

lemma visits_within:
  assumes "\<forall>c\<in>set cs. snapshot (fst c) \<noteq> []"
  shows "list_all2 (within budget) cs (visits budget cs s)"
  using assms
proof (induction cs arbitrary: s)
  case Nil
  then show ?case by simp
next
  case (Cons c cs)
  obtain r ledger cost where c: "c = (r, ledger, cost)" by (cases c) auto
  obtain s' batch completed where n: "next_batch r ledger cost budget s = (s', batch, completed)"
    by (cases "next_batch r ledger cost budget s")
  have "snapshot r \<noteq> []" using Cons.prems by (simp add: c)
  from next_batch_correct [OF n this] Cons show ?case
    by (auto simp: c visits_Cons [OF n] within_def)
qed

lemma pass_covers_from:
  assumes "\<forall>c\<in>set cs. fst c = r" and "pos s < length (snapshot r)" and "length (snapshot r) - pos s \<le> length cs"
  shows "\<exists>k. k < length (snapshot r) - pos s \<and> visited (take (Suc k) (visits budget cs s)) = drop (pos s) (snapshot r) \<and>
    map v_done (take (Suc k) (visits budget cs s)) = replicate k False @ [True]"
  using assms
proof (induction cs arbitrary: s)
  case Nil
  then show ?case by simp
next
  case (Cons c cs)
  obtain ledger cost where c: "c = (r, ledger, cost)" using Cons.prems(1) by (cases c) auto
  obtain s' batch completed where n: "next_batch r ledger cost budget s = (s', batch, completed)"
    by (cases "next_batch r ledger cost budget s")
  have ne: "snapshot r \<noteq> []" using Cons.prems(2) by auto
  have sp: "start_pos r s = pos s" using Cons.prems(2) by (simp add: start_pos_def)
  obtain q where q: "pos s < q" "q \<le> length (snapshot r)" "batch = take (q - pos s) (drop (pos s) (snapshot r))"
    "completed = (q = length (snapshot r))" "pos s' = (if completed then 0 else q)"
    using next_batch_slice [OF n ne] by (auto simp: sp)
  show ?case
  proof (cases completed)
    case True
    with q show ?thesis by (intro exI [of _ 0]) (simp add: c visits_Cons [OF n])
  next
    case False
    with q have p: "pos s' = q" "q < length (snapshot r)" by auto
    have "\<exists>k<length (snapshot r) - pos s'. visited (take (Suc k) (visits budget cs s')) = drop (pos s') (snapshot r) \<and>
        map v_done (take (Suc k) (visits budget cs s')) = replicate k False @ [True]"
      by (rule Cons.IH) (use Cons.prems q(1) p in auto)
    then obtain k where k: "k < length (snapshot r) - q" "visited (take (Suc k) (visits budget cs s')) = drop q (snapshot r)"
      "map v_done (take (Suc k) (visits budget cs s')) = replicate k False @ [True]"
      by (auto simp: p(1))
    have "batch @ drop q (snapshot r) = drop (pos s) (snapshot r)"
      using append_take_drop_id [of "q - pos s" "drop (pos s) (snapshot r)"] q(1,3) by simp
    with k q(1) p False show ?thesis
      by (intro exI [of _ "Suc k"]) (simp add: c visits_Cons [OF n])
  qed
qed

text \<open>
  C22. A pass is complete, exact and paid for. Over a watchlist that does not change, whatever the costs
  are at each call and however small the budget, at most as many calls as there are escrows make one
  pass: the batches up to the first one that reports completion, put together, are the sorted
  watchlist, each escrow once; and at every call the escrows of the batch cost, at the prices of that
  call, no more than the budget, unless the batch is a single escrow.
\<close>

theorem pass_covers_watchlist:
  assumes "\<forall>c\<in>set cs. fst c = r" and "pos s = 0" and "snapshot r \<noteq> []" and "length (snapshot r) \<le> length cs"
  shows "\<exists>k < length (snapshot r). visited (take (Suc k) (visits budget cs s)) = snapshot r \<and>
    map v_done (take (Suc k) (visits budget cs s)) = replicate k False @ [True] \<and>
    list_all2 (\<lambda>(_, _, cost) v. sum_list (map cost (v_batch v)) \<le> budget \<or> length (v_batch v) = 1)
      (take (Suc k) cs) (take (Suc k) (visits budget cs s))"
proof -
  have "list_all2 (within budget) cs (visits budget cs s)" by (rule visits_within) (use assms in auto)
  then have "list_all2 (\<lambda>(_, _, cost) v. sum_list (map cost (v_batch v)) \<le> budget \<or> length (v_batch v) = 1)
      cs (visits budget cs s)"
    by (rule list_all2_mono) (auto simp: within_def)
  then show ?thesis using pass_covers_from [of cs r s budget] assms by (auto intro!: list_all2_takeI)
qed

lemma three_ids:
  "snapshot (sample_registry\<lparr>escrows := {''CA'', ''CB'', ''CC''}\<rparr>) = [''CA'', ''CB'', ''CC'']"
  by (simp add: snapshot_def sort_keys_def)

lemma pass_covers_watchlist_witness:
  "\<exists>k < 3. visited (take (Suc k) (visits 8 (replicate 3 (sample_registry\<lparr>escrows := {''CA'', ''CB'', ''CC''}\<rparr>, 5, \<lambda>_. 4)) new_sweeper))
     = [''CA'', ''CB'', ''CC'']"
  using pass_covers_watchlist [of "replicate 3 (sample_registry\<lparr>escrows := {''CA'', ''CB'', ''CC''}\<rparr>, 5, \<lambda>_. 4)"
      "sample_registry\<lparr>escrows := {''CA'', ''CB'', ''CC''}\<rparr>" new_sweeper 8]
  by (simp add: three_ids new_sweeper_def numeral_3_eq_3) blast


section \<open>A growing watchlist\<close>

definition growing :: "sweep_call list \<Rightarrow> bool" where
  "growing cs \<longleftrightarrow> sorted_wrt (\<lambda>c d. escrows (fst c) \<subseteq> escrows (fst d)) cs \<and> (\<forall>c\<in>set cs. finite (escrows (fst c)))"

lemma growing_Cons: "growing (c # cs) \<Longrightarrow> growing cs \<and> finite (escrows (fst c)) \<and>
    (\<forall>d\<in>set cs. escrows (fst c) \<subseteq> escrows (fst d) \<and> finite (escrows (fst d)))"
  by (auto simp: growing_def)

lemma set_snapshot: "finite (escrows r) \<Longrightarrow> set (snapshot r) = escrows r"
  by (simp add: snapshot_def)

lemma next_batch_visits:
  assumes "next_batch r ledger cost budget s = (s', batch, completed)" and "finite (escrows r)" and "x \<in> escrows r"
    and "x \<notin> set (take (start_pos r s) (snapshot r))"
  shows "x \<in> set batch \<or> (\<not> completed \<and> pos s' \<noteq> 0 \<and> x \<notin> set (take (pos s') (snapshot r)))"
proof -
  have x: "x \<in> set (snapshot r)" using assms(2,3) by (simp add: set_snapshot)
  obtain q where q: "start_pos r s < q" "q \<le> length (snapshot r)"
    "batch = take (q - start_pos r s) (drop (start_pos r s) (snapshot r))"
    "completed = (q = length (snapshot r))" "pos s' = (if completed then 0 else q)"
    using next_batch_slice [OF assms(1)] x by (metis empty_iff list.set(1))
  have "take q (snapshot r) = take (start_pos r s) (snapshot r) @ batch"
    using q(1,3) by (metis add_diff_inverse_nat less_not_sym take_add)
  then have "x \<in> set batch \<or> x \<notin> set (take q (snapshot r))" using assms(4) by (metis Un_iff set_append)
  then show ?thesis using q x by auto
qed

lemma growing_pass_covers:
  assumes "growing cs" and "\<forall>c\<in>set cs. x \<in> escrows (fst c)" and "\<exists>v\<in>set (visits budget cs s). v_done v"
    and "cs \<noteq> [] \<longrightarrow> x \<notin> set (take (start_pos (fst (hd cs)) s) (snapshot (fst (hd cs))))"
  shows "x \<in> set (visited (visits budget cs s))"
  using assms
proof (induction cs arbitrary: s)
  case Nil
  then show ?case by simp
next
  case (Cons c cs)
  obtain r ledger cost where c: "c = (r, ledger, cost)" by (cases c) auto
  obtain s' batch completed where n: "next_batch r ledger cost budget s = (s', batch, completed)"
    by (cases "next_batch r ledger cost budget s")
  note G = growing_Cons [OF Cons.prems(1)]
  from next_batch_visits [OF n, of x] Cons.prems(2,4) G consider "x \<in> set batch"
    | "\<not> completed" "x \<notin> set (take (pos s') (snapshot r))" by (auto simp: c)
  then show ?case
  proof cases
    case 1
    then show ?thesis by (simp add: c visits_Cons [OF n])
  next
    case 2
    have "x \<notin> set (take (start_pos (fst (hd cs)) s') (snapshot (fst (hd cs))))" if "cs \<noteq> []"
    proof -
      have d: "hd cs \<in> set cs" using that by simp
      have "x \<notin> set (take (pos s') (snapshot (fst (hd cs))))"
        using 2(2) take_sort_keys_mono [of "escrows (fst (hd cs))" "escrows r" x "pos s'"] G d Cons.prems(2)
        by (auto simp: snapshot_def c)
      then show ?thesis by (simp add: start_pos_def)
    qed
    moreover have "\<exists>v\<in>set (visits budget cs s'). v_done v"
      using Cons.prems(3) 2(1) by (simp add: c visits_Cons [OF n])
    ultimately have "x \<in> set (visited (visits budget cs s'))"
      using G Cons.prems(2) by (intro Cons.IH) auto
    then show ?thesis by (simp add: c visits_Cons [OF n])
  qed
qed

text \<open>
  Discovery during a pass costs nothing. While the watchlist only grows, every escrow that was on it
  when a pass began has been visited by the time a pass completes, wherever the new ids sort.
\<close>

theorem growing_pass_misses_nothing:
  assumes "growing ((r, ledger, cost) # cs)" and "pos s = 0" and "x \<in> escrows r"
    and "\<exists>v\<in>set (visits budget ((r, ledger, cost) # cs) s). v_done v"
  shows "x \<in> set (visited (visits budget ((r, ledger, cost) # cs) s))"
  by (rule growing_pass_covers)
    (use assms growing_Cons [OF assms(1)] in \<open>auto simp: start_pos_def\<close>)

definition two_then_three :: "sweep_call list" where
  "two_then_three = [(sample_registry\<lparr>escrows := {''CB'', ''CC''}\<rparr>, 5, \<lambda>_. 4),
     (sample_registry\<lparr>escrows := {''CA'', ''CB'', ''CC''}\<rparr>, 6, \<lambda>_. 4),
     (sample_registry\<lparr>escrows := {''CA'', ''CB'', ''CC''}\<rparr>, 7, \<lambda>_. 4)]"

lemma two_then_three_visits:
  "map v_batch (visits 4 two_then_three new_sweeper) = [[''CB''], [''CB''], [''CC'']] \<and>
   map v_done (visits 4 two_then_three new_sweeper) = [False, False, True]"
  by (simp add: two_then_three_def sweep_run.simps next_batch_def snapshot_def sort_keys_def new_sweeper_def Let_def
      rewind_def start_pass_def batch_loop.simps)

lemma growing_pass_misses_nothing_witness:
  "''CC'' \<in> set (visited (visits 4 two_then_three new_sweeper))"
proof -
  have g: "growing two_then_three" by (simp add: two_then_three_def growing_def)
  have d: "\<exists>v\<in>set (visits 4 two_then_three new_sweeper). v_done v"
    using two_then_three_visits by (metis (no_types, lifting) imageE list.set_intros list.set_map)
  show ?thesis
    using growing_pass_misses_nothing [OF g [unfolded two_then_three_def] _ _ d [unfolded two_then_three_def], of "''CC''"]
    by (simp add: two_then_three_def new_sweeper_def)
qed


section \<open>The changed-since filter\<close>

text \<open>
  The visits of one escrow, in order, as pairs of ledger and anchor; and the demand that each visit's
  anchor is no later than the ledger of the visit before (\<open>l\<close> for the first), so that what was
  modified after the last look passes the filter.
\<close>

definition visits_of :: "string \<Rightarrow> visit list \<Rightarrow> (u32 \<times> u32) list" where
  "visits_of x vs = map (\<lambda>v. (v_ledger v, v_since v)) (filter (\<lambda>v. x \<in> set (v_batch v)) vs)"

fun anchored :: "u32 \<Rightarrow> (u32 \<times> u32) list \<Rightarrow> bool" where
  "anchored l [] = True"
| "anchored l ((ledger, since) # ws) = (since \<le> l \<and> anchored ledger ws)"

definition sweep_ok :: "string \<Rightarrow> u32 \<Rightarrow> sweep_call list \<Rightarrow> sweeper \<Rightarrow> bool" where
  "sweep_ok x l cs s \<longleftrightarrow>
     (if pos s = 0 then pass_start s \<le> l else
        prev_pass_start s \<le> l \<and>
        (cs \<noteq> [] \<longrightarrow> x \<in> set (take (pos s) (snapshot (fst (hd cs)))) \<longrightarrow> pass_start s \<le> l))"

lemma sweep_ok_anchored:
  assumes "growing cs" and "\<forall>c\<in>set cs. x \<in> escrows (fst c)"
    and "sorted (map (\<lambda>c. fst (snd c)) cs)" and "\<forall>c\<in>set cs. l \<le> fst (snd c) \<and> pass_start s \<le> fst (snd c)"
    and "sweep_ok x l cs s"
  shows "anchored l (visits_of x (visits budget cs s))"
  using assms
proof (induction cs arbitrary: s l)
  case Nil
  then show ?case by (simp add: visits_of_def)
next
  case (Cons c cs)
  obtain r ledger cost where c: "c = (r, ledger, cost)" by (cases c) auto
  obtain s' batch completed where n: "next_batch r ledger cost budget s = (s', batch, completed)"
    by (cases "next_batch r ledger cost budget s")
  note G = growing_Cons [OF Cons.prems(1)]
  have fin: "finite (escrows r)" and x: "x \<in> escrows r" using G Cons.prems(2) by (simp_all add: c)
  then have ne: "snapshot r \<noteq> []" using set_snapshot by fastforce
  have ps: "pass_start s' = (if start_pos r s = 0 then ledger else pass_start s)"
    "prev_pass_start s' = (if start_pos r s = 0 then pass_start s else prev_pass_start s)"
    using next_batch_eq [OF n ne] by auto
  have whole: "x \<in> set (take (pos s) (snapshot r))" if "length (snapshot r) \<le> pos s"
    using that x fin by (simp add: set_snapshot)
  have since: "prev_pass_start s' \<le> l"
    using Cons.prems(5) ps(2) whole by (auto simp: sweep_ok_def start_pos_def c split: if_splits)
  have pl: "l \<le> ledger" "pass_start s' \<le> ledger" using Cons.prems(4) ps(1) by (auto simp: c)
  let ?l = "if x \<in> set batch then ledger else l"
  have later: "x \<in> set (take (pos s') (snapshot r))"
    if "cs \<noteq> []" "x \<in> set (take (pos s') (snapshot (fst (hd cs))))"
  proof -
    have "hd cs \<in> set cs" using that(1) by simp
    then show ?thesis
      using take_sort_keys_mono [of "escrows (fst (hd cs))" "escrows r" x "pos s'"] G x that(2)
      by (auto simp: snapshot_def c)
  qed
  have ok: "sweep_ok x ?l cs s'"
  proof (cases "x \<in> set batch")
    case True
    then show ?thesis using pl since by (auto simp: sweep_ok_def)
  next
    case nb: False
    show ?thesis
    proof (cases "x \<in> set (take (start_pos r s) (snapshot r))")
      case True
      then have "start_pos r s \<noteq> 0" by (cases "start_pos r s") auto
      then have "start_pos r s = pos s" and p: "pos s \<noteq> 0" by (auto simp: start_pos_def split: if_splits)
      then have "pass_start s \<le> l" using Cons.prems(5) True by (simp add: sweep_ok_def c)
      then show ?thesis using ps \<open>start_pos r s \<noteq> 0\<close> since nb by (simp add: sweep_ok_def)
    next
      case False
      then have "pos s' \<noteq> 0" "x \<notin> set (take (pos s') (snapshot r))"
        using next_batch_visits [OF n fin x] nb by auto
      then show ?thesis using since nb later by (auto simp: sweep_ok_def)
    qed
  qed
  have "anchored ?l (visits_of x (visits budget cs s'))"
  proof (rule Cons.IH)
    show "\<forall>c\<in>set cs. ?l \<le> fst (snd c) \<and> pass_start s' \<le> fst (snd c)"
      using Cons.prems(3) pl by (force simp: c)
  qed (use Cons.prems G ok in auto)
  then show ?case
    using since by (auto simp: c visits_Cons [OF n] visits_of_def modified_since_def)
qed

text \<open>
  The filter drops nothing unseen. From a new or a reset sweeper, over a watchlist that only grows and
  ledgers that do not go back, every visit of an escrow asks for what was modified since an anchor that
  is no later than the previous visit of that escrow, and the first visit asks for everything: a change
  made after a visit passes the filter of the next one.
\<close>

theorem filter_drops_nothing_unseen:
  assumes "growing cs" and "\<forall>c\<in>set cs. x \<in> escrows (fst c)" and "sorted (map (\<lambda>c. fst (snd c)) cs)"
  shows "anchored 0 (visits_of x (visits budget cs (reset_sweep s)))"
  by (rule sweep_ok_anchored) (use assms in \<open>auto simp: sweep_ok_def reset_sweep_def\<close>)

lemma filter_drops_nothing_unseen_witness:
  "anchored 0 (visits_of ''CC'' (visits 4 two_then_three (reset_sweep new_sweeper)))"
  by (rule filter_drops_nothing_unseen)
    (simp_all add: two_then_three_def growing_def)

section \<open>A removal in the middle of a pass\<close>

text \<open>
  \<open>y\<close> already lies behind the rotation and has not been visited in the pass that began at \<open>P\<close>, or
  the next pass is under way, it is still ahead, and the filter is anchored at \<open>P\<close>.
\<close>

definition overtaken :: "string list \<Rightarrow> string \<Rightarrow> u32 \<Rightarrow> sweeper \<Rightarrow> bool" where
  "overtaken xs y P s \<longleftrightarrow>
     (pos s = 0 \<or> y \<in> set (take (pos s) xs)) \<and> pass_start s = P \<or>
     pos s \<noteq> 0 \<and> y \<notin> set (take (pos s) xs) \<and> prev_pass_start s = P"

lemma overtaken_step:
  assumes "next_batch r ledger cost budget s = (s', batch, completed)" and "finite (escrows r)" and "y \<in> escrows r"
    and "overtaken (snapshot r) y P s"
  shows "if y \<in> set batch then prev_pass_start s' = P else overtaken (snapshot r) y P s'"
proof -
  have y: "y \<in> set (snapshot r)" using assms(2,3) by (simp add: set_snapshot)
  then have ne: "snapshot r \<noteq> []" by auto
  have ps: "pass_start s' = (if start_pos r s = 0 then ledger else pass_start s)"
    "prev_pass_start s' = (if start_pos r s = 0 then pass_start s else prev_pass_start s)"
    using next_batch_eq [OF assms(1) ne] by auto
  obtain q where q: "start_pos r s < q" "batch = take (q - start_pos r s) (drop (start_pos r s) (snapshot r))"
    "completed = (q = length (snapshot r))" "pos s' = (if completed then 0 else q)"
    using next_batch_slice [OF assms(1) ne] by auto
  show ?thesis
  proof (cases "y \<in> set (take (start_pos r s) (snapshot r))")
    case True
    then have p: "start_pos r s = pos s" "start_pos r s \<noteq> 0" "pos s \<noteq> 0"
      by (cases "pos s"; auto simp: start_pos_def split: if_splits)+
    with True assms(4) have P: "pass_start s' = P" using ps(1) by (auto simp: overtaken_def)
    have tq: "take q (snapshot r) = take (start_pos r s) (snapshot r) @ batch"
      using q(1,2) by (metis add_diff_inverse_nat less_not_sym take_add)
    have "distinct (take q (snapshot r))" by (simp add: snapshot_def)
    then have "y \<notin> set batch" using True by (auto simp: tq)
    moreover have "y \<in> set (take q (snapshot r))" using True by (simp add: tq)
    ultimately show ?thesis using P q(4) by (simp add: overtaken_def)
  next
    case False
    have "y \<in> set (take (pos s) (snapshot r))" if "length (snapshot r) \<le> pos s" using that y by simp
    then have P: "prev_pass_start s' = P"
      using assms(4) False ps(2) by (auto simp: overtaken_def start_pos_def split: if_splits)
    then show ?thesis
      using next_batch_visits [OF assms(1-3) False] by (auto simp: overtaken_def)
  qed
qed

lemma overtaken_anchor:
  assumes "\<forall>c\<in>set cs. fst c = r" and "finite (escrows r)" and "y \<in> escrows r" and "overtaken (snapshot r) y P s"
    and "visits_of y (visits budget cs s) = (ledger, since) # ws"
  shows "since = P"
  using assms
proof (induction cs arbitrary: s)
  case Nil
  then show ?case by (simp add: visits_of_def)
next
  case (Cons c cs)
  obtain l cost where c: "c = (r, l, cost)" using Cons.prems(1) by (cases c) auto
  obtain s' batch completed where n: "next_batch r l cost budget s = (s', batch, completed)"
    by (cases "next_batch r l cost budget s")
  note step = overtaken_step [OF n Cons.prems(2-4)]
  show ?case
  proof (cases "y \<in> set batch")
    case True
    with step Cons.prems(5) show ?thesis by (simp add: c visits_Cons [OF n] visits_of_def modified_since_def)
  next
    case False
    with step Cons.prems(5) have "overtaken (snapshot r) y P s'" "visits_of y (visits budget cs s') = (ledger, since) # ws"
      by (simp_all add: c visits_Cons [OF n] visits_of_def)
    then show ?thesis using Cons.IH Cons.prems(1-3) by simp
  qed
qed

lemma removal_overtakes:
  assumes "finite (escrows r)" and "[] \<notin> escrows r" and "pos s < length (snapshot r)" and "x \<in> set (take (pos s) (snapshot r))"
  shows "overtaken (snapshot (fst (remove x r))) (snapshot r ! pos s) (pass_start s) s \<and>
    snapshot r ! pos s \<in> escrows (fst (remove x r))"
proof -
  let ?y = "snapshot r ! pos s"
  have y: "?y \<in> escrows r" using assms(1,3) nth_mem set_snapshot by blast
  have x: "x \<in> escrows r" using assms(1,4) in_set_takeD set_snapshot by metis
  have sd: "sorted_wrt (<) (snapshot r)" using assms(1) by (simp add: snapshot_def strict_sorted_iff)
  then have lt: "x < ?y" using assms(3,4) by (auto simp: in_set_conv_nth sorted_wrt_iff_nth_less)
  have "?y \<in> set (take (Suc (pos s)) (snapshot r))" using assms(3) by (simp add: take_Suc_conv_app_nth)
  then have le: "card {z \<in> escrows r. z < ?y} \<le> pos s"
    using assms(1) by (simp add: snapshot_def in_take_sort_keys)
  have e: "{z \<in> escrows r - {x}. z < ?y} = {z \<in> escrows r. z < ?y} - {x}" by auto
  have "card ({z \<in> escrows r. z < ?y} - {x}) < card {z \<in> escrows r. z < ?y}"
    using assms(1) x lt by (intro card_Diff1_less) auto
  then have "card {z \<in> escrows r - {x}. z < ?y} < pos s" using le unfolding e by (rule less_le_trans)
  then have "?y \<in> set (take (pos s) (sort_keys (escrows r - {x})))"
    using assms(1) y lt by (simp add: in_take_sort_keys)
  then show ?thesis
    using y lt x assms(2) by (auto simp: overtaken_def snapshot_def remove_def)
qed

lemma filtered_by_anchor:
  assumes "fetch_states k rpc r ids seq closed since d = (d', Ok out)" and "since \<noteq> 0" and "sc \<in> set out"
  shows "sc_type sc = removed_type \<or> since \<le> sc_last_modified sc"
proof -
  have "ids \<noteq> []" using assms(1,3) by (auto simp: fetch_states_def)
  then obtain req changes d5 where "finish_states req changes seq closed since d5 = (d', out)"
    using fetch_states_fetched [OF assms(1)] by blast
  then show ?thesis
    using assms(2,3)
    by (auto simp: finish_states_def filter_unchanged_def sort_by_escrow_id_def Let_def split: if_splits)
qed

text \<open>
  C40. A removal in the middle of a pass makes the sweep miss the changes of one escrow. Let the
  rotation stand at the escrow \<open>y\<close>, with \<open>x\<close> among those already visited. Left alone, the next batch
  holds \<open>y\<close> and asks for what was modified since the pass before this one began. If \<open>x\<close> is removed
  first, the snapshot shifts under the rotation and \<open>y\<close> is skipped: whatever the ledgers, costs and
  budget, the next batch that holds \<open>y\<close> asks only for what was modified since the start of this pass,
  in which \<open>y\<close> was never visited, and a fetch with that anchor returns for any escrow only removals and
  changes made since then. What happened to \<open>y\<close> between its last visit, in the pass before, and the
  start of this pass is never fetched, and the drain that \<open>DELETE /admin/escrows\<close> or a detected removal
  causes is enough.
\<close>

theorem removal_in_pass_loses_a_change:
  assumes "reg_inv r" and "pos s < length (snapshot r)" and "x \<in> set (take (pos s) (snapshot r))"
    and "y = snapshot r ! pos s" and "r' = fst (remove x r)" and "\<forall>c\<in>set cs. fst c = r'"
    and "visits_of y (visits budget cs s) = (ledger, since) # ws"
  shows "(\<forall>l cost s' batch completed. next_batch r l cost budget s = (s', batch, completed) \<longrightarrow>
      y \<in> set batch \<and> modified_since s' = prev_pass_start s) \<and>
    since = pass_start s \<and>
    (\<forall>k rpc ids seq closed d d' out sc.
      fetch_states k rpc r' ids seq closed since d = (d', Ok out) \<and> since \<noteq> 0 \<and> sc \<in> set out \<longrightarrow>
        sc_type sc = removed_type \<or> pass_start s \<le> sc_last_modified sc)"
proof -
  have fin: "finite (escrows r)" "[] \<notin> escrows r" using assms(1) by (simp_all add: reg_inv_def)
  have "finite (escrows r')" using fin(1) by (simp add: assms(5) remove_def)
  then have since: "since = pass_start s"
    using overtaken_anchor [OF assms(6)] removal_overtakes [OF fin assms(2,3)] assms(4,5,7) by blast
  have p: "pos s \<noteq> 0" using assms(3) by (cases "pos s") auto
  have sp: "start_pos r s = pos s" using assms(2) by (simp add: start_pos_def)
  have "y \<in> set batch \<and> modified_since s' = prev_pass_start s"
    if n: "next_batch r l cost budget s = (s', batch, completed)" for l cost s' batch completed
  proof -
    have ne: "snapshot r \<noteq> []" using assms(2) by auto
    obtain q where "pos s < q" "batch = take (q - pos s) (drop (pos s) (snapshot r))"
      using next_batch_slice [OF n ne] by (auto simp: sp)
    then have "y \<in> set batch" using assms(2,4) by (auto simp: take_Cons' simp flip: Cons_nth_drop_Suc)
    then show ?thesis using next_batch_eq [OF n ne] by (auto simp: sp p modified_since_def)
  qed
  then show ?thesis using since filtered_by_anchor by blast
qed

definition mid_pass :: sweeper where
  "mid_pass = \<lparr>pos = 1, pass_start = 4, prev_pass_start = 1\<rparr>"

lemma removal_in_pass_loses_a_change_witness:
  "let r = sample_registry\<lparr>escrows := {''CA'', ''CB'', ''CC''}\<rparr>; r' = fst (remove ''CA'' r) in
    map fst (visits_of ''CB'' (visits 4 [(r', 5, \<lambda>_. 4), (r', 6, \<lambda>_. 4)] mid_pass)) = [6] \<and>
    map snd (visits_of ''CB'' (visits 4 [(r', 5, \<lambda>_. 4), (r', 6, \<lambda>_. 4)] mid_pass)) = [pass_start mid_pass]"
proof -
  let ?r = "sample_registry\<lparr>escrows := {''CA'', ''CB'', ''CC''}\<rparr>"
  let ?r' = "fst (remove ''CA'' ?r)"
  let ?cs = "[(?r', 5, \<lambda>_. 4), (?r', 6, \<lambda>_. 4)]"
  have d: "{''CA'', ''CB'', ''CC''} - {''CA''} = {''CB'', ''CC''}" by auto
  have inv: "reg_inv ?r" using sample_inv by (simp add: reg_inv_def sample_registry_def)
  have v: "visits_of ''CB'' (visits 4 ?cs mid_pass) = [(6, 4)]"
    by (simp add: sweep_run.simps next_batch_def snapshot_def sort_keys_def mid_pass_def Let_def rewind_def
        start_pass_def batch_loop.simps remove_def d visits_of_def modified_since_def)
  have "4 = pass_start mid_pass"
    using removal_in_pass_loses_a_change [OF inv _ _ _ refl _ v, of "''CA''"]
    by (simp add: three_ids) (simp add: mid_pass_def)
  then show ?thesis using v by (simp add: Let_def)
qed

end
