(* ===== verification/Detection.thy ===== *)
theory Detection
  imports Chain Registry
begin

text \<open>
  \<open>internal/indexer\<close>: the discovery pass (\<open>escrow_discovery.go\<close>), the event detector
  (\<open>escrow_events.go\<close>) and \<open>ProcessLedger\<close> (\<open>indexer.go\<close>), which runs discovery over the whole
  ledger before detection.
\<close>

section \<open>Discovery\<close>

definition instance_from_change :: "sdk \<Rightarrow> ledger_change \<Rightarrow> (string \<times> hash) option" where
  "instance_from_change k ch =
     (if \<not> ch_contract_data ch then None
      else case ch_post ch of None \<Rightarrow> None
      | Some post \<Rightarrow>
        (case get_contract_data post of None \<Rightarrow> None
         | Some cd \<Rightarrow>
           if cd_key cd \<noteq> ScvLedgerKeyContractInstance then None
           else case get_instance (cd_val cd) of None \<Rightarrow> None
           | Some inst \<Rightarrow>
             (case get_wasm_hash inst of None \<Rightarrow> None
              | Some h \<Rightarrow>
                (case addr_string k (cd_contract cd) of None \<Rightarrow> None
                 | Some i \<Rightarrow> if i = [] then None else Some (i, h)))))"

text \<open>The loop over a transaction's changes, with the registry and the count threaded.\<close>

fun discover_changes :: "sdk \<Rightarrow> ledger_change list \<Rightarrow> registry \<Rightarrow> nat \<Rightarrow> registry \<times> nat" where
  "discover_changes k [] r n = (r, n)"
| "discover_changes k (ch # chs) r n =
     (case instance_from_change k ch of
        None \<Rightarrow> discover_changes k chs r n
      | Some (cid, h) \<Rightarrow>
          (case register cid h r of (r', new) \<Rightarrow> discover_changes k chs r' (if new then n + 1 else n)))"

definition discover_from_transaction :: "sdk \<Rightarrow> ledger_tx \<Rightarrow> registry \<Rightarrow> registry \<times> nat call" where
  "discover_from_transaction k tx r =
     (case tx_changes tx of
        Fail e \<Rightarrow> (r, Fail e)
      | Panic m \<Rightarrow> (r, Panic m)
      | Ret chs \<Rightarrow> (case discover_changes k chs r 0 of (r', n) \<Rightarrow> (r', Ret n)))"

section \<open>Events and deposits\<close>

definition transfer_topic :: string where "transfer_topic = ''transfer''"

datatype event_type = EscrowEventTypeEvent | EscrowEventTypeDeposit

fun event_type_string :: "event_type \<Rightarrow> string" where
  "event_type_string EscrowEventTypeEvent = ''event''"
| "event_type_string EscrowEventTypeDeposit = ''deposit''"

record escrow_event =
  ee_type :: event_type
  ee_escrow_id :: string
  ee_event_kind :: string
  ee_event_index :: u32
  ee_tx_hash :: string
  ee_tx_index :: u32
  ee_ledger_seq :: u32
  ee_closed_at :: time
  ee_raw_xdr :: string

definition contract_id_from_event :: "sdk \<Rightarrow> contract_event \<Rightarrow> string option" where
  "contract_id_from_event k ev =
     (case ce_contract_id ev of None \<Rightarrow> None | Some b \<Rightarrow> strkey_encode k b)"

text \<open>The topics of a V0 body; \<open>None\<close> for another version or a nil arm.\<close>

definition v0_topics :: "contract_event \<Rightarrow> sc_val list option" where
  "v0_topics ev = (if ce_body_v ev \<noteq> 0 then None else ce_topics ev)"

definition first_topic_symbol :: "contract_event \<Rightarrow> string option" where
  "first_topic_symbol ev =
     (case v0_topics ev of None \<Rightarrow> None
      | Some [] \<Rightarrow> None
      | Some (t # ts) \<Rightarrow> get_sym t)"

definition address_from_sc_val :: "sdk \<Rightarrow> sc_val \<Rightarrow> string option" where
  "address_from_sc_val k v =
     (case get_address v of None \<Rightarrow> None
      | Some a \<Rightarrow> (case addr_string k a of None \<Rightarrow> None | Some s \<Rightarrow> if s = [] then None else Some s))"

definition transfer_to_address :: "sdk \<Rightarrow> contract_event \<Rightarrow> string option" where
  "transfer_to_address k ev =
     (case v0_topics ev of None \<Rightarrow> None
      | Some ts \<Rightarrow> if length ts < 3 then None else address_from_sc_val k (ts ! 2))"

definition transfer_has_from_address :: "sdk \<Rightarrow> contract_event \<Rightarrow> bool" where
  "transfer_has_from_address k ev =
     (case v0_topics ev of None \<Rightarrow> False
      | Some ts \<Rightarrow> if length ts < 3 then False else address_from_sc_val k (ts ! 1) \<noteq> None)"

text \<open>
  \<open>classify\<close>: the type, the escrow and the kind of the fact an event is, if it is one. The kind of an
  escrow's own event is the symbol of its first topic, and the empty string when there is none.
\<close>

definition classify :: "sdk \<Rightarrow> registry \<Rightarrow> contract_event \<Rightarrow> (event_type \<times> string \<times> string) option" where
  "classify k r ev =
     (let deposit =
        (if first_topic_symbol ev = Some transfer_topic \<and> transfer_has_from_address k ev
         then (case transfer_to_address k ev of
                 Some to \<Rightarrow> if is_escrow r to then Some (EscrowEventTypeDeposit, to, ''token_transfer'') else None
               | None \<Rightarrow> None)
         else None)
      in case contract_id_from_event k ev of
           Some emitter \<Rightarrow>
             if is_escrow r emitter
             then Some (EscrowEventTypeEvent, emitter, (case first_topic_symbol ev of Some s \<Rightarrow> s | None \<Rightarrow> []))
             else deposit
         | None \<Rightarrow> deposit)"

definition encode_event_xdr :: "sdk \<Rightarrow> contract_event \<Rightarrow> string option" where
  "encode_event_xdr k ev = map_option base64 (marshal_event k ev)"

text \<open>The fact built from a classified event, stamped with its position.\<close>

definition build_fact :: "ledger_tx \<Rightarrow> u32 \<Rightarrow> event_type \<times> string \<times> string \<Rightarrow> string \<Rightarrow> escrow_event" where
  "build_fact tx idx c raw = (case c of (ty, cid, kind) \<Rightarrow>
     \<lparr>ee_type = ty, ee_escrow_id = cid, ee_event_kind = kind, ee_event_index = idx,
      ee_tx_hash = hex_encode (tx_hash tx), ee_tx_index = tx_index tx, ee_ledger_seq = tx_ledger tx,
      ee_closed_at = time_unix (tx_closed tx), ee_raw_xdr = raw\<rparr>)"

text \<open>The inner loop over one operation's events: \<open>eventIdx\<close> counts every event, kept or not.\<close>

fun detect_events :: "sdk \<Rightarrow> registry \<Rightarrow> ledger_tx \<Rightarrow> contract_event list \<Rightarrow> u32 \<Rightarrow> escrow_event list
    \<Rightarrow> (u32 \<times> escrow_event list) call" where
  "detect_events k r tx [] idx out = Ret (idx, out)"
| "detect_events k r tx (ev # evs) idx out =
     (case classify k r ev of
        None \<Rightarrow> detect_events k r tx evs (idx + 1) out
      | Some c \<Rightarrow>
          (case encode_event_xdr k ev of
             None \<Rightarrow> Fail (ErrOther ''encoding event'')
           | Some raw \<Rightarrow> detect_events k r tx evs (idx + 1) (out @ [build_fact tx idx c raw])))"

fun detect_ops :: "sdk \<Rightarrow> registry \<Rightarrow> ledger_tx \<Rightarrow> contract_event list call list \<Rightarrow> u32 \<Rightarrow> escrow_event list
    \<Rightarrow> escrow_event list call" where
  "detect_ops k r tx [] idx out = Ret out"
| "detect_ops k r tx (op # ops) idx out =
     bind_call op (\<lambda>evs.
       bind_call (detect_events k r tx evs idx out) (\<lambda>(idx', out'). detect_ops k r tx ops idx' out'))"

definition detect_from_transaction :: "sdk \<Rightarrow> registry \<Rightarrow> ledger_tx \<Rightarrow> escrow_event list call" where
  "detect_from_transaction k r tx = detect_ops k r tx (tx_ops tx) 0 []"

section \<open>ProcessLedger\<close>

text \<open>
  Each iteration of either pass polls the context first. \<open>poll i\<close> says whether the \<open>i\<close>-th poll of
  the call finds it cancelled.
\<close>

fun discovery_pass :: "sdk \<Rightarrow> (nat \<Rightarrow> bool) \<Rightarrow> nat \<Rightarrow> ledger_tx list \<Rightarrow> registry \<Rightarrow> registry \<times> unit call" where
  "discovery_pass k poll i [] r = (r, Ret ())"
| "discovery_pass k poll i (tx # txs) r =
     (if poll i then (r, Fail ErrCanceled)
      else case tx_successful tx of
        Panic m \<Rightarrow> (r, Panic m)
      | Fail e \<Rightarrow> (r, Fail e)
      | Ret ok \<Rightarrow>
          if \<not> ok then discovery_pass k poll (i + 1) txs r
          else case discover_from_transaction k tx r of
            (r', Ret _) \<Rightarrow> discovery_pass k poll (i + 1) txs r'
          | (r', Fail e) \<Rightarrow> (r', Fail e)
          | (r', Panic m) \<Rightarrow> (r', Panic m))"

text \<open>The ids of a transaction's facts that were not seen before, in order of first appearance.\<close>

fun note_active :: "escrow_event list \<Rightarrow> string list \<Rightarrow> string list" where
  "note_active [] active = active"
| "note_active (ev # evs) active =
     (if ee_escrow_id ev \<in> set active then note_active evs active
      else note_active evs (active @ [ee_escrow_id ev]))"

fun detection_pass :: "sdk \<Rightarrow> (nat \<Rightarrow> bool) \<Rightarrow> nat \<Rightarrow> registry \<Rightarrow> ledger_tx list \<Rightarrow> escrow_event list
    \<Rightarrow> string list \<Rightarrow> (escrow_event list \<times> string list) call" where
  "detection_pass k poll i r [] events active = Ret (events, active)"
| "detection_pass k poll i r (tx # txs) events active =
     (if poll i then Fail ErrCanceled
      else bind_call (tx_successful tx) (\<lambda>ok.
        if \<not> ok then detection_pass k poll (i + 1) r txs events active
        else bind_call (detect_from_transaction k r tx) (\<lambda>evs.
          detection_pass k poll (i + 1) r txs (events @ evs) (note_active evs active))))"

definition process_transactions :: "sdk \<Rightarrow> (nat \<Rightarrow> bool) \<Rightarrow> ledger_tx list \<Rightarrow> registry
    \<Rightarrow> registry \<times> (escrow_event list \<times> string list) call" where
  "process_transactions k poll txs r =
     (case discovery_pass k poll 0 txs r of
        (r', Fail e) \<Rightarrow> (r', Fail e)
      | (r', Panic m) \<Rightarrow> (r', Panic m)
      | (r', Ret _) \<Rightarrow> (r', detection_pass k poll (length txs) r' txs [] []))"

section \<open>Discovery: what is registered\<close>

definition found :: "sdk \<Rightarrow> registry \<Rightarrow> ledger_change list \<Rightarrow> string set" where
  "found k r chs = {cid. \<exists>ch\<in>set chs. \<exists>h. instance_from_change k ch = Some (cid, h) \<and> h \<in> approved r \<and> cid \<notin> removed r}"

lemma instance_nonempty: "instance_from_change k ch = Some (cid, h) \<Longrightarrow> cid \<noteq> []"
  by (auto simp: instance_from_change_def split: if_splits option.splits)

lemma discover_changes_eq:
  "fst (discover_changes k chs r n) = r\<lparr>escrows := escrows r \<union> found k r chs\<rparr>"
proof (induction chs arbitrary: r n)
  case Nil
  show ?case by (simp add: found_def)
next
  case (Cons ch chs)
  show ?case
  proof (cases "instance_from_change k ch")
    case None
    then show ?thesis by (simp add: Cons.IH found_def)
  next
    case (Some p)
    obtain cid h where p: "p = (cid, h)" by (cases p)
    obtain r' new where reg: "register cid h r = (r', new)" by (cases "register cid h r")
    have r': "r' = r\<lparr>escrows := (if h \<in> approved r \<and> cid \<notin> removed r then insert cid (escrows r) else escrows r)\<rparr>"
      using reg instance_nonempty [of k ch cid h] Some p
      by (auto simp: register_def is_approved_hash_def insert_absorb split: if_splits)
    have "found k r (ch # chs) = (if h \<in> approved r \<and> cid \<notin> removed r then {cid} else {}) \<union> found k r chs"
      using Some p by (auto simp: found_def)
    moreover have "found k r' chs = found k r chs" by (simp add: r' found_def)
    ultimately show ?thesis using Some p reg by (simp add: Cons.IH r')
  qed
qed

lemma discover_from_transaction_fst:
  "fst (discover_from_transaction k tx r) =
     (case tx_changes tx of Ret chs \<Rightarrow> r\<lparr>escrows := escrows r \<union> found k r chs\<rparr> | _ \<Rightarrow> r)"
  by (auto simp: discover_from_transaction_def split: call.splits prod.splits)
    (metis discover_changes_eq fst_conv)

lemma discover_from_transaction_inv [inv_intros]:
  "reg_inv r \<Longrightarrow> reg_inv (fst (discover_from_transaction k tx r))"
proof -
  assume i: "reg_inv r"
  have "reg_inv (r\<lparr>escrows := escrows r \<union> found k r chs\<rparr>)" for chs
  proof -
    have "found k r chs \<subseteq> (\<lambda>ch. fst (the (instance_from_change k ch))) ` set chs"
      by (force simp: found_def)
    then have "finite (found k r chs)" by (rule finite_subset) simp
    moreover have "[] \<notin> found k r chs" by (auto simp: found_def dest: instance_nonempty)
    moreover have "found k r chs \<inter> removed r = {}" by (auto simp: found_def)
    ultimately show ?thesis using i by (auto simp: reg_inv_def)
  qed
  then show ?thesis using i by (simp add: discover_from_transaction_fst split: call.splits)
qed

text \<open>The escrows a ledger's successful transactions deploy.\<close>

definition deployed :: "sdk \<Rightarrow> registry \<Rightarrow> ledger_tx list \<Rightarrow> string set" where
  "deployed k r txs =
     {cid. \<exists>tx\<in>set txs. \<exists>chs. tx_successful tx = Ret True \<and> tx_changes tx = Ret chs \<and> cid \<in> found k r chs}"

lemma discovery_pass_eq:
  "discovery_pass k poll i txs r = (r', Ret ()) \<Longrightarrow> r' = r\<lparr>escrows := escrows r \<union> deployed k r txs\<rparr>"
proof (induction txs arbitrary: i r)
  case Nil
  then show ?case by (simp add: deployed_def)
next
  case (Cons tx txs)
  from Cons.prems obtain ok where np: "\<not> poll i" and ok: "tx_successful tx = Ret ok"
    by (auto split: if_splits call.splits)
  show ?case
  proof (cases ok)
    case False
    with Cons np ok show ?thesis by (auto simp: deployed_def)
  next
    case True
    obtain r1 c where d: "discover_from_transaction k tx r = (r1, c)"
      by (cases "discover_from_transaction k tx r")
    from Cons.prems np ok True d obtain n where c: "c = Ret n"
      and rest: "discovery_pass k poll (i + 1) txs r1 = (r', Ret ())"
      by (auto split: call.splits)
    from d c obtain chs where chs: "tx_changes tx = Ret chs"
      by (auto simp: discover_from_transaction_def split: call.splits)
    have r1: "r1 = r\<lparr>escrows := escrows r \<union> found k r chs\<rparr>"
      using discover_from_transaction_fst [of k tx r] d chs by simp
    have "deployed k r1 txs = deployed k r txs" by (simp add: deployed_def found_def r1)
    moreover have "deployed k r (tx # txs) = found k r chs \<union> deployed k r txs"
      using ok True chs by (auto simp: deployed_def)
    ultimately show ?thesis using Cons.IH [OF rest] by (simp add: r1 Un_assoc)
  qed
qed

lemma discovery_pass_inv [inv_intros]: "reg_inv r \<Longrightarrow> reg_inv (fst (discovery_pass k poll i txs r))"
proof (induction txs arbitrary: i r)
  case (Cons tx txs)
  have "reg_inv (fst (discover_from_transaction k tx r))" using Cons.prems by (rule inv_intros)
  then show ?case using Cons by (auto split: call.splits prod.splits)
qed simp

lemma process_transactions_inv [inv_intros]:
  "reg_inv r \<Longrightarrow> reg_inv (fst (process_transactions k poll txs r))"
  using discovery_pass_inv [of r k poll 0 txs]
  by (auto simp: process_transactions_def split: prod.splits call.splits)

section \<open>Detection against its specification\<close>

text \<open>The facts that one event at position \<open>idx\<close> of its transaction stands for: none or one.\<close>

definition facts_of :: "sdk \<Rightarrow> registry \<Rightarrow> ledger_tx \<Rightarrow> nat \<times> contract_event \<Rightarrow> escrow_event list" where
  "facts_of k r tx p =
     (case (classify k r (snd p), encode_event_xdr k (snd p)) of
        (Some c, Some raw) \<Rightarrow> [build_fact tx (of_nat (fst p)) c raw]
      | _ \<Rightarrow> [])"

definition encodable :: "sdk \<Rightarrow> registry \<Rightarrow> contract_event list \<Rightarrow> bool" where
  "encodable k r evs \<longleftrightarrow> (\<forall>ev\<in>set evs. classify k r ev \<noteq> None \<longrightarrow> encode_event_xdr k ev \<noteq> None)"

definition spec_facts :: "sdk \<Rightarrow> registry \<Rightarrow> ledger_tx \<Rightarrow> nat \<Rightarrow> contract_event list \<Rightarrow> escrow_event list" where
  "spec_facts k r tx n evs = concat (map (facts_of k r tx) (enumerate n evs))"

lemma detect_events_spec:
  "detect_events k r tx evs (of_nat n) out =
     (if encodable k r evs then Ret (of_nat (n + length evs), out @ spec_facts k r tx n evs)
      else Fail (ErrOther ''encoding event''))"
proof (induction evs arbitrary: n out)
  case Nil
  show ?case by (simp add: encodable_def spec_facts_def)
next
  case (Cons ev evs)
  have s: "(of_nat n + 1 :: u32) = of_nat (Suc n)" by simp
  show ?case
    by (cases "classify k r ev"; cases "encode_event_xdr k ev")
      (simp_all only: detect_events.simps option.case s Cons.IH,
       auto simp: encodable_def spec_facts_def facts_of_def)
qed

lemma spec_facts_append:
  "spec_facts k r tx n (xs @ ys) = spec_facts k r tx n xs @ spec_facts k r tx (n + length xs) ys"
  by (simp add: spec_facts_def enumerate_append_eq)

lemma detect_ops_Ret:
  "detect_ops k r tx (map Ret evss) (of_nat n) out =
     (if encodable k r (concat evss) then Ret (out @ spec_facts k r tx n (concat evss))
      else Fail (ErrOther ''encoding event''))"
proof (induction evss arbitrary: n out)
  case Nil
  show ?case by (simp add: encodable_def spec_facts_def)
next
  case (Cons evs evss)
  show ?case
    by (simp add: detect_events_spec Cons.IH spec_facts_append del: of_nat_add)
      (auto simp: encodable_def)
qed

lemma detect_ops_Ret_imp:
  "detect_ops k r tx ops idx out = Ret res \<Longrightarrow> \<exists>evss. ops = map Ret evss"
proof (induction ops arbitrary: idx out)
  case (Cons op ops)
  then obtain evs idx' out' where "op = Ret evs" and "detect_ops k r tx ops idx' out' = Ret res"
    by auto
  with Cons.IH obtain evss where "op # ops = map Ret (evs # evss)" by fastforce
  then show ?case by (rule exI)
qed simp

lemma detect_from_transaction_map:
  "tx_ops tx = map Ret evss \<Longrightarrow> detect_from_transaction k r tx =
     (if encodable k r (concat evss) then Ret (spec_facts k r tx 0 (concat evss))
      else Fail (ErrOther ''encoding event''))"
  using detect_ops_Ret [of k r tx evss 0 "[]"] by (simp add: detect_from_transaction_def)

lemma detect_from_transaction_RetD:
  assumes "detect_from_transaction k r tx = Ret out"
  obtains evss where "tx_ops tx = map Ret evss" and "encodable k r (concat evss)"
    and "out = spec_facts k r tx 0 (concat evss)"
proof -
  from assms obtain evss where e: "tx_ops tx = map Ret evss"
    using detect_ops_Ret_imp unfolding detect_from_transaction_def by metis
  show ?thesis
    using that [OF e] assms by (simp add: detect_from_transaction_map [OF e] split: if_splits)
qed

text \<open>
  C16. The nested loops of \<open>DetectFromTransaction\<close> compute the specification: the call returns facts
  exactly when the SDK answers for every operation and every event of interest can be marshalled, and
  the facts are then those of the concatenated events of all operations, in order, each stamped with
  its position in that concatenation.
\<close>

theorem detect_equals_spec:
  "detect_from_transaction k r tx = Ret out \<longleftrightarrow>
     (\<exists>evss. tx_ops tx = map Ret evss \<and> encodable k r (concat evss) \<and>
       out = spec_facts k r tx 0 (concat evss))"
  by (metis detect_from_transaction_RetD detect_from_transaction_map)

lemma classify_Some:
  assumes "classify k r ev = Some (ty, cid, kind)"
  shows "is_escrow r cid"
    and "ty = EscrowEventTypeEvent \<Longrightarrow> contract_id_from_event k ev = Some cid"
    and "ty = EscrowEventTypeDeposit \<Longrightarrow> kind = ''token_transfer'' \<and>
      first_topic_symbol ev = Some transfer_topic \<and> transfer_has_from_address k ev \<and>
      transfer_to_address k ev = Some cid"
  using assms by (auto simp: classify_def Let_def split: option.splits if_splits)

lemma classify_emitter:
  "contract_id_from_event k ev = Some cid \<Longrightarrow> is_escrow r cid \<Longrightarrow>
   classify k r ev = Some (EscrowEventTypeEvent, cid, (case first_topic_symbol ev of Some s \<Rightarrow> s | None \<Rightarrow> []))"
  by (simp add: classify_def)

section \<open>ProcessLedger against its specification\<close>

definition tx_facts :: "sdk \<Rightarrow> registry \<Rightarrow> ledger_tx \<Rightarrow> escrow_event list" where
  "tx_facts k r tx =
     (if tx_successful tx = Ret True
      then (case detect_from_transaction k r tx of Ret out \<Rightarrow> out | _ \<Rightarrow> []) else [])"

lemma note_active_set: "set (note_active evs active) = set active \<union> ee_escrow_id ` set evs"
  by (induction evs active rule: note_active.induct) auto

lemma note_active_distinct: "distinct active \<Longrightarrow> distinct (note_active evs active)"
  by (induction evs active rule: note_active.induct) auto

lemma detection_pass_Ret:
  assumes "detection_pass k poll i r txs ev0 ac0 = Ret (events, active)"
  shows "events = ev0 @ concat (map (tx_facts k r) txs) \<and>
    set active = set ac0 \<union> ee_escrow_id ` set (concat (map (tx_facts k r) txs)) \<and>
    (distinct ac0 \<longrightarrow> distinct active) \<and>
    (\<forall>tx\<in>set txs. tx_successful tx = Ret True \<longrightarrow> detect_from_transaction k r tx = Ret (tx_facts k r tx))"
  using assms
proof (induction txs arbitrary: i ev0 ac0)
  case (Cons tx txs)
  from Cons.prems obtain ok where np: "\<not> poll i" and ok: "tx_successful tx = Ret ok"
    by (auto split: if_splits)
  show ?case
  proof (cases ok)
    case False
    with Cons.prems np ok have "detection_pass k poll (i + 1) r txs ev0 ac0 = Ret (events, active)" by simp
    from Cons.IH [OF this] show ?thesis using ok False by (simp add: tx_facts_def)
  next
    case True
    with Cons.prems np ok obtain evs where evs: "detect_from_transaction k r tx = Ret evs"
      and "detection_pass k poll (i + 1) r txs (ev0 @ evs) (note_active evs ac0) = Ret (events, active)"
      by auto
    from Cons.IH [OF this(2)] show ?thesis
      using ok True evs by (simp add: tx_facts_def note_active_set note_active_distinct Un_assoc image_Un)
  qed
qed simp

lemma process_transactions_Ret:
  assumes "process_transactions k poll txs r = (r', Ret (events, active))"
  shows "r' = r\<lparr>escrows := escrows r \<union> deployed k r txs\<rparr>"
    and "events = concat (map (tx_facts k r') txs)"
    and "set active = ee_escrow_id ` set events" and "distinct active"
    and "tx \<in> set txs \<Longrightarrow> tx_successful tx = Ret True \<Longrightarrow> detect_from_transaction k r' tx = Ret (tx_facts k r' tx)"
proof -
  from assms have a: "discovery_pass k poll 0 txs r = (r', Ret ())"
    and b: "detection_pass k poll (length txs) r' txs [] [] = Ret (events, active)"
    by (auto simp: process_transactions_def split: prod.splits call.splits)
  show "r' = r\<lparr>escrows := escrows r \<union> deployed k r txs\<rparr>" by (rule discovery_pass_eq [OF a])
  from detection_pass_Ret [OF b] show "events = concat (map (tx_facts k r') txs)"
    and "set active = ee_escrow_id ` set events" and "distinct active"
    and "tx \<in> set txs \<Longrightarrow> tx_successful tx = Ret True \<Longrightarrow> detect_from_transaction k r' tx = Ret (tx_facts k r' tx)"
    by auto
qed

lemma tx_facts_mem:
  assumes "ev \<in> set (tx_facts k r tx)"
  obtains evss i e c raw where "tx_successful tx = Ret True" "tx_ops tx = map Ret evss"
    "i < length (concat evss)" "e = concat evss ! i" "classify k r e = Some c"
    "encode_event_xdr k e = Some raw" "ev = build_fact tx (of_nat i) c raw"
proof -
  have s: "tx_successful tx = Ret True"
    using assms by (rule contrapos_pp) (simp add: tx_facts_def)
  have "\<exists>out. detect_from_transaction k r tx = Ret out \<and> ev \<in> set out"
    using assms s by (cases "detect_from_transaction k r tx") (simp_all add: tx_facts_def)
  then obtain out where d: "detect_from_transaction k r tx = Ret out" and m: "ev \<in> set out"
    by (elim exE conjE)
  obtain evss where o: "tx_ops tx = map Ret evss" and out: "out = spec_facts k r tx 0 (concat evss)"
    using detect_from_transaction_RetD [OF d] by blast
  from m obtain i where i: "i < length (concat evss)" and f: "ev \<in> set (facts_of k r tx (i, concat evss ! i))"
    unfolding out by (force simp: spec_facts_def in_set_enumerate_eq)
  obtain c raw where "classify k r (concat evss ! i) = Some c"
    and "encode_event_xdr k (concat evss ! i) = Some raw" and "ev = build_fact tx (of_nat i) c raw"
    using f by (cases "classify k r (concat evss ! i)"; cases "encode_event_xdr k (concat evss ! i)")
      (simp_all add: facts_of_def)
  then show ?thesis by (rule that [OF s o i refl])
qed

lemma tx_facts_intro:
  assumes "detect_from_transaction k r tx = Ret (tx_facts k r tx)" and "tx_ops tx = map Ret evss"
    and "i < length (concat evss)" and "classify k r (concat evss ! i) = Some c"
  shows "\<exists>raw. encode_event_xdr k (concat evss ! i) = Some raw \<and> build_fact tx (of_nat i) c raw \<in> set (tx_facts k r tx)"
proof -
  have enc: "encodable k r (concat evss)" and f: "tx_facts k r tx = spec_facts k r tx 0 (concat evss)"
    using assms(1) by (auto simp: detect_from_transaction_map [OF assms(2)] split: if_splits)
  have "concat evss ! i \<in> set (concat evss)" using assms(3) by (rule nth_mem)
  with enc have "classify k r (concat evss ! i) \<noteq> None \<longrightarrow> encode_event_xdr k (concat evss ! i) \<noteq> None"
    unfolding encodable_def by blast
  then obtain raw where raw: "encode_event_xdr k (concat evss ! i) = Some raw" using assms(4) by auto
  have "(i, concat evss ! i) \<in> set (enumerate 0 (concat evss))"
    using assms(3) by (simp add: in_set_enumerate_eq)
  then have "build_fact tx (of_nat i) c raw \<in> set (tx_facts k r tx)"
    unfolding f spec_facts_def set_concat set_map
    by (intro UN_I [of "facts_of k r tx (i, concat evss ! i)"] imageI)
      (simp_all add: facts_of_def assms(4) raw)
  with raw show ?thesis by blast
qed

text \<open>
  C17. Nothing that concerns an escrow is missed, whatever the order of deployment and first use inside the
  ledger. Followed are the contracts that were tracked before, and those that a successful transaction of the
  same ledger deploys with an approved hash and that are not tombstoned. When a ledger is processed, every event
  of a successful transaction that a followed contract emits is a fact of that contract, at its position; and
  every transfer event with a sender address to a followed contract, emitted by another contract, is a deposit
  of the recipient, at its position. The contract is then among the active ones.
\<close>

theorem ledger_detection_complete:
  assumes "reg_inv r" and "process_transactions k poll txs r = (r', Ret (events, active))"
    and "tx \<in> set txs" and "tx_successful tx = Ret True" and "tx_ops tx = map Ret evss"
    and "i < length (concat evss)" and "e = concat evss ! i" and "followed = escrows r \<union> deployed k r txs" and "cid \<in> followed"
    and "contract_id_from_event k e = Some cid \<and> ty = EscrowEventTypeEvent \<or>
      first_topic_symbol e = Some transfer_topic \<and> transfer_has_from_address k e \<and> transfer_to_address k e = Some cid \<and>
        contract_id_from_event k e \<notin> Some ` followed \<and> ty = EscrowEventTypeDeposit"
  shows "\<exists>ev\<in>set events. ee_escrow_id ev = cid \<and> ee_type ev = ty \<and>
    ee_event_index ev = of_nat i \<and> ee_tx_hash ev = hex_encode (tx_hash tx) \<and> cid \<in> set active"
proof -
  note R = process_transactions_Ret [OF assms(2)]
  have i: "reg_inv r'" using process_transactions_inv [OF assms(1), of k poll txs] assms(2) by simp
  have f: "is_escrow r' c \<longleftrightarrow> c \<in> followed" for c
    by (subst is_escrow_iff [OF i], subst R(1)) (simp add: assms(8))
  have "\<exists>kind. classify k r' e = Some (ty, cid, kind)"
    using assms(10)
  proof (elim disjE conjE)
    assume "contract_id_from_event k e = Some cid" "ty = EscrowEventTypeEvent"
    with classify_emitter [of k e cid r'] f assms(9) show ?thesis by auto
  next
    assume "first_topic_symbol e = Some transfer_topic" "transfer_has_from_address k e" "transfer_to_address k e = Some cid"
      "contract_id_from_event k e \<notin> Some ` followed" "ty = EscrowEventTypeDeposit"
    with f assms(9) show ?thesis by (auto simp: classify_def Let_def split: option.split)
  qed
  then obtain kind where c: "classify k r' (concat evss ! i) = Some (ty, cid, kind)" unfolding assms(7) by blast
  obtain raw where m: "build_fact tx (of_nat i) (ty, cid, kind) raw \<in> set (tx_facts k r' tx)"
    using tx_facts_intro [OF R(5) [OF assms(3,4)] assms(5,6) c] by blast
  let ?ev = "build_fact tx (of_nat i) (ty, cid, kind) raw"
  from m assms(3) have ev: "?ev \<in> set events" unfolding R(2) by auto
  then have "ee_escrow_id ?ev \<in> set active" unfolding R(3) by (rule imageI)
  with ev show ?thesis by (intro bexI [of _ ?ev]) (simp_all add: build_fact_def)
qed

text \<open>
  C35. Nothing is invented: every fact comes from a successful transaction of the ledger and names a
  contract that is tracked after discovery; an \<open>event\<close> was emitted by that very contract, and a
  \<open>deposit\<close> is a transfer-shaped event with a sender address whose recipient (third topic) is that
  contract.
\<close>

theorem ledger_detection_sound:
  assumes "process_transactions k poll txs r = (r', Ret (events, active))" and "ev \<in> set events"
  shows "\<exists>tx e. tx \<in> set txs \<and> tx_successful tx = Ret True \<and>
    (\<exists>evs. Ret evs \<in> set (tx_ops tx) \<and> e \<in> set evs) \<and>
    is_escrow r' (ee_escrow_id ev) \<and> ee_ledger_seq ev = tx_ledger tx \<and>
    (case ee_type ev of
       EscrowEventTypeEvent \<Rightarrow> contract_id_from_event k e = Some (ee_escrow_id ev)
     | EscrowEventTypeDeposit \<Rightarrow> first_topic_symbol e = Some transfer_topic \<and>
         transfer_has_from_address k e \<and> transfer_to_address k e = Some (ee_escrow_id ev))"
proof -
  note R = process_transactions_Ret [OF assms(1)]
  from assms(2) obtain tx where tx: "tx \<in> set txs" and f: "ev \<in> set (tx_facts k r' tx)"
    unfolding R(2) by auto
  from f obtain evss i e c raw where s: "tx_successful tx = Ret True" and o: "tx_ops tx = map Ret evss"
    and i: "i < length (concat evss)" and e: "e = concat evss ! i"
    and c: "classify k r' e = Some c" and ev: "ev = build_fact tx (of_nat i) c raw"
    by (rule tx_facts_mem)
  obtain ty cid kind where p: "c = (ty, cid, kind)" by (cases c)
  have "e \<in> set (concat evss)" unfolding e by (rule nth_mem [OF i])
  then have m: "\<exists>evs. Ret evs \<in> set (tx_ops tx) \<and> e \<in> set evs" unfolding o by auto
  show ?thesis
    using tx s m classify_Some [OF c [unfolded p]]
    by (intro exI [of _ tx] exI [of _ e]) (auto simp: ev p build_fact_def split: event_type.split)
qed

section \<open>An example ledger\<close>

text \<open>
  The contract with bytes 1, 2 emits an event in the first transaction and is deployed, with the
  approved hash, by the second; the third one failed, so its transfer does not count.
\<close>

definition deploy_tx :: ledger_tx where
  "deploy_tx = \<lparr>tx_hash = [10], tx_index = 2, tx_ledger = 7, tx_closed = 100, tx_successful = Ret True,
     tx_changes = Ret [\<lparr>ch_contract_data = True, ch_post = Some (EntryContractData
        \<lparr>cd_contract = ScAddressContract [1, 2], cd_key = ScvLedgerKeyContractInstance,
         cd_val = ScvContractInstance (ExecWasm sample_hash)\<rparr>)\<rparr>],
     tx_ops = [Ret []]\<rparr>"

definition init_event :: contract_event where
  "init_event = \<lparr>ce_contract_id = Some [1, 2], ce_body_v = 0, ce_topics = Some [ScvSymbol ''tw_init''], ce_rest = []\<rparr>"

definition transfer_event :: contract_event where
  "transfer_event = \<lparr>ce_contract_id = Some [9], ce_body_v = 0,
     ce_topics = Some [ScvSymbol ''transfer'', ScvAddress (ScAddressAccount [5]), ScvAddress (ScAddressContract [1, 2])],
     ce_rest = []\<rparr>"

definition event_tx :: ledger_tx where
  "event_tx = \<lparr>tx_hash = [11], tx_index = 1, tx_ledger = 7, tx_closed = 100, tx_successful = Ret True,
     tx_changes = Ret [], tx_ops = [Ret [transfer_event], Ret [init_event]]\<rparr>"

definition failed_tx :: ledger_tx where
  "failed_tx = event_tx\<lparr>tx_hash := [12], tx_index := 3, tx_successful := Ret False\<rparr>"

definition sample_txs :: "ledger_tx list" where
  "sample_txs = [event_tx, deploy_tx, failed_tx]"

definition sample_facts :: "escrow_event list" where
  "sample_facts =
    [build_fact event_tx 0 (EscrowEventTypeDeposit, ''C0102'', ''token_transfer'') ''ZXY='',
     build_fact event_tx 1 (EscrowEventTypeEvent, ''C0102'', ''tw_init'') ''ZXY='']"

lemmas sample_defs = sample_txs_def failed_tx_def event_tx_def deploy_tx_def init_event_def transfer_event_def
  sample_registry_def sample_facts_def sample_sdk_def sample_addr_def

lemma sample_process:
  "process_transactions sample_sdk (\<lambda>_. False) sample_txs sample_registry =
     (sample_registry\<lparr>escrows := {''C0102''}\<rparr>, Ret (sample_facts, [''C0102'']))"
  by (simp add: sample_defs process_transactions_def discover_from_transaction_def instance_from_change_def
      register_def is_approved_hash_def detect_from_transaction_def classify_def contract_id_from_event_def
      first_topic_symbol_def v0_topics_def transfer_topic_def transfer_has_from_address_def
      transfer_to_address_def address_from_sc_val_def is_escrow_def encode_event_xdr_def build_fact_def
      b64_char_def hex_char_def nth_Cons')

lemma sample_deployed: "''C0102'' \<in> deployed sample_sdk sample_registry sample_txs"
proof -
  have "sample_registry\<lparr>escrows := {''C0102''}\<rparr> =
      sample_registry\<lparr>escrows := escrows sample_registry \<union> deployed sample_sdk sample_registry sample_txs\<rparr>"
    by (rule process_transactions_Ret(1) [OF sample_process])
  from arg_cong [OF this, of escrows] have "{''C0102''} = deployed sample_sdk sample_registry sample_txs"
    by (simp add: sample_registry_def)
  then show ?thesis by blast
qed

theorem ledger_detection_complete_witness:
  "(\<exists>ev\<in>set sample_facts. ee_escrow_id ev = ''C0102'' \<and> ee_type ev = EscrowEventTypeEvent \<and>
     ee_event_index ev = of_nat 1 \<and> ee_tx_hash ev = hex_encode (tx_hash event_tx) \<and> ''C0102'' \<in> set [''C0102'']) \<and>
   (\<exists>ev\<in>set sample_facts. ee_escrow_id ev = ''C0102'' \<and> ee_type ev = EscrowEventTypeDeposit \<and>
     ee_event_index ev = of_nat 0 \<and> ee_tx_hash ev = hex_encode (tx_hash event_tx) \<and> ''C0102'' \<in> set [''C0102''])"
proof -
  let ?F = "escrows sample_registry \<union> deployed sample_sdk sample_registry sample_txs"
  have F: "?F = {''C0102''}"
    using arg_cong [OF process_transactions_Ret(1) [OF sample_process], of escrows] by simp
  have d: "transfer_event = concat [[transfer_event], [init_event]] ! 0" "init_event = concat [[transfer_event], [init_event]] ! 1"
    by simp_all
  have 1: "contract_id_from_event sample_sdk init_event = Some ''C0102'' \<and> EscrowEventTypeEvent = EscrowEventTypeEvent \<or>
      first_topic_symbol init_event = Some transfer_topic \<and> transfer_has_from_address sample_sdk init_event \<and>
        transfer_to_address sample_sdk init_event = Some ''C0102'' \<and> contract_id_from_event sample_sdk init_event \<notin> Some ` ?F \<and>
        EscrowEventTypeEvent = EscrowEventTypeDeposit"
    by (simp add: sample_defs contract_id_from_event_def hex_char_def nth_Cons')
  have 0: "contract_id_from_event sample_sdk transfer_event = Some ''C0102'' \<and> EscrowEventTypeDeposit = EscrowEventTypeEvent \<or>
      first_topic_symbol transfer_event = Some transfer_topic \<and> transfer_has_from_address sample_sdk transfer_event \<and>
        transfer_to_address sample_sdk transfer_event = Some ''C0102'' \<and> contract_id_from_event sample_sdk transfer_event \<notin> Some ` ?F \<and>
        EscrowEventTypeDeposit = EscrowEventTypeDeposit"
    unfolding F by (simp add: sample_defs contract_id_from_event_def first_topic_symbol_def v0_topics_def transfer_topic_def
        transfer_has_from_address_def transfer_to_address_def address_from_sc_val_def hex_char_def nth_Cons')
  have t: "event_tx \<in> set sample_txs" "tx_successful event_tx = Ret True" "tx_ops event_tx = map Ret [[transfer_event], [init_event]]"
    by (simp_all add: sample_txs_def event_tx_def)
  have m: "''C0102'' \<in> ?F" unfolding F by simp
  have "1 < length (concat [[transfer_event], [init_event]])" "0 < length (concat [[transfer_event], [init_event]])" by simp_all
  with ledger_detection_complete [OF sample_inv sample_process t _ d(2) refl m 1]
    ledger_detection_complete [OF sample_inv sample_process t _ d(1) refl m 0]
  show ?thesis by blast
qed

theorem ledger_detection_sound_witness:
  "\<exists>tx e. tx \<in> set sample_txs \<and> tx_successful tx = Ret True \<and>
    (\<exists>evs. Ret evs \<in> set (tx_ops tx) \<and> e \<in> set evs) \<and>
    is_escrow (sample_registry\<lparr>escrows := {''C0102''}\<rparr>) (ee_escrow_id (hd sample_facts)) \<and>
    ee_ledger_seq (hd sample_facts) = tx_ledger tx \<and>
    (case ee_type (hd sample_facts) of
       EscrowEventTypeEvent \<Rightarrow> contract_id_from_event sample_sdk e = Some (ee_escrow_id (hd sample_facts))
     | EscrowEventTypeDeposit \<Rightarrow> first_topic_symbol e = Some transfer_topic \<and>
         transfer_has_from_address sample_sdk e \<and> transfer_to_address sample_sdk e = Some (ee_escrow_id (hd sample_facts)))"
  by (rule ledger_detection_sound [OF sample_process]) (simp add: sample_facts_def)

section \<open>The documented order key\<close>

text \<open>
  \<open>docs/event-schema.md\<close> promises that \<open>(ledger_seq, tx_index, event_index)\<close> is a total order across
  the stream.
\<close>

datatype order_key = OrderKey (ok_ledger: u32) (ok_tx: u32) (ok_event: u32)

instantiation order_key :: linorder
begin

definition less_eq_order_key :: "order_key \<Rightarrow> order_key \<Rightarrow> bool" where
  "less_eq_order_key a b \<longleftrightarrow> ok_ledger a < ok_ledger b \<or> ok_ledger a = ok_ledger b \<and>
     (ok_tx a < ok_tx b \<or> ok_tx a = ok_tx b \<and> ok_event a \<le> ok_event b)"

definition less_order_key :: "order_key \<Rightarrow> order_key \<Rightarrow> bool" where
  "less_order_key a b \<longleftrightarrow> ok_ledger a < ok_ledger b \<or> ok_ledger a = ok_ledger b \<and>
     (ok_tx a < ok_tx b \<or> ok_tx a = ok_tx b \<and> ok_event a < ok_event b)"

instance
  by standard (auto simp: less_eq_order_key_def less_order_key_def order_key.expand)

end

definition order_key :: "escrow_event \<Rightarrow> order_key" where
  "order_key ev = OrderKey (ee_ledger_seq ev) (ee_tx_index ev) (ee_event_index ev)"

lemma of_nat_u32_less: "i < j \<Longrightarrow> j < 2 ^ 32 \<Longrightarrow> (of_nat i :: u32) < of_nat j"
  by (simp add: word_of_nat_less_iff take_bit_nat_eq_self)

lemma spec_facts_mem:
  assumes "ev \<in> set (spec_facts k r tx n evs)"
  shows "\<exists>j. n \<le> j \<and> j < n + length evs \<and> order_key ev = OrderKey (tx_ledger tx) (tx_index tx) (of_nat j)"
proof -
  from assms obtain j where "n \<le> j" and "j < n + length evs" and f: "ev \<in> set (facts_of k r tx (j, evs ! (j - n)))"
    by (force simp: spec_facts_def in_set_enumerate_eq)
  from f have "order_key ev = OrderKey (tx_ledger tx) (tx_index tx) (of_nat j)"
    by (cases "classify k r (evs ! (j - n))"; cases "encode_event_xdr k (evs ! (j - n))")
      (auto simp: facts_of_def build_fact_def order_key_def)
  with \<open>n \<le> j\<close> \<open>j < n + length evs\<close> show ?thesis by blast
qed

lemma spec_facts_sorted:
  "n + length evs \<le> 2 ^ 32 \<Longrightarrow> sorted_wrt (<) (map order_key (spec_facts k r tx n evs))"
proof (induction evs arbitrary: n)
  case Nil
  show ?case by (simp add: spec_facts_def)
next
  case (Cons e evs)
  have s: "spec_facts k r tx n (e # evs) = facts_of k r tx (n, e) @ spec_facts k r tx (Suc n) evs"
    by (simp add: spec_facts_def)
  have "order_key x < order_key y"
    if x: "x \<in> set (facts_of k r tx (n, e))" and y: "y \<in> set (spec_facts k r tx (Suc n) evs)" for x y
  proof -
    from x have "order_key x = OrderKey (tx_ledger tx) (tx_index tx) (of_nat n)"
      by (cases "classify k r e"; cases "encode_event_xdr k e")
        (auto simp: facts_of_def build_fact_def order_key_def)
    moreover obtain j where "Suc n \<le> j" and "j < Suc n + length evs"
      and "order_key y = OrderKey (tx_ledger tx) (tx_index tx) (of_nat j)"
      using spec_facts_mem [OF y] by blast
    moreover from this(2) have "j < 2 ^ 32" using Cons.prems by simp
    ultimately show ?thesis by (simp add: less_order_key_def of_nat_u32_less)
  qed
  moreover have "sorted_wrt (<) (map order_key (facts_of k r tx (n, e)))"
    by (cases "classify k r e"; cases "encode_event_xdr k e") (simp_all add: facts_of_def)
  ultimately show ?case using Cons by (simp add: s sorted_wrt_append)
qed

text \<open>The number of events of a transaction (its operations' answers, failures counted as none).\<close>

definition event_count :: "ledger_tx \<Rightarrow> nat" where
  "event_count tx = sum_list (map (\<lambda>op. case op of Ret evs \<Rightarrow> length evs | _ \<Rightarrow> 0) (tx_ops tx))"

lemma tx_facts_spec:
  "tx_facts k r tx = [] \<or> (\<exists>evs. tx_facts k r tx = spec_facts k r tx 0 evs \<and> length evs = event_count tx)"
proof (cases "tx_facts k r tx = []")
  case False
  then obtain out where "detect_from_transaction k r tx = Ret out" and t: "tx_facts k r tx = out"
    by (cases "detect_from_transaction k r tx"; cases "tx_successful tx = Ret True") (simp_all add: tx_facts_def)
  then obtain evss where o: "tx_ops tx = map Ret evss" and out: "out = spec_facts k r tx 0 (concat evss)"
    using detect_from_transaction_RetD by blast
  have "length (concat evss) = event_count tx"
    by (simp add: event_count_def o length_concat comp_def)
  with t out show ?thesis by blast
qed simp

lemma tx_facts_sorted:
  assumes "event_count tx \<le> 2 ^ 32"
  shows "sorted_wrt (<) (map order_key (tx_facts k r tx))"
    and "ev \<in> set (tx_facts k r tx) \<Longrightarrow> ok_ledger (order_key ev) = tx_ledger tx \<and> ok_tx (order_key ev) = tx_index tx"
  using tx_facts_spec [of k r tx] assms spec_facts_sorted [of 0 _ k r tx] spec_facts_mem [of ev k r tx 0]
  by fastforce+

text \<open>
  The facts of a ledger are produced in the documented order, with pairwise different keys: if the
  SDK delivers the transactions of one ledger in increasing application order and no transaction has
  more than \<open>2 ^ 32\<close> events, the keys \<open>(ledger_seq, tx_index, event_index)\<close> of the returned facts are
  strictly increasing. The 32-bit running counter does not wrap.
\<close>

theorem facts_in_documented_order:
  assumes "process_transactions k poll txs r = (r', Ret (events, active))"
    and "sorted_wrt (<) (map tx_index txs)"
    and "\<forall>tx\<in>set txs. tx_ledger tx = seq \<and> event_count tx \<le> 2 ^ 32"
  shows "sorted_wrt (<) (map order_key events)"
  unfolding process_transactions_Ret(2) [OF assms(1)]
  using assms(2,3)
proof (induction txs)
  case (Cons tx txs)
  have "order_key x < order_key y"
    if x: "x \<in> set (tx_facts k r' tx)" and t: "t \<in> set txs" and y: "y \<in> set (tx_facts k r' t)" for x y t
  proof -
    have c: "event_count tx \<le> 2 ^ 32" "event_count t \<le> 2 ^ 32" using Cons.prems(2) t by auto
    have "tx_index tx < tx_index t" using Cons.prems(1) t by auto
    with tx_facts_sorted(2) [OF c(1) x] tx_facts_sorted(2) [OF c(2) y] Cons.prems(2) t
    show ?thesis by (simp add: less_order_key_def)
  qed
  then show ?case using Cons tx_facts_sorted(1) [of tx k r'] by (auto simp: sorted_wrt_append)
qed simp

theorem facts_in_documented_order_witness: "sorted_wrt (<) (map order_key sample_facts)"
  by (rule facts_in_documented_order [OF sample_process, where seq = 7])
    (simp_all add: sample_defs event_count_def)

end
