(* ===== verification/Envelope.thy ===== *)
theory Envelope
  imports Detection StateDetector
begin

text \<open>
  \<open>internal/events/envelope.go\<close>: the wire contract. The builders stamp \<open>time.Now()\<close>, which is their
  argument \<open>now\<close>. A Go \<open>error\<close> result is an option, \<open>None\<close> being nil.
\<close>

section \<open>The envelope\<close>

definition current_schema_version :: string where "current_schema_version = ''1.1''"
definition control_kind_gap_detected :: string where "control_kind_gap_detected = ''gap_detected''"

record envelope =
  en_schema_version :: string
  en_type :: string
  en_network :: string
  en_contract_id :: string
  en_ledger_seq :: u32
  en_ledger_closed_at :: time
  en_tx_hash :: string
  en_tx_index :: u32
  en_event_kind :: string
  en_event_index :: u32
  en_state_change_type :: string
  en_message_id :: string
  en_published_at :: time
  en_raw_xdr :: string
  en_control_kind :: string
  en_gap_from :: u32
  en_gap_to :: u32
  en_reason :: string
  en_detected_at :: time

text \<open>The zero value of the struct, which the composite literals of the builders start from.\<close>

definition zero_envelope :: envelope where
  "zero_envelope = \<lparr>en_schema_version = [], en_type = [], en_network = [], en_contract_id = [], en_ledger_seq = 0,
     en_ledger_closed_at = 0, en_tx_hash = [], en_tx_index = 0, en_event_kind = [], en_event_index = 0,
     en_state_change_type = [], en_message_id = [], en_published_at = 0, en_raw_xdr = [], en_control_kind = [],
     en_gap_from = 0, en_gap_to = 0, en_reason = [], en_detected_at = 0\<rparr>"

definition new_message_id :: "string \<Rightarrow> u32 \<Rightarrow> string" where
  "new_message_id tx i = tx @ '':'' @ show_u32 i"

definition from_escrow_event :: "time \<Rightarrow> string \<Rightarrow> escrow_event \<Rightarrow> envelope" where
  "from_escrow_event now network ev = zero_envelope\<lparr>
     en_schema_version := current_schema_version, en_type := event_type_string (ee_type ev), en_network := network,
     en_contract_id := ee_escrow_id ev, en_ledger_seq := ee_ledger_seq ev, en_ledger_closed_at := ee_closed_at ev,
     en_tx_hash := ee_tx_hash ev, en_tx_index := ee_tx_index ev, en_event_kind := ee_event_kind ev,
     en_event_index := ee_event_index ev, en_message_id := new_message_id (ee_tx_hash ev) (ee_event_index ev),
     en_published_at := now, en_raw_xdr := ee_raw_xdr ev\<rparr>"

definition new_state_message_id :: "string \<Rightarrow> u32 \<Rightarrow> string" where
  "new_state_message_id cid seq = cid @ '':'' @ show_u32 seq"

definition from_state_change :: "time \<Rightarrow> string \<Rightarrow> state_change \<Rightarrow> envelope" where
  "from_state_change now network sc = zero_envelope\<lparr>
     en_schema_version := current_schema_version, en_type := ''state'', en_network := network,
     en_contract_id := sc_escrow_id sc, en_ledger_seq := sc_ledger_seq sc, en_ledger_closed_at := sc_closed_at sc,
     en_state_change_type := sc_type sc, en_message_id := new_state_message_id (sc_escrow_id sc) (sc_ledger_seq sc),
     en_published_at := now, en_raw_xdr := sc_raw_xdr sc\<rparr>"

definition new_gap_message_id :: "string \<Rightarrow> u32 \<Rightarrow> u32 \<Rightarrow> string" where
  "new_gap_message_id network a b = ''gap:'' @ network @ '':'' @ show_u32 a @ '':'' @ show_u32 b"

definition from_gap :: "time \<Rightarrow> string \<Rightarrow> u32 \<Rightarrow> u32 \<Rightarrow> string \<Rightarrow> time \<Rightarrow> envelope" where
  "from_gap now network a b reason detected = zero_envelope\<lparr>
     en_schema_version := current_schema_version, en_type := ''control'', en_control_kind := control_kind_gap_detected,
     en_network := network, en_ledger_seq := b + 1, en_gap_from := a, en_gap_to := b, en_reason := reason,
     en_detected_at := detected, en_message_id := new_gap_message_id network a b, en_published_at := now\<rparr>"

definition routing_key :: "envelope \<Rightarrow> string" where
  "routing_key e =
     (let kind = (if en_type e = ''state'' then en_state_change_type e
                  else if en_type e = ''control'' then en_control_kind e else en_event_kind e)
      in ''stellar.'' @ en_network e @ ''.escrow.'' @ en_type e @ ''.'' @ kind)"

definition validate :: "envelope \<Rightarrow> err option" where
  "validate e =
     (if en_schema_version e = [] then Some (ErrEnvelopeInvalid ''missing schema_version'')
      else if en_type e = [] then Some (ErrEnvelopeInvalid ''missing type'')
      else if en_network e = [] then Some (ErrEnvelopeInvalid ''missing network'')
      else if en_message_id e = [] then Some (ErrEnvelopeInvalid ''missing message_id'')
      else if en_ledger_seq e = 0 then Some (ErrEnvelopeInvalid ''ledger_seq must be > 0'')
      else if en_type e = ''event'' \<or> en_type e = ''deposit'' then
        (if en_contract_id e = [] then Some (ErrEnvelopeInvalid ''missing contract_id'')
         else if en_raw_xdr e = [] then Some (ErrEnvelopeInvalid ''missing raw_xdr'')
         else if en_event_kind e = [] then Some (ErrEnvelopeInvalid (''missing event_kind for '' @ en_type e))
         else if en_tx_hash e = [] then Some (ErrEnvelopeInvalid (''missing tx_hash for '' @ en_type e))
         else None)
      else if en_type e = ''state'' then
        (if en_contract_id e = [] then Some (ErrEnvelopeInvalid ''missing contract_id'')
         else if en_state_change_type e = [] then Some (ErrEnvelopeInvalid ''missing state_change_type for state'')
         else if en_state_change_type e \<noteq> removed_type \<and> en_raw_xdr e = [] then Some (ErrEnvelopeInvalid ''missing raw_xdr'')
         else None)
      else if en_type e = ''control'' then
        (if en_control_kind e = [] then Some (ErrEnvelopeInvalid ''missing control_kind for control'')
         else if en_gap_from e = 0 \<or> en_gap_to e = 0 \<or> en_gap_from e > en_gap_to e
         then Some (ErrEnvelopeInvalid ''control gap range is not a valid ledger range'')
         else None)
      else Some (ErrEnvelopeInvalid ''unknown type''))"

section \<open>The JSON object\<close>

text \<open>
  \<open>json.Marshal\<close> of the struct as the tags prescribe it: the members in the order of the fields, a
  member tagged \<open>omitempty\<close> or \<open>omitzero\<close> left out when its value is zero, and every string coerced to
  UTF-8. Numbers and times are kept as values: their rendering is the library's.
\<close>

datatype json_value = JString string | JUint u32 | JTime time

definition omit :: "bool \<Rightarrow> string \<Rightarrow> json_value \<Rightarrow> (string \<times> json_value) list" where
  "omit zero name v = (if zero then [] else [(name, v)])"

definition json_object :: "envelope \<Rightarrow> (string \<times> json_value) list" where
  "json_object e =
     [(''schema_version'', JString (json_text (en_schema_version e))), (''type'', JString (json_text (en_type e))),
      (''network'', JString (json_text (en_network e)))] @
     omit (en_contract_id e = []) ''contract_id'' (JString (json_text (en_contract_id e))) @
     [(''ledger_seq'', JUint (en_ledger_seq e))] @
     omit (en_ledger_closed_at e = 0) ''ledger_closed_at'' (JTime (en_ledger_closed_at e)) @
     omit (en_tx_hash e = []) ''tx_hash'' (JString (json_text (en_tx_hash e))) @
     omit (en_tx_index e = 0) ''tx_index'' (JUint (en_tx_index e)) @
     omit (en_event_kind e = []) ''event_kind'' (JString (json_text (en_event_kind e))) @
     omit (en_event_index e = 0) ''event_index'' (JUint (en_event_index e)) @
     omit (en_state_change_type e = []) ''state_change_type'' (JString (json_text (en_state_change_type e))) @
     [(''message_id'', JString (json_text (en_message_id e))), (''published_at'', JTime (en_published_at e)),
      (''raw_xdr'', JString (json_text (en_raw_xdr e)))] @
     omit (en_control_kind e = []) ''control_kind'' (JString (json_text (en_control_kind e))) @
     omit (en_gap_from e = 0) ''gap_from_ledger'' (JUint (en_gap_from e)) @
     omit (en_gap_to e = 0) ''gap_to_ledger'' (JUint (en_gap_to e)) @
     omit (en_reason e = []) ''reason'' (JString (json_text (en_reason e))) @
     omit (en_detected_at e = 0) ''detected_at'' (JTime (en_detected_at e))"


lemma map_of_omit: "map_of (omit z n v @ rest) m = (if \<not> z \<and> m = n then Some v else map_of rest m)"
  "map_of (omit z n v) m = (if \<not> z \<and> m = n then Some v else None)"
  by (simp_all add: omit_def)

lemma json_members:
  "map_of (json_object e) ''schema_version'' = Some (JString (json_text (en_schema_version e)))"
  "map_of (json_object e) ''type'' = Some (JString (json_text (en_type e)))"
  "map_of (json_object e) ''network'' = Some (JString (json_text (en_network e)))"
  "map_of (json_object e) ''contract_id'' = (if en_contract_id e = [] then None else Some (JString (json_text (en_contract_id e))))"
  "map_of (json_object e) ''ledger_seq'' = Some (JUint (en_ledger_seq e))"
  "map_of (json_object e) ''ledger_closed_at'' = (if en_ledger_closed_at e = 0 then None else Some (JTime (en_ledger_closed_at e)))"
  "map_of (json_object e) ''tx_hash'' = (if en_tx_hash e = [] then None else Some (JString (json_text (en_tx_hash e))))"
  "map_of (json_object e) ''tx_index'' = (if en_tx_index e = 0 then None else Some (JUint (en_tx_index e)))"
  "map_of (json_object e) ''event_kind'' = (if en_event_kind e = [] then None else Some (JString (json_text (en_event_kind e))))"
  "map_of (json_object e) ''event_index'' = (if en_event_index e = 0 then None else Some (JUint (en_event_index e)))"
  "map_of (json_object e) ''state_change_type'' = (if en_state_change_type e = [] then None else Some (JString (json_text (en_state_change_type e))))"
  "map_of (json_object e) ''message_id'' = Some (JString (json_text (en_message_id e)))"
  "map_of (json_object e) ''published_at'' = Some (JTime (en_published_at e))"
  "map_of (json_object e) ''raw_xdr'' = Some (JString (json_text (en_raw_xdr e)))"
  "map_of (json_object e) ''control_kind'' = (if en_control_kind e = [] then None else Some (JString (json_text (en_control_kind e))))"
  "map_of (json_object e) ''gap_from_ledger'' = (if en_gap_from e = 0 then None else Some (JUint (en_gap_from e)))"
  "map_of (json_object e) ''gap_to_ledger'' = (if en_gap_to e = 0 then None else Some (JUint (en_gap_to e)))"
  "map_of (json_object e) ''reason'' = (if en_reason e = [] then None else Some (JString (json_text (en_reason e))))"
  "map_of (json_object e) ''detected_at'' = (if en_detected_at e = 0 then None else Some (JTime (en_detected_at e)))"
  by (simp_all only: json_object_def append_Cons append_Nil append_assoc map_of_omit map_of.simps fst_conv snd_conv fun_upd_apply)
    simp_all

text \<open>
  The order key of the first event of a transaction is not on the wire: the object of an event with
  index 0 has no member \<open>event_index\<close>, and that of transaction index 0 no \<open>tx_index\<close>; every other
  value is there.
\<close>

theorem zero_index_not_on_wire:
  "map_of (json_object (from_escrow_event now network ev)) ''event_index'' =
     (if ee_event_index ev = 0 then None else Some (JUint (ee_event_index ev))) \<and>
   map_of (json_object (from_escrow_event now network ev)) ''tx_index'' =
     (if ee_tx_index ev = 0 then None else Some (JUint (ee_tx_index ev)))"
  by (simp add: json_members from_escrow_event_def)

section \<open>Message ids\<close>

lemma append_sep_inj:
  assumes "c \<notin> set a" and "c \<notin> set b"
  shows "x @ c # a = y @ c # b \<longleftrightarrow> x = y \<and> a = b"
  using split_last_unique [OF _ assms] by auto

lemma new_message_id_inj: "new_message_id h i = new_message_id h' i' \<longleftrightarrow> h = h' \<and> i = i'"
  by (simp add: new_message_id_def append_sep_inj)

lemma new_state_message_id_inj: "new_state_message_id c i = new_state_message_id c' i' \<longleftrightarrow> c = c' \<and> i = i'"
  by (simp add: new_state_message_id_def append_sep_inj)

lemma new_gap_message_id_inj:
  "new_gap_message_id n a b = new_gap_message_id n' a' b' \<longleftrightarrow> n = n' \<and> a = a' \<and> b = b'"
proof -
  have "new_gap_message_id n a b = (''gap:'' @ n @ '':'' @ show_u32 a) @ CHR '':'' # show_u32 b" for n a b
    by (simp add: new_gap_message_id_def)
  then have "new_gap_message_id n a b = new_gap_message_id n' a' b' \<longleftrightarrow>
      ''gap:'' @ n @ '':'' @ show_u32 a = ''gap:'' @ n' @ '':'' @ show_u32 a' \<and> b = b'"
    by (simp only: append_sep_inj show_u32_no_colon not_False_eq_True show_u32_inj)
  also have "(''gap:'' @ n @ '':'' @ show_u32 a = ''gap:'' @ n' @ '':'' @ show_u32 a') \<longleftrightarrow>
      n @ CHR '':'' # show_u32 a = n' @ CHR '':'' # show_u32 a'" by simp
  also have "\<dots> \<longleftrightarrow> n = n' \<and> a = a'" by (simp add: append_sep_inj)
  finally show ?thesis by blast
qed

text \<open>The first character of a message id tells its kind: a hexadecimal digit, \<open>C\<close>, or \<open>g\<close>.\<close>

lemma hex_char_less: "n < 16 \<Longrightarrow> hex_char n \<noteq> CHR ''C'' \<and> hex_char n \<noteq> CHR ''g''"
  by (drule lt16_cases) (auto simp: hex_char_def nth_Cons')

lemma hd_hex_encode: "h \<noteq> [] \<Longrightarrow> \<exists>n < 16. \<exists>t. hex_encode h = hex_char n # t"
  by (cases h) (auto intro: unat_byte_bounds)

text \<open>
  C30. Message ids identify facts. The id of an event is determined by, and determines, its transaction
  and index; that of a state its escrow and ledger; that of a gap its network and both ends, whatever
  characters the network's name has. Ids of different kinds never meet, given that contract addresses
  start with \<open>C\<close> and transaction hashes are not empty.
\<close>

theorem message_ids_identify:
  assumes "h \<noteq> []" and "hd c = CHR ''C''" and "c \<noteq> []"
  shows "(new_message_id (hex_encode h) i = new_message_id (hex_encode h') i' \<longleftrightarrow> h = h' \<and> i = i') \<and>
    (new_state_message_id c s = new_state_message_id c' s' \<longleftrightarrow> c = c' \<and> s = s') \<and>
    (new_gap_message_id n a b = new_gap_message_id n' a' b' \<longleftrightarrow> n = n' \<and> a = a' \<and> b = b') \<and>
    new_message_id (hex_encode h) i \<noteq> new_state_message_id c s \<and>
    new_message_id (hex_encode h) i \<noteq> new_gap_message_id n a b \<and>
    new_state_message_id c s \<noteq> new_gap_message_id n a b"
proof -
  have inj: "hex_encode h = hex_encode h' \<longleftrightarrow> h = h'" by (metis hex_decode_encode option.inject)
  obtain m t where m: "m < 16" "hex_encode h = hex_char m # t" using hd_hex_encode [OF assms(1)] by blast
  obtain c0 where c0: "c = CHR ''C'' # c0" using assms(2,3) by (cases c) auto
  show ?thesis
    using hex_char_less [OF m(1)]
    by (simp add: new_message_id_inj new_state_message_id_inj new_gap_message_id_inj inj)
      (simp add: m(2) c0 new_message_id_def new_state_message_id_def new_gap_message_id_def)
qed

lemma message_ids_identify_witness:
  "new_message_id (hex_encode [1, 2]) 3 \<noteq> new_state_message_id ''CA'' 3 \<and>
   new_message_id (hex_encode [1, 2]) 3 \<noteq> new_message_id (hex_encode [1]) 23"
  using message_ids_identify [of "[1, 2]" "''CA''" 3 "[1]" 23 3 "''CA''" 3 "''n''" 1 1 "''n''" 1 1] by simp


section \<open>What the builders produce is publishable\<close>

lemma fact_fields:
  assumes "process_transactions k poll txs r = (r', Ret (events, active))" and "ev \<in> set events"
  obtains tx e where "tx \<in> set txs" "is_escrow r' (ee_escrow_id ev)" "ee_tx_hash ev = hex_encode (tx_hash tx)"
    "ee_ledger_seq ev = tx_ledger tx" "encode_event_xdr k e = Some (ee_raw_xdr ev)"
    "ee_type ev = EscrowEventTypeDeposit \<longrightarrow> ee_event_kind ev = ''token_transfer''"
proof -
  from process_transactions_Ret(2) [OF assms(1)] assms(2)
  obtain tx where tx: "tx \<in> set txs" "ev \<in> set (tx_facts k r' tx)" by auto
  from tx(2) obtain evss i e c raw where c: "classify k r' e = Some c" and e: "encode_event_xdr k e = Some raw"
    and ev: "ev = build_fact tx (of_nat i) c raw" by (rule tx_facts_mem)
  obtain ty cid kind where cc: "c = (ty, cid, kind)" by (cases c)
  note S = classify_Some [OF c [unfolded cc]]
  show ?thesis
    by (rule that [OF tx(1)]) (use S e in \<open>auto simp: ev build_fact_def cc\<close>)
qed

lemma validate_class: "validate e = Some x \<Longrightarrow> \<exists>m. x = ErrEnvelopeInvalid m"
  by (auto simp: validate_def split: if_splits)

lemma validate_fact:
  assumes "network \<noteq> []" and "ee_escrow_id ev \<noteq> []" and "ee_raw_xdr ev \<noteq> []" and "ee_ledger_seq ev \<noteq> 0"
    and "ee_tx_hash ev \<noteq> []"
  shows "validate (from_escrow_event now network ev) =
    (if ee_event_kind ev = [] then Some (ErrEnvelopeInvalid (''missing event_kind for '' @ event_type_string (ee_type ev))) else None)"
  using assms by (cases "ee_type ev")
    (simp_all add: validate_def from_escrow_event_def current_schema_version_def new_message_id_def)

lemma validate_state_change:
  assumes "network \<noteq> []" and "sc_escrow_id sc \<noteq> []" and "sc_ledger_seq sc \<noteq> 0" and "sc_type sc \<noteq> []"
    and "sc_type sc = removed_type \<or> sc_raw_xdr sc \<noteq> []"
  shows "validate (from_state_change now network sc) = None"
  using assms by (simp add: validate_def from_state_change_def current_schema_version_def new_state_message_id_def)

lemma validate_gap:
  "validate (from_gap now network a b reason detected) = None \<longleftrightarrow>
     network \<noteq> [] \<and> b + 1 \<noteq> 0 \<and> a \<noteq> 0 \<and> b \<noteq> 0 \<and> a \<le> b"
  by (auto simp: validate_def from_gap_def current_schema_version_def new_gap_message_id_def
        control_kind_gap_detected_def)

text \<open>
  What the detector forwards and what \<open>Validate\<close> accepts do not agree. The envelope of a detected fact
  is valid exactly when its kind is not empty: every deposit is, and an event whose first topic is not a
  (non-empty) symbol is not, although the detector forwards it on purpose.
\<close>

theorem facts_valid_iff_named:
  assumes "reg_inv r" and "process_transactions k poll txs r = (r', Ret (events, active))" and "ev \<in> set events"
    and "network \<noteq> []" and "\<forall>tx\<in>set txs. tx_ledger tx \<noteq> 0 \<and> tx_hash tx \<noteq> []"
    and "\<forall>e. marshal_event k e \<noteq> Some []"
  shows "validate (from_escrow_event now network ev) =
      (if ee_event_kind ev = [] then Some (ErrEnvelopeInvalid ''missing event_kind for event'') else None) \<and>
    (ee_type ev = EscrowEventTypeDeposit \<longrightarrow> ee_event_kind ev \<noteq> [])"
proof -
  obtain tx e where tx: "tx \<in> set txs" and m: "is_escrow r' (ee_escrow_id ev)"
    and h: "ee_tx_hash ev = hex_encode (tx_hash tx)" "ee_ledger_seq ev = tx_ledger tx"
    and raw: "encode_event_xdr k e = Some (ee_raw_xdr ev)"
    and dep: "ee_type ev = EscrowEventTypeDeposit \<longrightarrow> ee_event_kind ev = ''token_transfer''"
    by (rule fact_fields [OF assms(2,3)]) (rule that)
  have "reg_inv r'" using process_transactions_inv [OF assms(1), of k poll txs] assms(2) by simp
  with m have cid: "ee_escrow_id ev \<noteq> []" by (auto simp: is_escrow_def reg_inv_def)
  have r: "ee_raw_xdr ev \<noteq> []" using raw assms(6) by (auto simp: encode_event_xdr_def)
  have l: "ee_ledger_seq ev \<noteq> 0" "ee_tx_hash ev \<noteq> []"
    using assms(5) tx h hd_hex_encode [of "tx_hash tx"] by auto
  have ty: "ee_event_kind ev = [] \<longrightarrow> ee_type ev = EscrowEventTypeEvent"
    using dep by (cases "ee_type ev") simp_all
  have dk: "ee_type ev = EscrowEventTypeDeposit \<longrightarrow> ee_event_kind ev \<noteq> []" using dep by simp
  show ?thesis
    unfolding validate_fact [OF assms(4) cid r l, of now] using ty dk by simp
qed

definition mute_tx :: ledger_tx where
  "mute_tx = event_tx\<lparr>tx_ops := [Ret [init_event\<lparr>ce_topics := Some []\<rparr>]]\<rparr>"

definition mute_fact :: escrow_event where
  "mute_fact = build_fact mute_tx 0 (EscrowEventTypeEvent, ''C0102'', []) ''ZXY=''"

lemma mute_process:
  "process_transactions sample_sdk (\<lambda>_. False) [deploy_tx, mute_tx] sample_registry =
     (sample_registry\<lparr>escrows := {''C0102''}\<rparr>, Ret ([mute_fact], [''C0102'']))"
  by (simp add: sample_defs mute_fact_def mute_tx_def process_transactions_def discover_from_transaction_def instance_from_change_def
      register_def is_approved_hash_def detect_from_transaction_def classify_def contract_id_from_event_def
      first_topic_symbol_def v0_topics_def is_escrow_def encode_event_xdr_def build_fact_def
      b64_char_def hex_char_def nth_Cons')

lemma facts_valid_iff_named_witness:
  "validate (from_escrow_event 0 ''testnet'' mute_fact) = Some (ErrEnvelopeInvalid ''missing event_kind for event'')"
  using facts_valid_iff_named [OF sample_inv mute_process, of mute_fact "''testnet''" 0]
  by (simp add: mute_fact_def build_fact_def mute_tx_def event_tx_def deploy_tx_def sample_sdk_def)

text \<open>
  Every state change that a fetch returns makes a valid envelope, an update and a removal alike.
\<close>

theorem state_changes_valid:
  assumes "reg_inv r" and "fetch_states k rpc r ids seq closed since d = (d', Ok out)" and "sc \<in> set out"
    and "network \<noteq> []" and "seq \<noteq> 0" and "[] \<notin> set ids" and "unmarshal_entry k [] = None"
  shows "validate (from_state_change now network sc) = None"
proof -
  have ne: "ids \<noteq> []" using assms by (auto simp: fetch_states_def)
  obtain req R changes d5 where F: "fetched k rpc r ids seq closed d req R changes"
    and fin: "finish_states req changes seq closed since d5 = (d', out)"
    using fetch_states_fetched [OF assms(2) ne] by blast
  have up: "\<forall>sc\<in>set changes. sc_type sc = updated_type" using F by (simp add: fetched_def)
  have "set out \<subseteq> set changes \<union> removed_change seq closed ` set (missing_from req changes)"
    using finish_states_removed(1) [OF fin up] by (auto split: if_splits)
  with assms(3) consider "sc \<in> set changes" | "sc \<in> removed_change seq closed ` set (missing_from req changes)" by auto
  then have "sc_escrow_id sc \<noteq> [] \<and> sc_ledger_seq sc = seq \<and>
      (sc_type sc = removed_type \<or> sc_type sc = updated_type \<and> sc_raw_xdr sc \<noteq> [])"
  proof cases
    case 1
    then obtain e p where e: "entry_pick k r e = Some (sc_escrow_id sc, p)" and raw: "sc_raw_xdr sc = re_data_xdr e"
      and t: "sc_type sc = updated_type" "sc_ledger_seq sc = seq"
      using F unfolding fetched_def by blast
    from e have "is_escrow r (sc_escrow_id sc)" "re_data_xdr e \<noteq> []"
      using assms(7) by (auto simp: entry_pick_def split: option.splits if_splits)
    then show ?thesis using assms(1) raw t by (auto simp: is_escrow_def reg_inv_def)
  next
    case 2
    then show ?thesis using F assms(6) by (auto simp: removed_change_def missing_from_def fetched_def)
  qed
  then show ?thesis
    using assms(4,5) by (intro validate_state_change) (auto simp: removed_type_def updated_type_def)
qed

lemma state_changes_valid_witness:
  "validate (from_state_change 0 ''testnet'' (removed_change 9 0 gone_id)) = None"
  by (rule state_changes_valid [OF sample_inv gone_run])
    (simp_all add: gone_id_def sample_sdk_def)

text \<open>
  A gap makes a valid envelope exactly when it is a real range that ends before the last 32-bit
  ledger: for that one the stamped ledger wraps to 0.
\<close>

theorem gap_valid_iff:
  "validate (from_gap now network a b reason detected) = None \<longleftrightarrow>
     network \<noteq> [] \<and> 0 < unat a \<and> a \<le> b \<and> unat b < 2 ^ 32 - 1"
proof -
  have w: "b + 1 = 0 \<longleftrightarrow> \<not> unat b < 2 ^ 32 - 1"
  proof -
    have "unat b < 2 ^ 32" using unsigned_less [of b] by simp
    moreover have "b + 1 = 0 \<longleftrightarrow> b = - 1" by (simp add: eq_neg_iff_add_eq_0)
    moreover have "b = - 1 \<longleftrightarrow> unat b = 2 ^ 32 - 1"
      by (simp add: word_unat_eq_iff unsigned_minus_1_eq_mask mask_eq_exp_minus_1)
    ultimately show ?thesis by linarith
  qed
  show ?thesis
    using w by (auto simp: validate_gap unat_gt_0)
qed


section \<open>Routing keys\<close>

text \<open>The segments of a topic key, as a topic exchange sees them.\<close>

fun segments :: "string \<Rightarrow> string list" where
  "segments [] = [[]]"
| "segments (c # s) =
     (if c = CHR ''.'' then [] # segments s
      else case segments s of [] \<Rightarrow> [[c]] | w # ws \<Rightarrow> (c # w) # ws)"

lemma segments_nonempty [simp]: "segments s \<noteq> []"
  by (induction s) (auto split: list.splits)

lemma segments_word: "CHR ''.'' \<notin> set w \<Longrightarrow> segments w = [w]"
  by (induction w) auto

lemma segments_append: "CHR ''.'' \<notin> set w \<Longrightarrow> segments (w @ CHR ''.'' # s) = w # segments s"
  by (induction w) auto

definition kind_of :: "envelope \<Rightarrow> string" where
  "kind_of e = (if en_type e = ''state'' then en_state_change_type e
     else if en_type e = ''control'' then en_control_kind e else en_event_kind e)"

text \<open>
  The routing key has the five documented segments: when network, type and kind hold no dot, a topic
  exchange splits the key into exactly \<open>stellar\<close>, network, \<open>escrow\<close>, type and the kind that the type
  prescribes.
\<close>

theorem routing_key_segments:
  assumes "CHR ''.'' \<notin> set (en_network e)" and "CHR ''.'' \<notin> set (en_type e)" and "CHR ''.'' \<notin> set (kind_of e)"
  shows "segments (routing_key e) = [''stellar'', en_network e, ''escrow'', en_type e, kind_of e]"
proof -
  have "routing_key e = ''stellar'' @ CHR ''.'' # en_network e @ CHR ''.'' # ''escrow'' @ CHR ''.'' # en_type e @ CHR ''.'' # kind_of e"
    by (simp add: routing_key_def kind_of_def Let_def)
  moreover have "CHR ''.'' \<notin> set ''stellar''" and "CHR ''.'' \<notin> set ''escrow''" by simp_all
  ultimately show ?thesis
    using assms by (simp only: segments_append segments_word not_False_eq_True)
qed

lemma routing_key_segments_witness:
  "segments (routing_key (from_gap 0 ''testnet'' 3 9 ''rpc_retention'' 0)) = [''stellar'', ''testnet'', ''escrow'', ''control'', ''gap_detected'']"
  using routing_key_segments [of "from_gap 0 ''testnet'' 3 9 ''rpc_retention'' 0"]
  by (simp add: from_gap_def kind_of_def control_kind_gap_detected_def)

end
