(* ===== verification/Sink.thy ===== *)
theory Sink
  imports Envelope
begin

text \<open>
  The output side: the contract of \<open>internal/sink/sink.go\<close> as a locale, the loops over envelopes that
  the ingest loop runs over a sink, and the retry policy of \<open>internal/ingest/backpressure.go\<close>, which
  is itself a sink around a sink.
\<close>

section \<open>Answers of a sink\<close>

text \<open>\<open>Blocked\<close> is a call that never returns; \<open>Crashed\<close> one that panics.\<close>

datatype publish_result = Delivered | Refused err | Blocked | Crashed

type_synonym 's publisher = "envelope \<Rightarrow> 's \<Rightarrow> 's \<times> publish_result"

text \<open>The loops \<open>for _, x := range xs { if err := out.Publish(...); err != nil { return err } }\<close>.\<close>

fun publish_all :: "'s publisher \<Rightarrow> envelope list \<Rightarrow> 's \<Rightarrow> 's \<times> publish_result" where
  "publish_all pub [] s = (s, Delivered)"
| "publish_all pub (e # es) s =
     (case pub e s of
        (s', Delivered) \<Rightarrow> publish_all pub es s'
      | (s', r) \<Rightarrow> (s', r))"

section \<open>Backpressure\<close>

definition publish_retry_initial_backoff :: duration where "publish_retry_initial_backoff = second"
definition publish_retry_max_backoff :: duration where "publish_retry_max_backoff = 60 * second"

text \<open>
  \<open>wait i d\<close> is the error of the \<open>i\<close>-th wait, of length \<open>d\<close>, if the context ends during it. The
  number of attempts has no bound, so the loop is partial: \<open>None\<close> is a loop that never ends. The list of
  waits is a history.
\<close>

partial_function (option) bp_loop ::
  "'s publisher \<Rightarrow> (nat \<Rightarrow> duration \<Rightarrow> err option) \<Rightarrow> duration \<Rightarrow> envelope \<Rightarrow> duration \<Rightarrow> duration list \<Rightarrow> 's
    \<Rightarrow> ('s \<times> publish_result \<times> duration list) option" where
  "bp_loop inner wait maxb env backoff ws s =
     (case inner env s of (s', r) \<Rightarrow>
        if r \<noteq> Refused ErrSinkPublishRejected then Some (s', r, ws)
        else (case wait (length ws) backoff of
                Some werr \<Rightarrow> Some (s', Refused werr, ws)
              | None \<Rightarrow> bp_loop inner wait maxb env (next_backoff maxb backoff) (ws @ [backoff]) s'))"

declare bp_loop.simps [code]

definition bp_publish :: "'s publisher \<Rightarrow> (nat \<Rightarrow> duration \<Rightarrow> err option) \<Rightarrow> 's publisher" where
  "bp_publish inner wait env s =
     (case bp_loop inner wait publish_retry_max_backoff env publish_retry_initial_backoff [] s of
        None \<Rightarrow> (s, Blocked)
      | Some (s', r, ws) \<Rightarrow> (s', r))"

section \<open>The contract of a sink\<close>

text \<open>
  \<open>acc s\<close> are the ids of the messages that the destination has taken responsibility for. Success means
  that this one was added; the one class of error that callers may retry means that nothing was.
\<close>

locale sink =
  fixes publish :: "envelope \<Rightarrow> 's \<Rightarrow> 's \<times> publish_result"
    and acc :: "'s \<Rightarrow> string list"
  assumes delivered: "publish e s = (s', Delivered) \<Longrightarrow> acc s' = acc s @ [en_message_id e]"
    and kept: "publish e s = (s', r) \<Longrightarrow> prefix (acc s) (acc s')"
    and rejected: "publish e s = (s', Refused ErrSinkPublishRejected) \<Longrightarrow> acc s' = acc s"
begin

lemma publish_all_delivered:
  "publish_all publish es s = (s', Delivered) \<Longrightarrow> acc s' = acc s @ map en_message_id es"
proof (induction es arbitrary: s)
  case (Cons e es)
  then obtain s1 where p: "publish e s = (s1, Delivered)" and q: "publish_all publish es s1 = (s', Delivered)"
    by (auto split: prod.splits publish_result.splits)
  from Cons.IH [OF q] delivered [OF p] show ?case by simp
qed simp

lemma publish_all_kept: "publish_all publish es s = (s', r) \<Longrightarrow> prefix (acc s) (acc s')"
proof (induction es arbitrary: s)
  case (Cons e es)
  obtain s1 r1 where p: "publish e s = (s1, r1)" by (cases "publish e s")
  note K = kept [OF p]
  show ?case
  proof (cases "r1 = Delivered")
    case True
    with Cons.prems p have "publish_all publish es s1 = (s', r)" by simp
    from Cons.IH [OF this] K show ?thesis by (rule prefix_order.order_trans [rotated])
  next
    case False
    with Cons.prems p have "s1 = s'" by (cases r1) simp_all
    with K show ?thesis by simp
  qed
qed simp

text \<open>Retrying a rejected publish keeps the contract: the message is taken once, however often it was refused.\<close>

lemma bp_loop_contract:
  "bp_loop inner wait maxb env backoff ws s = Some y \<Longrightarrow> inner = publish \<Longrightarrow>
     (fst (snd y) = Delivered \<longrightarrow> acc (fst y) = acc s @ [en_message_id env]) \<and> prefix (acc s) (acc (fst y)) \<and>
     (fst (snd y) = Refused ErrSinkPublishRejected \<longrightarrow> acc (fst y) = acc s)"
proof (induction rule: bp_loop.raw_induct [rotated, consumes 1, case_names step])
  case (step loop inner wait maxb env backoff ws s y)
  obtain s1 r where p: "publish env s = (s1, r)" by (cases "publish env s")
  show ?case
  proof (cases "r = Refused ErrSinkPublishRejected")
    case False
    with step.hyps step.prems p show ?thesis using delivered [of env s s1] kept [OF p] by auto
  next
    case True
    note R = rejected [OF p [unfolded True]]
    show ?thesis
    proof (cases "wait (length ws) backoff")
      case None
      with step.hyps step.prems p True have "loop inner wait maxb env (next_backoff maxb backoff) (ws @ [backoff]) s1 = Some y" by simp
      from step.IH [OF this step.prems] show ?thesis by (simp add: R)
    next
      case (Some werr)
      with step.hyps step.prems p True show ?thesis using R by auto
    qed
  qed
qed

lemma bp_publish_delivered:
  "bp_publish publish wait e s = (s', Delivered) \<Longrightarrow> acc s' = acc s @ [en_message_id e]"
  using bp_loop_contract [of publish wait _ e _ "[]" s]
  by (auto simp: bp_publish_def split: option.splits prod.splits)

lemma bp_publish_rejected:
  "bp_publish publish wait e s = (s', Refused ErrSinkPublishRejected) \<Longrightarrow> acc s' = acc s"
  using bp_loop_contract [of publish wait _ e _ "[]" s]
  by (auto simp: bp_publish_def split: option.splits prod.splits)

lemma bp_publish_kept:
  "bp_publish publish wait e s = (s', r) \<Longrightarrow> prefix (acc s) (acc s')"
  using bp_loop_contract [of publish wait _ e _ "[]" s]
  by (auto simp: bp_publish_def split: option.splits prod.splits)

end

section \<open>What the retry loop does\<close>

lemma bp_loop_never_rejected:
  "bp_loop inner wait maxb env backoff ws s = Some y \<Longrightarrow> \<forall>i d. wait i d \<noteq> Some ErrSinkPublishRejected \<Longrightarrow>
     fst (snd y) \<noteq> Refused ErrSinkPublishRejected"
proof (induction rule: bp_loop.raw_induct [rotated, consumes 1, case_names step])
  case (step loop inner wait maxb env backoff ws s y)
  from step.hyps step.prems show ?case
    by (auto split: prod.splits if_splits option.splits dest: step.IH)
qed

text \<open>The state after the inner sink has been asked \<open>n\<close> times.\<close>

fun attempts :: "'s publisher \<Rightarrow> envelope \<Rightarrow> nat \<Rightarrow> 's \<Rightarrow> 's" where
  "attempts inner env 0 s = s"
| "attempts inner env (Suc n) s = attempts inner env n (fst (inner env s))"

lemma bp_loop_unrolled:
  assumes "\<forall>i < n. snd (inner env (attempts inner env i s)) = Refused ErrSinkPublishRejected"
    and "snd (inner env (attempts inner env n s)) = r" and "r \<noteq> Refused ErrSinkPublishRejected"
    and "\<forall>i < n. wait (length ws + i) (backoffs maxb b n ! i) = None"
  shows "bp_loop inner wait maxb env b ws s = Some (fst (inner env (attempts inner env n s)), r, ws @ backoffs maxb b n)"
  using assms
proof (induction n arbitrary: s ws b)
  case 0
  then show ?case by (subst bp_loop.simps) (auto split: prod.splits)
next
  case (Suc n)
  obtain s1 where p: "inner env s = (s1, Refused ErrSinkPublishRejected)"
    using Suc.prems(1) by (metis attempts.simps(1) prod.collapse zero_less_Suc)
  have w: "wait (length ws) b = None" using Suc.prems(4) by force
  have "bp_loop inner wait maxb env (next_backoff maxb b) (ws @ [b]) s1 =
      Some (fst (inner env (attempts inner env n s1)), r, (ws @ [b]) @ backoffs maxb (next_backoff maxb b) n)"
  proof (rule Suc.IH)
    show "\<forall>i<n. snd (inner env (attempts inner env i s1)) = Refused ErrSinkPublishRejected"
      using Suc.prems(1) p by (metis Suc_less_eq attempts.simps(2) fst_conv)
    show "\<forall>i<n. wait (length (ws @ [b]) + i) (backoffs maxb (next_backoff maxb b) n ! i) = None"
      using Suc.prems(4) by force
  qed (use Suc.prems p in auto)
  then show ?case using p w by (subst bp_loop.simps) simp
qed

text \<open>
  C28. The retry policy. If the inner sink rejects an envelope \<open>n\<close> times and then answers otherwise, and
  the context does not end meanwhile, \<open>Publish\<close> returns that answer, after exactly \<open>n + 1\<close> attempts and
  the \<open>n\<close> waits of 1, 2, 4, ... seconds, none longer than a minute.
\<close>

theorem backpressure_returns_first_answer:
  assumes "\<forall>i < n. snd (inner env (attempts inner env i s)) = Refused ErrSinkPublishRejected"
    and "snd (inner env (attempts inner env n s)) = r" and "r \<noteq> Refused ErrSinkPublishRejected"
    and "\<forall>i d. i < n \<longrightarrow> wait i d = None"
  shows "bp_publish inner wait env s = (attempts inner env (Suc n) s, r) \<and>
    (\<exists>ws. bp_loop inner wait publish_retry_max_backoff env publish_retry_initial_backoff [] s
        = Some (attempts inner env (Suc n) s, r, ws) \<and>
      length ws = n \<and> (\<forall>i < n. ws ! i = min (2 ^ i * second) (60 * second)))"
proof -
  have a: "attempts inner env (Suc m) t = fst (inner env (attempts inner env m t))" for m t
    by (induction m arbitrary: t) simp_all
  have "bp_loop inner wait publish_retry_max_backoff env publish_retry_initial_backoff [] s =
      Some (attempts inner env (Suc n) s, r, backoffs publish_retry_max_backoff publish_retry_initial_backoff n)"
    unfolding a using bp_loop_unrolled [OF assms(1-3), of wait "[]"] assms(4) by simp
  moreover have "backoffs publish_retry_max_backoff publish_retry_initial_backoff n ! i = min (2 ^ i * second) (60 * second)"
    if "i < n" for i
    by (subst nth_backoffs)
      (use that in \<open>simp_all add: publish_retry_initial_backoff_def publish_retry_max_backoff_def second_def\<close>)
  ultimately show ?thesis by (simp add: bp_publish_def del: attempts.simps)
qed

definition full_queue :: "nat publisher" where
  "full_queue e s = (Suc s, if s < 3 then Refused ErrSinkPublishRejected else Delivered)"

lemma full_queue_attempts: "attempts full_queue e i s = i + s"
  by (induction i arbitrary: s) (simp_all add: full_queue_def)

lemma backpressure_returns_first_answer_witness:
  "bp_publish full_queue (\<lambda>_ _. None) zero_envelope 0 = (4, Delivered)"
  using backpressure_returns_first_answer [of 3 full_queue zero_envelope 0 Delivered "\<lambda>_ _. None"]
  by (simp add: full_queue_attempts del: attempts.simps) (simp add: full_queue_def)

text \<open>
  What reaches the loop is final: whatever the inner sink does, the wrapped one never reports the
  retryable class.
\<close>

theorem backpressure_errors_are_final:
  assumes "\<forall>i d. wait i d \<noteq> Some ErrSinkPublishRejected" and "bp_publish inner wait env s = (s', r)"
  shows "r \<noteq> Refused ErrSinkPublishRejected"
proof (cases "bp_loop inner wait publish_retry_max_backoff env publish_retry_initial_backoff [] s")
  case None
  with assms(2) show ?thesis by (auto simp: bp_publish_def)
next
  case (Some y)
  with assms show ?thesis using bp_loop_never_rejected [OF Some assms(1)]
    by (auto simp: bp_publish_def split: prod.splits)
qed

lemma backpressure_errors_are_final_witness:
  "snd (bp_publish (\<lambda>e s. (s, Refused ErrSinkPublishRejected)) (\<lambda>_ _. Some ErrCanceled) zero_envelope ())
     \<noteq> Refused ErrSinkPublishRejected"
  by (rule backpressure_errors_are_final [OF _ prod.collapse [symmetric]]) simp

end
