(* ===== verification/Rabbit.thy ===== *)
theory Rabbit
  imports Sink
begin

text \<open>
  \<open>internal/sink/rabbitmq/rabbitmq.go\<close>, \<open>internal/sink/noop/noop.go\<close> and
  \<open>internal/sink/factory/factory.go\<close>. The AMQP library and the broker are not part of the repository:
  \<open>broker n key msg\<close> is what they do with the \<open>n\<close>-th publish on the channel. JSON text, HMAC and SHA-256
  are the library's, fields of \<open>codec\<close>.
\<close>

section \<open>The library and the broker\<close>

text \<open>
  What the select loop of \<open>awaitConfirm\<close> sees: the confirmation resolving (acked or not), a warning
  tick, the context's end.
\<close>

datatype await_event = Resolved bool | WarnTick | CtxDone

record amqp_return =
  ret_message_id :: string
  ret_code :: u32

text \<open>
  The answer to one publish: the library's error, or a confirmation (absent when the channel is not in
  confirm mode) with the events of the wait; and the \<open>basic.return\<close> frames that have arrived when the
  wait ends, and whether the channel of returns is closed behind them.
\<close>

record broker_answer =
  ba_publish :: "err option"
  ba_confirm :: "await_event list option"
  ba_returns :: "amqp_return list"
  ba_closed :: bool

record publishing =
  pb_content_type :: string
  pb_persistent :: bool
  pb_message_id :: string
  pb_timestamp :: time
  pb_body :: "byte list"
  pb_headers :: "(string \<times> string) list"

type_synonym broker = "nat \<Rightarrow> string \<Rightarrow> publishing \<Rightarrow> broker_answer"

record codec =
  render :: "(string \<times> json_value) list \<Rightarrow> byte list option"
  hmac_sha256 :: "byte list \<Rightarrow> byte list \<Rightarrow> byte list"
  sha256 :: "byte list \<Rightarrow> byte list"

section \<open>Signatures\<close>

definition string_bytes :: "string \<Rightarrow> byte list" where
  "string_bytes s = map (\<lambda>c. of_nat (of_char c)) s"

definition sign_body :: "codec \<Rightarrow> byte list \<Rightarrow> byte list \<Rightarrow> string" where
  "sign_body k body key = hex_encode (hmac_sha256 k key body)"

definition key_fingerprint :: "codec \<Rightarrow> string \<Rightarrow> string" where
  "key_fingerprint k key = hex_encode (take 8 (sha256 k (string_bytes key)))"

definition signature_header :: string where "signature_header = ''x-tw-sig''"
definition signature_kid_header :: string where "signature_kid_header = ''x-tw-sig-kid''"

section \<open>The sink\<close>

record rabbit_config =
  cfg_url :: string
  cfg_exchange :: string
  cfg_confirms :: bool
  cfg_signature_key :: string

text \<open>
  \<open>rb_chan\<close> and \<open>rb_conn\<close> say that the handles are not nil; \<open>rb_returns\<close> is the channel of returns and
  \<open>rb_closed\<close> that it is closed. \<open>rb_sent\<close> is the history of the publishes that were handed to the library.
\<close>

record rabbit =
  rb_cfg :: rabbit_config
  rb_conn :: bool
  rb_chan :: bool
  rb_returns :: "amqp_return list"
  rb_closed :: bool
  rb_sent :: "(string \<times> publishing) list"

fun await_confirm :: "await_event list \<Rightarrow> publish_result" where
  "await_confirm [] = Blocked"
| "await_confirm (Resolved ok # es) = (if ok then Delivered else Refused ErrSinkPublishRejected)"
| "await_confirm (WarnTick # es) = await_confirm es"
| "await_confirm (CtxDone # es) = Refused ErrCanceled"

text \<open>\<open>checkReturned\<close> drains the returns that are there, up to one for this message.\<close>

fun check_returned :: "string \<Rightarrow> amqp_return list \<Rightarrow> amqp_return list \<times> publish_result" where
  "check_returned mid [] = ([], Delivered)"
| "check_returned mid (ret # rets) =
     (if ret_message_id ret \<noteq> mid then check_returned mid rets else (rets, Refused ErrSinkUnroutable))"

definition build_message :: "codec \<Rightarrow> rabbit_config \<Rightarrow> envelope \<Rightarrow> byte list \<Rightarrow> publishing" where
  "build_message k cfg env body =
     \<lparr>pb_content_type = ''application/json'', pb_persistent = True, pb_message_id = en_message_id env,
      pb_timestamp = en_published_at env, pb_body = body,
      pb_headers = (if cfg_signature_key cfg \<noteq> []
        then [(signature_header, sign_body k body (string_bytes (cfg_signature_key cfg))),
              (signature_kid_header, key_fingerprint k (cfg_signature_key cfg))]
        else [])\<rparr>"

text \<open>\<open>amqpChannel.publish\<close>: the library's answer to one mandatory publish.\<close>

definition amqp_publish :: "broker \<Rightarrow> string \<Rightarrow> publishing \<Rightarrow> rabbit \<Rightarrow> rabbit \<times> (err + await_event list option)" where
  "amqp_publish broker key msg s =
     (let a = broker (length (rb_sent s)) key msg;
          s' = s\<lparr>rb_sent := rb_sent s @ [(key, msg)], rb_returns := rb_returns s @ ba_returns a,
                 rb_closed := rb_closed s \<or> ba_closed a\<rparr>
      in case ba_publish a of Some e \<Rightarrow> (s', Inl e) | None \<Rightarrow> (s', Inr (ba_confirm a)))"

definition rabbit_publish :: "codec \<Rightarrow> broker \<Rightarrow> rabbit publisher" where
  "rabbit_publish k broker env s =
     (case validate env of Some e \<Rightarrow> (s, Refused e)
      | None \<Rightarrow>
        (case render k (json_object env) of None \<Rightarrow> (s, Refused (ErrOther ''marshaling envelope''))
         | Some body \<Rightarrow>
           if \<not> rb_chan s then (s, Crashed)
           else case amqp_publish broker (routing_key env) (build_message k (rb_cfg s) env body) s of
             (s1, Inl e) \<Rightarrow> (s1, Refused ErrSinkUnavailable)
           | (s1, Inr None) \<Rightarrow> (s1, Delivered)
           | (s1, Inr (Some events)) \<Rightarrow>
               (case await_confirm events of
                  Delivered \<Rightarrow>
                    (case check_returned (en_message_id env) (rb_returns s1) of
                       (rets, r) \<Rightarrow> (s1\<lparr>rb_returns := rets\<rparr>, r))
                | r \<Rightarrow> (s1, r))))"

text \<open>\<open>Close\<close>; \<open>cerr\<close> is the error of the connection's own close, if any.\<close>

definition rabbit_close :: "err option \<Rightarrow> rabbit \<Rightarrow> rabbit \<times> err option" where
  "rabbit_close cerr s =
     (let s1 = (if rb_chan s then s\<lparr>rb_chan := False\<rparr> else s) in
      if rb_conn s1 then (s1\<lparr>rb_conn := False\<rparr>, cerr) else (s1, None))"

section \<open>Connecting\<close>

text \<open>
  The outcomes of the library calls of \<open>connect\<close>. The first component of its result are the handles
  that it leaves open: the connection and the channel.
\<close>

record amqp_env =
  am_dial :: bool
  am_channel :: bool
  am_declare :: bool
  am_confirm :: bool

type_synonym handles = "bool \<times> bool"

definition close_conn :: "handles \<Rightarrow> handles" where "close_conn h = (False, snd h)"
definition close_chan :: "handles \<Rightarrow> handles" where "close_chan h = (fst h, False)"

definition connect_broker :: "amqp_env \<Rightarrow> rabbit_config \<Rightarrow> handles \<times> (err + rabbit)" where
  "connect_broker am cfg =
     (if \<not> am_dial am then ((False, False), Err ErrSinkUnavailable)
      else let h1 = (True, False) in
        if \<not> am_channel am then (close_conn h1, Err ErrSinkUnavailable)
        else let h2 = (True, True) in
          if \<not> am_declare am then (close_conn (close_chan h2), Err ErrSinkUnavailable)
          else if cfg_confirms cfg \<and> \<not> am_confirm am then (close_conn (close_chan h2), Err ErrSinkUnavailable)
          else (h2, Ok \<lparr>rb_cfg = cfg, rb_conn = True, rb_chan = True, rb_returns = [], rb_closed = False, rb_sent = []\<rparr>))"

definition new_rabbit :: "amqp_env \<Rightarrow> rabbit_config \<Rightarrow> handles \<times> (err + rabbit)" where
  "new_rabbit am cfg =
     (if cfg_url cfg = [] then ((False, False), Err (ErrOther ''rabbitmq: URL is required''))
      else if cfg_exchange cfg = [] then ((False, False), Err (ErrOther ''rabbitmq: Exchange is required''))
      else connect_broker am cfg)"

section \<open>The factory\<close>

datatype any_sink = NoopSink "string list" | RabbitSink rabbit

record sink_settings =
  ss_type :: string
  ss_url :: string
  ss_exchange :: string
  ss_confirms :: bool
  ss_hmac_key :: string

definition new_sink :: "amqp_env \<Rightarrow> sink_settings \<Rightarrow> err + any_sink" where
  "new_sink am cfg =
     (if ss_type cfg = ''noop'' then Ok (NoopSink [])
      else if ss_type cfg = ''rabbitmq'' then
        (case snd (new_rabbit am \<lparr>cfg_url = ss_url cfg, cfg_exchange = ss_exchange cfg, cfg_confirms = ss_confirms cfg,
             cfg_signature_key = ss_hmac_key cfg\<rparr>) of
           Err e \<Rightarrow> Err e
         | Ok s \<Rightarrow> Ok (RabbitSink s))
      else Err (ErrOther ''unsupported sink type''))"

text \<open>\<open>noop.Publish\<close> reports success for everything; its state is the history of what it discarded.\<close>

definition noop_publish :: "string list publisher" where
  "noop_publish env s = (s @ [en_message_id env], Delivered)"

definition any_publish :: "codec \<Rightarrow> broker \<Rightarrow> any_sink publisher" where
  "any_publish k broker env s =
     (case s of NoopSink h \<Rightarrow> (case noop_publish env h of (h', res) \<Rightarrow> (NoopSink h', res))
      | RabbitSink r \<Rightarrow> (case rabbit_publish k broker env r of (r', res) \<Rightarrow> (RabbitSink r', res)))"


section \<open>What the broker has taken\<close>

fun broker_answered :: "await_event list \<Rightarrow> bool option" where
  "broker_answered [] = None"
| "broker_answered (Resolved ok # es) = Some ok"
| "broker_answered (e # es) = broker_answered es"

text \<open>The broker is responsible for a message it acked, or that was sent without confirms, and did not return.\<close>

definition taken :: "publishing \<Rightarrow> broker_answer \<Rightarrow> bool" where
  "taken msg a \<longleftrightarrow> ba_publish a = None \<and>
     (case ba_confirm a of None \<Rightarrow> True
      | Some es \<Rightarrow> broker_answered es = Some True \<and> pb_message_id msg \<notin> ret_message_id ` set (ba_returns a))"

definition taken_among :: "broker \<Rightarrow> (string \<times> publishing) list \<Rightarrow> string list" where
  "taken_among broker sent = map (\<lambda>(n, key, msg). pb_message_id msg)
     (filter (\<lambda>(n, key, msg). taken msg (broker n key msg)) (enumerate 0 sent))"

definition accepted :: "broker \<Rightarrow> rabbit \<Rightarrow> string list" where
  "accepted broker s = taken_among broker (rb_sent s)"

lemma await_confirm_cases:
  "await_confirm es = Delivered \<Longrightarrow> broker_answered es = Some True"
  "await_confirm es = Refused ErrSinkPublishRejected \<Longrightarrow> broker_answered es = Some False"
  "await_confirm es = Refused e \<Longrightarrow> e = ErrSinkPublishRejected \<or> e = ErrCanceled"
  "await_confirm es \<noteq> Crashed"
  by (induction es rule: await_confirm.induct) (auto split: if_splits)

lemma check_returned_spec:
  "snd (check_returned mid rets) = (if mid \<in> ret_message_id ` set rets then Refused ErrSinkUnroutable else Delivered)"
  "suffix (fst (check_returned mid rets)) rets"
  by (induction rets) (auto simp: suffix_Cons)

lemma taken_among_append:
  "taken_among broker (sent @ [(key, msg)]) =
     taken_among broker sent @ (if taken msg (broker (length sent) key msg) then [pb_message_id msg] else [])"
  by (simp add: taken_among_def enumerate_append_eq)

text \<open>Everything a publish does that a caller can see, branch by branch.\<close>

lemma rabbit_publish_cases:
  assumes "rabbit_publish k broker env s = (s', r)"
  obtains (unsent) "s' = s" "r = Crashed \<or> (\<exists>e. r = Refused e \<and> e \<notin> {ErrSinkPublishRejected, ErrSinkUnroutable, ErrSinkUnavailable})"
      "validate env = None \<or> r = Refused (the (validate env))"
      "r = Crashed \<longrightarrow> validate env = None \<and> \<not> rb_chan s"
  | (sent) body a where "validate env = None" "rb_chan s" "render k (json_object env) = Some body"
      "a = broker (length (rb_sent s)) (routing_key env) (build_message k (rb_cfg s) env body)"
      "rb_sent s' = rb_sent s @ [(routing_key env, build_message k (rb_cfg s) env body)]"
      "accepted broker s' = accepted broker s @ (if taken (build_message k (rb_cfg s) env body) a then [en_message_id env] else [])"
      "rb_cfg s' = rb_cfg s" "rb_chan s' = rb_chan s"
      "r = (case ba_publish a of Some _ \<Rightarrow> Refused ErrSinkUnavailable
            | None \<Rightarrow> (case ba_confirm a of None \<Rightarrow> Delivered
               | Some es \<Rightarrow> if await_confirm es = Delivered
                   then snd (check_returned (en_message_id env) (rb_returns s @ ba_returns a)) else await_confirm es))"
proof (cases "validate env")
  case (Some e)
  then have "r = Refused e" "s' = s" using assms by (simp_all add: rabbit_publish_def)
  moreover have "e \<notin> {ErrSinkPublishRejected, ErrSinkUnroutable, ErrSinkUnavailable}"
    using validate_class [OF Some] by auto
  ultimately show ?thesis using Some by (intro unsent) auto
next
  case None
  show ?thesis
  proof (cases "render k (json_object env)")
    case r: None
    then have "r = Refused (ErrOther ''marshaling envelope'')" "s' = s" using assms None by (simp_all add: rabbit_publish_def)
    with None show ?thesis by (intro unsent) auto
  next
    case (Some body)
    show ?thesis
    proof (cases "rb_chan s")
      case False
      then have "r = Crashed" "s' = s" using assms None Some by (simp_all add: rabbit_publish_def)
      with None False show ?thesis by (intro unsent) auto
    next
      case True
      let ?msg = "build_message k (rb_cfg s) env body"
      have mid: "pb_message_id ?msg = en_message_id env" by (simp add: build_message_def)
      show ?thesis
        by (rule sent [OF None True Some refl])
          (use assms None Some True mid in \<open>auto simp: rabbit_publish_def amqp_publish_def Let_def accepted_def taken_among_append
            split: option.splits publish_result.splits prod.splits\<close>)
    qed
  qed
qed


lemma rabbit_delivered_taken:
  assumes "rabbit_publish k broker env s = (s', Delivered)"
  shows "\<exists>body. validate env = None \<and> render k (json_object env) = Some body \<and>
    rb_sent s' = rb_sent s @ [(routing_key env, build_message k (rb_cfg s) env body)] \<and>
    taken (build_message k (rb_cfg s) env body) (broker (length (rb_sent s)) (routing_key env) (build_message k (rb_cfg s) env body)) \<and>
    accepted broker s' = accepted broker s @ [en_message_id env]"
  using assms
proof (cases rule: rabbit_publish_cases)
  case unsent
  then show ?thesis by auto
next
  case (sent body a)
  have mid: "pb_message_id (build_message k (rb_cfg s) env body) = en_message_id env" by (simp add: build_message_def)
  have "taken (build_message k (rb_cfg s) env body) a"
    using sent(9) await_confirm_cases(1)
    by (auto simp: taken_def mid check_returned_spec split: option.splits if_splits)
  then show ?thesis using sent by auto
qed

lemma rabbit_rejected:
  assumes "rabbit_publish k broker env s = (s', Refused ErrSinkPublishRejected)"
  shows "accepted broker s' = accepted broker s"
  using assms
proof (cases rule: rabbit_publish_cases)
  case (sent body a)
  have "\<not> taken (build_message k (rb_cfg s) env body) a"
    using sent(9) await_confirm_cases(2)
    by (auto simp: taken_def check_returned_spec split: option.splits if_splits)
  then show ?thesis using sent(6) by simp
qed simp

lemma rabbit_kept:
  assumes "rabbit_publish k broker env s = (s', r)"
  shows "prefix (accepted broker s) (accepted broker s')"
  using assms by (cases rule: rabbit_publish_cases) auto

interpretation rabbit: sink "rabbit_publish k broker" "accepted broker" for k broker
  by unfold_locales (blast dest: rabbit_delivered_taken, blast intro: rabbit_kept, blast dest: rabbit_rejected)

interpretation noop: sink noop_publish "\<lambda>s. s"
  by unfold_locales (auto simp: noop_publish_def)

text \<open>The sink as the loop uses it: RabbitMQ behind the retry policy.\<close>

definition pipeline_publish :: "codec \<Rightarrow> broker \<Rightarrow> (nat \<Rightarrow> duration \<Rightarrow> err option) \<Rightarrow> rabbit publisher" where
  "pipeline_publish k broker wait = bp_publish (rabbit_publish k broker) wait"

interpretation pipeline: sink "pipeline_publish k broker wait" "accepted broker" for k broker wait
  unfolding pipeline_publish_def
  by unfold_locales
    (blast dest: rabbit.bp_publish_delivered, blast intro: rabbit.bp_publish_kept, blast dest: rabbit.bp_publish_rejected)

section \<open>Properties\<close>

text \<open>
  C20. Success means the broker has it. When \<open>Publish\<close> returns nil, the envelope was valid and rendered,
  exactly one message was sent, built from it, under its routing key and with its id; the library
  reported no error for it; and whenever the library handed out a confirmation to wait for, which it
  does in confirm mode, the broker's verdict on this message was an ack, and no return with this
  message's id was waiting or had arrived.
\<close>

theorem publish_success_is_broker_ack:
  assumes "rabbit_publish k broker env s = (s', Delivered)"
  shows "\<exists>body. validate env = None \<and> render k (json_object env) = Some body \<and>
    (let msg = build_message k (rb_cfg s) env body;
         answer = broker (length (rb_sent s)) (routing_key env) msg
     in rb_sent s' = rb_sent s @ [(routing_key env, msg)] \<and> pb_message_id msg = en_message_id env \<and>
        ba_publish answer = None \<and>
        (\<forall>events. ba_confirm answer = Some events \<longrightarrow> broker_answered events = Some True \<and>
           en_message_id env \<notin> ret_message_id ` set (rb_returns s @ ba_returns answer)))"
  using assms
proof (cases rule: rabbit_publish_cases)
  case unsent
  then show ?thesis by auto
next
  case (sent body a)
  have mid: "pb_message_id (build_message k (rb_cfg s) env body) = en_message_id env" by (simp add: build_message_def)
  from sent(9) have "ba_publish a = None \<and> (\<forall>es. ba_confirm a = Some es \<longrightarrow> await_confirm es = Delivered \<and>
      en_message_id env \<notin> ret_message_id ` set (rb_returns s @ ba_returns a))"
    by (auto simp: check_returned_spec split: option.splits if_splits publish_result.splits)
  with sent(1,3,5) mid show ?thesis
    by (intro exI [of _ body]) (simp add: Let_def sent(4) await_confirm_cases(1))
qed

text \<open>
  Every refusal has its own cause. The retryable class is reported only for a nack of this very
  message; unroutable only when a return with this message's id had arrived; unavailable only when the
  library failed; cancellation only while waiting; and for an invalid envelope nothing is sent.
\<close>

theorem publish_refusals_have_causes:
  assumes "rabbit_publish k broker env s = (s', Refused e)"
  shows "(e = ErrSinkPublishRejected \<longrightarrow> (\<exists>msg es. rb_sent s' = rb_sent s @ [(routing_key env, msg)] \<and>
       ba_confirm (broker (length (rb_sent s)) (routing_key env) msg) = Some es \<and> broker_answered es = Some False)) \<and>
    (e = ErrSinkUnroutable \<longrightarrow> (\<exists>msg. rb_sent s' = rb_sent s @ [(routing_key env, msg)] \<and> en_message_id env \<in> ret_message_id `
       set (rb_returns s @ ba_returns (broker (length (rb_sent s)) (routing_key env) msg)))) \<and>
    (e = ErrSinkUnavailable \<longrightarrow> (\<exists>msg. rb_sent s' = rb_sent s @ [(routing_key env, msg)] \<and>
       ba_publish (broker (length (rb_sent s)) (routing_key env) msg) \<noteq> None)) \<and>
    (validate env \<noteq> None \<longrightarrow> validate env = Some e \<and> rb_sent s' = rb_sent s)"
  using assms
proof (cases rule: rabbit_publish_cases)
  case unsent
  then show ?thesis by auto
next
  case (sent body a)
  have mid: "pb_message_id (build_message k (rb_cfg s) env body) = en_message_id env" by (simp add: build_message_def)
  from sent(9) have "(e = ErrSinkUnavailable \<and> ba_publish a \<noteq> None) \<or>
     (\<exists>es. ba_publish a = None \<and> ba_confirm a = Some es \<and>
        (await_confirm es = Delivered \<and> e = ErrSinkUnroutable \<and> en_message_id env \<in> ret_message_id ` set (rb_returns s @ ba_returns a)
         \<or> await_confirm es = Refused e))"
    by (auto simp: check_returned_spec split: option.splits if_splits)
  then consider "e = ErrSinkUnavailable" "ba_publish a \<noteq> None"
    | "e = ErrSinkUnroutable" "en_message_id env \<in> ret_message_id ` set (rb_returns s @ ba_returns a)"
    | "e = ErrCanceled"
    | es where "e = ErrSinkPublishRejected" "ba_confirm a = Some es" "broker_answered es = Some False"
    using await_confirm_cases(2,3) by blast
  then show ?thesis using mid sent(1,4,5) by cases auto
qed


text \<open>
  A stray return is never charged to the wrong envelope: for a valid, renderable envelope on an open
  channel that the broker acks, \<open>Publish\<close> succeeds whatever returns for other messages have piled up,
  and removes them.
\<close>

theorem stray_returns_are_ignored:
  assumes "validate env = None" and "render k (json_object env) = Some body" and "rb_chan s"
    and "\<And>msg. broker (length (rb_sent s)) (routing_key env) msg =
        \<lparr>ba_publish = None, ba_confirm = Some (replicate n WarnTick @ [Resolved True]), ba_returns = rets, ba_closed = c\<rparr>"
    and "en_message_id env \<notin> ret_message_id ` set (rb_returns s @ rets)"
  shows "snd (rabbit_publish k broker env s) = Delivered \<and> rb_returns (fst (rabbit_publish k broker env s)) = []"
proof -
  have a: "await_confirm (replicate n WarnTick @ [Resolved True]) = Delivered" by (induction n) simp_all
  have c: "check_returned mid xs = ([], Delivered)" if "mid \<notin> ret_message_id ` set xs" for mid xs
    using that by (induction xs) auto
  show ?thesis using assms(1-3) by (simp add: rabbit_publish_def amqp_publish_def Let_def assms(4) a c [OF assms(5)])
qed

definition message_ok :: "codec \<Rightarrow> rabbit_config \<Rightarrow> publishing \<Rightarrow> bool" where
  "message_ok k cfg msg \<longleftrightarrow> pb_persistent msg \<and> pb_content_type msg = ''application/json'' \<and>
     (if cfg_signature_key cfg = [] then pb_headers msg = []
      else map_of (pb_headers msg) ''x-tw-sig'' = Some (hex_encode (hmac_sha256 k (string_bytes (cfg_signature_key cfg)) (pb_body msg))) \<and>
           map_of (pb_headers msg) ''x-tw-sig-kid'' = Some (hex_encode (take 8 (sha256 k (string_bytes (cfg_signature_key cfg))))))"

definition publishes :: "codec \<Rightarrow> broker \<Rightarrow> envelope list \<Rightarrow> rabbit \<Rightarrow> rabbit" where
  "publishes k broker es s = fold (\<lambda>e t. fst (rabbit_publish k broker e t)) es s"

text \<open>
  With a signing key, every message that was ever handed to the library carries the HMAC of exactly
  the bytes of its body and the fingerprint of the key, and without a key none carries a header; all are
  persistent JSON. This holds after any sequence of publishes, failed ones included.
\<close>

theorem messages_signed:
  "rb_sent s = [] \<Longrightarrow> list_all (\<lambda>(key, msg). message_ok k (rb_cfg s) msg) (rb_sent (publishes k broker es s))"
proof -
  assume "rb_sent s = []"
  then have "rb_cfg s = rb_cfg s \<and> list_all (\<lambda>(key, msg). message_ok k (rb_cfg s) msg) (rb_sent s)" by simp
  moreover have "rb_cfg t = cfg \<and> list_all (\<lambda>(key, msg). message_ok k cfg msg) (rb_sent t) \<Longrightarrow>
      list_all (\<lambda>(key, msg). message_ok k cfg msg) (rb_sent (publishes k broker es t))" for t cfg
  proof (induction es arbitrary: t)
    case (Cons e es)
    obtain t' r where p: "rabbit_publish k broker e t = (t', r)" by (cases "rabbit_publish k broker e t")
    have m: "message_ok k c (build_message k c e body)" for c body
      by (simp add: message_ok_def build_message_def signature_header_def signature_kid_header_def sign_body_def key_fingerprint_def)
    have "rb_cfg t' = cfg \<and> list_all (\<lambda>(key, msg). message_ok k cfg msg) (rb_sent t')"
      using p by (cases rule: rabbit_publish_cases) (use Cons.prems m in auto)
    from Cons.IH [OF this] p show ?case by (simp add: publishes_def)
  qed (simp add: publishes_def)
  ultimately show ?thesis by blast
qed

text \<open>
  Delivery in order, through backpressure. When the loop over the envelopes of a ledger ends without
  an error, the broker has taken exactly their messages, in that order, after what it had before,
  however often its queue was full; and when it ends with an error nothing that was taken is lost.
\<close>

theorem batch_delivered_in_order:
  "case publish_all (pipeline_publish k broker wait) es s of (s', r) \<Rightarrow>
     prefix (accepted broker s) (accepted broker s') \<and>
     (r = Delivered \<longrightarrow> accepted broker s' = accepted broker s @ map en_message_id es)"
proof (cases "publish_all (pipeline_publish k broker wait) es s")
  case (Pair s' r)
  then show ?thesis using pipeline.publish_all_kept [OF Pair] pipeline.publish_all_delivered [of k broker wait es s s'] by auto
qed

text \<open>
  A failed connection leaks no handle, and a successful one is ready to publish: the factory returns
  a sink exactly when every step succeeded, and otherwise everything that was opened is closed again.
\<close>

theorem connect_leaks_nothing:
  "(case new_rabbit am cfg of
      (h, Inl e) \<Rightarrow> h = (False, False)
    | (h, Inr s) \<Rightarrow> h = (True, True) \<and> rb_chan s \<and> rb_conn s \<and> rb_cfg s = cfg \<and> rb_sent s = [] \<and>
        cfg_url cfg \<noteq> [] \<and> cfg_exchange cfg \<noteq> [] \<and> (cfg_confirms cfg \<longrightarrow> am_confirm am)) \<and>
   (\<forall>s cerr cerr'. let (s1, e1) = rabbit_close cerr s; (s2, e2) = rabbit_close cerr' s1
      in \<not> rb_chan s1 \<and> \<not> rb_conn s1 \<and> s2 = s1 \<and> e2 = None)"
  by (auto simp: new_rabbit_def connect_broker_def close_conn_def close_chan_def Let_def rabbit_close_def)

section \<open>A broker for the examples\<close>

definition sample_codec :: codec where
  "sample_codec = \<lparr>render = (\<lambda>obj. Some [of_nat (length obj)]), hmac_sha256 = (\<lambda>key b. key @ b), sha256 = (\<lambda>b. b)\<rparr>"

text \<open>Publish 0 is rejected, 1 comes back unroutable, all others are acked after a while.\<close>

definition sample_broker :: broker where
  "sample_broker n key msg = \<lparr>ba_publish = None,
     ba_confirm = Some (if n = 0 then [Resolved False] else [WarnTick, Resolved True]),
     ba_returns = (if n = 1 then [\<lparr>ret_message_id = pb_message_id msg, ret_code = 312\<rparr>] else []), ba_closed = False\<rparr>"

definition sample_rabbit :: rabbit where
  "sample_rabbit = \<lparr>rb_cfg = \<lparr>cfg_url = ''u'', cfg_exchange = ''x'', cfg_confirms = True, cfg_signature_key = ''k''\<rparr>,
     rb_conn = True, rb_chan = True, rb_returns = [\<lparr>ret_message_id = ''old'', ret_code = 312\<rparr>], rb_closed = False, rb_sent = []\<rparr>"

definition sample_env :: envelope where
  "sample_env = from_gap 0 ''testnet'' 3 9 ''rpc_retention'' 0"

definition sample_msg :: publishing where
  "sample_msg = build_message sample_codec (rb_cfg sample_rabbit) sample_env [of_nat (length (json_object sample_env))]"

definition rabbit_after :: "nat \<Rightarrow> rabbit" where
  "rabbit_after n = sample_rabbit\<lparr>rb_sent := replicate n ([], sample_msg)\<rparr>"

lemma sample_env_valid: "validate sample_env = None"
  by (simp add: sample_env_def validate_gap)

lemma sample_publishes:
  "rabbit_publish sample_codec sample_broker sample_env (rabbit_after 0) =
     (rabbit_after 0\<lparr>rb_sent := [(routing_key sample_env, sample_msg)]\<rparr>, Refused ErrSinkPublishRejected)"
  "rabbit_publish sample_codec sample_broker sample_env (rabbit_after 2) =
     (rabbit_after 2\<lparr>rb_sent := replicate 2 ([], sample_msg) @ [(routing_key sample_env, sample_msg)], rb_returns := []\<rparr>, Delivered)"
  using sample_env_valid
  by (simp_all add: rabbit_publish_def amqp_publish_def Let_def rabbit_after_def sample_broker_def sample_codec_def sample_msg_def
      sample_rabbit_def build_message_def)
    (simp add: sample_env_def from_gap_def new_gap_message_id_def)

lemma publish_success_is_broker_ack_witness:
  "\<exists>body. rb_sent (fst (rabbit_publish sample_codec sample_broker sample_env (rabbit_after 2))) =
     rb_sent (rabbit_after 2) @ [(routing_key sample_env, build_message sample_codec (rb_cfg (rabbit_after 2)) sample_env body)] \<and>
     render sample_codec (json_object sample_env) = Some body"
  using publish_success_is_broker_ack [OF sample_publishes(2)] unfolding sample_publishes(2) fst_conv Let_def by blast

lemma publish_refusals_have_causes_witness:
  "\<exists>msg es. ba_confirm (sample_broker 0 (routing_key sample_env) msg) = Some es \<and> broker_answered es = Some False"
  using publish_refusals_have_causes [OF sample_publishes(1)] by (auto simp: rabbit_after_def)

lemma stray_returns_are_ignored_witness:
  "snd (rabbit_publish sample_codec sample_broker sample_env (rabbit_after 2)) = Delivered"
proof -
  have "en_message_id sample_env \<noteq> ''old''" by (simp add: sample_env_def from_gap_def new_gap_message_id_def)
  then show ?thesis
    using stray_returns_are_ignored [OF sample_env_valid, of sample_codec _ "rabbit_after 2" sample_broker 1 "[]" False]
    by (simp add: sample_codec_def rabbit_after_def sample_rabbit_def sample_broker_def)
qed

lemma messages_signed_witness:
  "list_all (\<lambda>(key, msg). message_ok sample_codec (rb_cfg (rabbit_after 0)) msg)
     (rb_sent (publishes sample_codec sample_broker [sample_env, sample_env] (rabbit_after 0)))"
  by (rule messages_signed) (simp add: rabbit_after_def)

end
