(* ===== verification/Commands.thy ===== *)
theory Commands
  imports Chain Registry
begin

text \<open>
  \<open>internal/commands\<close>: the command contract and the admin surface, the only way a command enters the
  pipeline. Reading and parsing an HTTP body is the library's: a request carries the outcome.
\<close>

section \<open>Commands\<close>

datatype kind = KindTrackEscrow | KindRefreshEscrow | KindReseed | KindRemoveEscrow | KindPause | KindResume | KindReconcile
  | KindOther string

definition max_reseed_batch :: nat where "max_reseed_batch = 5000"
definition max_pause_ttl :: duration where "max_pause_ttl = hour"
definition default_pause_ttl :: duration where "default_pause_ttl = 10 * minute"

record command =
  c_kind :: kind
  c_contract_id :: string
  c_contract_ids :: "string list"
  c_ttl_seconds :: i64
  c_requested_by :: string

definition zero_command :: command where
  "zero_command = \<lparr>c_kind = KindOther [], c_contract_id = [], c_contract_ids = [], c_ttl_seconds = 0, c_requested_by = []\<rparr>"

text \<open>\<open>time.Duration(c.TTLSeconds) * time.Second\<close>: a product of 64-bit integers, which wraps.\<close>

definition ttl_duration :: "command \<Rightarrow> duration" where
  "ttl_duration c = sint (c_ttl_seconds c * 1000000000)"

definition validate_command :: "sdk \<Rightarrow> command \<Rightarrow> err option" where
  "validate_command k c =
     (case c_kind c of
        KindTrackEscrow \<Rightarrow>
          if c_contract_id c = [] then Some (ErrInvalidCommand ''requires contract_id'')
          else if \<not> is_contract_address k (c_contract_id c) then Some (ErrInvalidCommand ''not a valid contract address'')
          else None
      | KindRefreshEscrow \<Rightarrow>
          if c_contract_id c = [] then Some (ErrInvalidCommand ''requires contract_id'')
          else if \<not> is_contract_address k (c_contract_id c) then Some (ErrInvalidCommand ''not a valid contract address'')
          else None
      | KindRemoveEscrow \<Rightarrow>
          if c_contract_id c = [] then Some (ErrInvalidCommand ''requires contract_id'') else None
      | KindReseed \<Rightarrow>
          if c_contract_ids c = [] then Some (ErrInvalidCommand ''reseed requires contract_ids'')
          else if length (c_contract_ids c) > max_reseed_batch then Some (ErrInvalidCommand ''split the batch'')
          else if list_all (is_contract_address k) (c_contract_ids c) then None
          else Some (ErrInvalidCommand ''not a valid contract address'')
      | KindPause \<Rightarrow>
          if sint (c_ttl_seconds c) < 0 then Some (ErrInvalidCommand ''pause ttl_seconds must be >= 0'')
          else if ttl_duration c > max_pause_ttl then Some (ErrInvalidCommand ''pause ttl exceeds the maximum'')
          else None
      | KindResume \<Rightarrow> None
      | KindReconcile \<Rightarrow> None
      | KindOther s \<Rightarrow> Some (ErrInvalidCommand ''unknown command''))"

definition pause_ttl :: "command \<Rightarrow> duration" where
  "pause_ttl c =
     (let ttl = ttl_duration c; ttl1 = (if ttl \<le> 0 then default_pause_ttl else ttl)
      in if ttl1 > max_pause_ttl then max_pause_ttl else ttl1)"

section \<open>The admin surface\<close>

text \<open>
  The outcome of reading a request's body: an error (a body above the limit is one), an empty body, one
  that is no JSON command, or the members it sets.
\<close>

datatype body = BodyError | BodyEmpty | BodyMalformed | BodyCommand command

text \<open>The routes of the multiplexer; \<open>WrongMethod\<close> is a path that only another method has, \<open>NoRoute\<close> any other path.\<close>

datatype route = RouteTrack | RouteRefresh string | RouteRemove string | RouteReseed | RoutePause | RouteResume | RouteReconcile
  | RouteRegistry | WrongMethod | NoRoute

record request =
  rq_authorization :: string
  rq_route :: route
  rq_body :: body

definition command_queue_size :: nat where "command_queue_size = 64"

text \<open>\<open>EnqueueInto\<close>: a send that does not block.\<close>

definition enqueue_into :: "command \<Rightarrow> command list \<Rightarrow> command list \<times> err option" where
  "enqueue_into c q = (if length q < command_queue_size then (q @ [c], None) else (q, Some (ErrOther ''command queue full'')))"

definition accept :: "sdk \<Rightarrow> command \<Rightarrow> command list \<Rightarrow> command list \<times> nat" where
  "accept k c q =
     (case validate_command k c of Some _ \<Rightarrow> (q, 400)
      | None \<Rightarrow> (case enqueue_into c q of (q', Some _) \<Rightarrow> (q', 503) | (q', None) \<Rightarrow> (q', 202)))"

definition read_body :: "body \<Rightarrow> command option" where
  "read_body b = (case b of BodyError \<Rightarrow> None | BodyEmpty \<Rightarrow> Some zero_command | BodyMalformed \<Rightarrow> None | BodyCommand c \<Rightarrow> Some c)"

definition accept_body :: "sdk \<Rightarrow> body \<Rightarrow> kind \<Rightarrow> command list \<Rightarrow> command list \<times> nat" where
  "accept_body k b kind q = (case read_body b of None \<Rightarrow> (q, 400) | Some c \<Rightarrow> accept k (c\<lparr>c_kind := kind\<rparr>) q)"

definition admin_routes :: "sdk \<Rightarrow> request \<Rightarrow> command list \<Rightarrow> command list \<times> nat" where
  "admin_routes k rq q =
     (case rq_route rq of
        RouteTrack \<Rightarrow> accept_body k (rq_body rq) KindTrackEscrow q
      | RouteRefresh cid \<Rightarrow> accept k (zero_command\<lparr>c_kind := KindRefreshEscrow, c_contract_id := cid\<rparr>) q
      | RouteRemove cid \<Rightarrow> accept k (zero_command\<lparr>c_kind := KindRemoveEscrow, c_contract_id := cid\<rparr>) q
      | RouteReseed \<Rightarrow> accept_body k (rq_body rq) KindReseed q
      | RoutePause \<Rightarrow> accept_body k (rq_body rq) KindPause q
      | RouteResume \<Rightarrow> accept k (zero_command\<lparr>c_kind := KindResume\<rparr>) q
      | RouteReconcile \<Rightarrow> accept k (zero_command\<lparr>c_kind := KindReconcile\<rparr>) q
      | RouteRegistry \<Rightarrow> (q, 200)
      | WrongMethod \<Rightarrow> (q, 405)
      | NoRoute \<Rightarrow> (q, 404))"

definition bearer_prefix :: string where "bearer_prefix = ''Bearer ''"

definition require_bearer :: "string \<Rightarrow> string \<Rightarrow> nat option" where
  "require_bearer token auth =
     (if token = [] then Some 403
      else if length auth \<le> length bearer_prefix \<or> take (length bearer_prefix) auth \<noteq> bearer_prefix \<or>
        drop (length bearer_prefix) auth \<noteq> token then Some 401
      else None)"

definition admin_handler :: "sdk \<Rightarrow> string \<Rightarrow> request \<Rightarrow> command list \<Rightarrow> command list \<times> nat" where
  "admin_handler k token rq q =
     (case require_bearer token (rq_authorization rq) of Some status \<Rightarrow> (q, status) | None \<Rightarrow> admin_routes k rq q)"

text \<open>The body of the read route: the count, the tracked and the tombstoned ids.\<close>

definition registry_answer :: "sdk \<Rightarrow> string \<Rightarrow> request \<Rightarrow> registry \<Rightarrow> (nat \<times> string list \<times> string list) option" where
  "registry_answer k token rq r =
     (case require_bearer token (rq_authorization rq) of Some status \<Rightarrow> None
      | None \<Rightarrow> if rq_route rq = RouteRegistry then Some (registry_size r, snapshot r, removed_snapshot r) else None)"

section \<open>Properties\<close>

lemma require_bearer_None: "require_bearer token auth = None \<longleftrightarrow> token \<noteq> [] \<and> auth = ''Bearer '' @ token"
proof
  assume "require_bearer token auth = None"
  then have "token \<noteq> []" "take (length bearer_prefix) auth = bearer_prefix" "drop (length bearer_prefix) auth = token"
    by (auto simp: require_bearer_def split: if_splits)
  then show "token \<noteq> [] \<and> auth = ''Bearer '' @ token" by (metis append_take_drop_id bearer_prefix_def)
next
  assume "token \<noteq> [] \<and> auth = ''Bearer '' @ token"
  then show "require_bearer token auth = None" by (simp add: require_bearer_def bearer_prefix_def)
qed

lemma accept_cases:
  "accept k c q = (q', st) \<Longrightarrow>
     (q' = q \<and> st \<noteq> 202 \<and> (validate_command k c \<noteq> None \<or> command_queue_size \<le> length q)) \<or>
     (q' = q @ [c] \<and> st = 202 \<and> validate_command k c = None \<and> length q < command_queue_size)"
  by (auto simp: accept_def enqueue_into_def split: option.splits if_splits)

lemma admin_routes_cases:
  "admin_routes k rq q = (q', st) \<Longrightarrow> (q' = q \<and> st \<noteq> 202) \<or>
     (\<exists>c. q' = q @ [c] \<and> st = 202 \<and> validate_command k c = None \<and> length q < command_queue_size)"
  by (auto simp: admin_routes_def accept_body_def split: route.splits option.splits dest!: accept_cases)

definition serve_all :: "sdk \<Rightarrow> string \<Rightarrow> request list \<Rightarrow> command list" where
  "serve_all k token rqs = fold (\<lambda>rq q. fst (admin_handler k token rq q)) rqs []"

text \<open>
  Only authenticated, valid commands reach the loop. After any sequence of requests on an empty
  queue, the queue is within its capacity and holds valid commands only; and a single request changes
  the queue exactly when it is answered 202, which takes a configured token and the exact header.
\<close>

theorem only_authenticated_valid_commands:
  "length (serve_all k token rqs) \<le> 64 \<and> list_all (\<lambda>c. validate_command k c = None) (serve_all k token rqs) \<and>
   (case admin_handler k token rq q of (q', st) \<Rightarrow>
      (q' \<noteq> q \<longleftrightarrow> st = 202) \<and> (st = 202 \<longrightarrow> token \<noteq> [] \<and> rq_authorization rq = ''Bearer '' @ token))"
proof -
  have step: "(q' \<noteq> q \<longleftrightarrow> st = 202) \<and> (st = 202 \<longrightarrow> token \<noteq> [] \<and> rq_authorization rq = ''Bearer '' @ token) \<and>
      (q' \<noteq> q \<longrightarrow> (\<exists>c. q' = q @ [c] \<and> validate_command k c = None \<and> length q < command_queue_size))"
    if h: "admin_handler k token rq q = (q', st)" for rq q q' st
  proof (cases "require_bearer token (rq_authorization rq)")
    case (Some code)
    then have "code \<noteq> 202" by (auto simp: require_bearer_def split: if_splits)
    then show ?thesis using h Some by (auto simp: admin_handler_def)
  next
    case None
    then have "admin_routes k rq q = (q', st)" using h by (simp add: admin_handler_def)
    from admin_routes_cases [OF this] None show ?thesis by (auto simp: require_bearer_None)
  qed
  have all: "length q \<le> 64 \<and> list_all (\<lambda>c. validate_command k c = None) q \<Longrightarrow>
      length (fold (\<lambda>rq q. fst (admin_handler k token rq q)) rqs q) \<le> 64 \<and>
      list_all (\<lambda>c. validate_command k c = None) (fold (\<lambda>rq q. fst (admin_handler k token rq q)) rqs q)" for q
  proof (induction rqs arbitrary: q)
    case (Cons rq rqs)
    obtain q' st where h: "admin_handler k token rq q = (q', st)" by (cases "admin_handler k token rq q")
    have "length q' \<le> 64 \<and> list_all (\<lambda>c. validate_command k c = None) q'"
      using step [OF h] Cons.prems by (cases "q' = q") (auto simp: command_queue_size_def)
    from Cons.IH [OF this] h show ?case by simp
  qed simp
  show ?thesis using all [of "[]"] step [of rq q] by (auto simp: serve_all_def split: prod.splits)
qed

definition resume_request :: request where
  "resume_request = \<lparr>rq_authorization = ''Bearer secret'', rq_route = RouteResume, rq_body = BodyEmpty\<rparr>"

lemma only_authenticated_valid_commands_witness:
  "snd (admin_handler sample_sdk ''secret'' resume_request []) = 202 \<and> rq_authorization resume_request = ''Bearer '' @ ''secret'' \<and>
   length (serve_all sample_sdk ''secret'' [resume_request]) \<le> 64"
proof -
  have a: "admin_handler sample_sdk ''secret'' resume_request [] = ([zero_command\<lparr>c_kind := KindResume\<rparr>], 202)"
    by (simp add: admin_handler_def require_bearer_def bearer_prefix_def admin_routes_def accept_def validate_command_def
        enqueue_into_def command_queue_size_def resume_request_def zero_command_def)
  show ?thesis using only_authenticated_valid_commands [where k = sample_sdk and token = "''secret''" and rqs = "[resume_request]" and rq = resume_request and q = "[]"] a by simp
qed

text \<open>What the read route shows of a consistent registry: as many ids as it says, in order, none of them tombstoned.\<close>

lemma registry_answer_consistent:
  assumes "registry_answer k token rq r = Some (n, ids, gone)" and "reg_inv r"
  shows "n = length ids \<and> sorted ids \<and> distinct ids \<and> set ids \<inter> set gone = {} \<and> rq_authorization rq = ''Bearer '' @ token"
  using assms reg_invD [OF assms(2)]
  by (auto simp: registry_answer_def registry_size_def snapshot_def removed_snapshot_def reg_inv_def require_bearer_None
      split: option.splits if_splits)

text \<open>
  A pause is always bounded and never void: whatever number the command carries, including those
  whose product with a second wraps around in 64 bits, the pause lasts more than no time and at most an
  hour.
\<close>

theorem pause_always_bounded: "0 < pause_ttl c \<and> pause_ttl c \<le> hour"
  by (auto simp: pause_ttl_def Let_def max_pause_ttl_def default_pause_ttl_def hour_def minute_def second_def)

definition pause_for :: "i64 \<Rightarrow> command" where
  "pause_for s = zero_command\<lparr>c_kind := KindPause, c_ttl_seconds := s\<rparr>"

text \<open>
  The limit of a pause is not enforced at the door: a request for 9223372037 seconds passes
  validation, because the duration wraps to a negative one, and is executed as the default ten minutes,
  while one hour and one second is refused.
\<close>

theorem huge_pause_passes_validation:
  "validate_command k (pause_for 9223372037) = None \<and> pause_ttl (pause_for 9223372037) = 10 * minute \<and>
   validate_command k (pause_for 3601) \<noteq> None"
  by (simp add: validate_command_def pause_for_def zero_command_def ttl_duration_def pause_ttl_def Let_def max_pause_ttl_def
      default_pause_ttl_def hour_def minute_def second_def)

end
