(* ===== verification/Health.thy ===== *)
theory Health
  imports Prelude
begin

text \<open>
  \<open>internal/health\<close>: the progress tracker and its readiness rule, the endpoints of the health server, and
  the outbound heartbeat. Every call of the injected clock is an argument \<open>now\<close>; seconds and
  milliseconds of the status, floating-point numbers in the code, are kept as durations. The mutexes make
  each operation atomic.
\<close>

section \<open>The tracker\<close>

definition ready_stale_after :: duration where "ready_stale_after = 60 * second"

record progress =
  pr_ledger_seq :: u32
  pr_closed_at :: time
  pr_duration :: duration
  pr_known_escrows :: nat
  pr_events :: nat
  pr_state_changes :: nat
  pr_gaps :: nat
  pr_suppressed :: nat

record tracker =
  tk_network :: string
  tk_version :: string
  tk_rpc_endpoint :: string
  tk_started_at :: time
  tk_current_ledger :: u32
  tk_closed_at :: time
  tk_last_processed :: time
  tk_last_duration :: duration
  tk_known_escrows :: nat
  tk_events_total :: nat
  tk_states_total :: nat
  tk_gaps :: nat
  tk_suppressed :: nat
  tk_paused_until :: time

definition new_tracker :: "string \<Rightarrow> time \<Rightarrow> tracker" where
  "new_tracker network now = \<lparr>tk_network = network, tk_version = [], tk_rpc_endpoint = [], tk_started_at = now, tk_current_ledger = 0,
     tk_closed_at = 0, tk_last_processed = 0, tk_last_duration = 0, tk_known_escrows = 0, tk_events_total = 0, tk_states_total = 0,
     tk_gaps = 0, tk_suppressed = 0, tk_paused_until = 0\<rparr>"

definition set_version :: "string \<Rightarrow> tracker \<Rightarrow> tracker" where "set_version v t = t\<lparr>tk_version := v\<rparr>"
definition set_rpc_endpoint :: "string \<Rightarrow> tracker \<Rightarrow> tracker" where "set_rpc_endpoint host t = t\<lparr>tk_rpc_endpoint := host\<rparr>"
definition set_paused :: "time \<Rightarrow> tracker \<Rightarrow> tracker" where "set_paused until t = t\<lparr>tk_paused_until := until\<rparr>"

definition record_ledger :: "time \<Rightarrow> progress \<Rightarrow> tracker \<Rightarrow> tracker" where
  "record_ledger now p t = t\<lparr>tk_current_ledger := pr_ledger_seq p, tk_closed_at := pr_closed_at p, tk_last_processed := now,
     tk_last_duration := pr_duration p, tk_known_escrows := pr_known_escrows p, tk_events_total := tk_events_total t + pr_events p,
     tk_states_total := tk_states_total t + pr_state_changes p, tk_gaps := pr_gaps p, tk_suppressed := pr_suppressed p\<rparr>"

datatype reason = NoReason | PausedByOperator time | NoLedgerYet | NoLedgerFor duration

definition readiness :: "time \<Rightarrow> tracker \<Rightarrow> bool \<times> reason" where
  "readiness now t =
     (if now < tk_paused_until t then (False, PausedByOperator (tk_paused_until t))
      else if tk_last_processed t = 0 then (False, NoLedgerYet)
      else let silent = time_sub now (tk_last_processed t) in
        if silent > ready_stale_after then (False, NoLedgerFor silent) else (True, NoReason))"

record status =
  ss_network :: string
  ss_version :: string
  ss_rpc_endpoint :: string
  ss_ready :: bool
  ss_reason :: reason
  ss_paused :: bool
  ss_paused_until :: "time option"
  ss_current_ledger :: u32
  ss_ledger_age :: duration
  ss_since_last :: duration
  ss_last_duration :: duration
  ss_known_escrows :: nat
  ss_events_total :: nat
  ss_states_total :: nat
  ss_gaps :: nat
  ss_suppressed :: nat
  ss_uptime :: duration

definition tracker_snapshot :: "time \<Rightarrow> tracker \<Rightarrow> status" where
  "tracker_snapshot now t =
     (let (ready, reason) = readiness now t; paused = (now < tk_paused_until t) in
      \<lparr>ss_network = tk_network t, ss_version = tk_version t, ss_rpc_endpoint = tk_rpc_endpoint t, ss_ready = ready, ss_reason = reason, ss_paused = paused, ss_paused_until = (if paused then Some (tk_paused_until t) else None),
       ss_current_ledger = tk_current_ledger t,
       ss_ledger_age = (if tk_closed_at t \<noteq> 0 then time_sub now (tk_closed_at t) else 0),
       ss_since_last = (if tk_last_processed t \<noteq> 0 then time_sub now (tk_last_processed t) else 0),
       ss_last_duration = tk_last_duration t, ss_known_escrows = tk_known_escrows t, ss_events_total = tk_events_total t, ss_states_total = tk_states_total t,
       ss_gaps = tk_gaps t, ss_suppressed = tk_suppressed t, ss_uptime = time_sub now (tk_started_at t)\<rparr>)"

definition ready :: "time \<Rightarrow> tracker \<Rightarrow> bool \<times> reason" where "ready now t = readiness now t"

text \<open>The status codes of the three probes; the handlers of the other routes are passed in.\<close>

datatype endpoint = Healthz | Readyz | StatusEndpoint

definition serve_health :: "endpoint \<Rightarrow> time \<Rightarrow> tracker \<Rightarrow> nat" where
  "serve_health ep now t = (case ep of Healthz \<Rightarrow> 200 | Readyz \<Rightarrow> (if fst (ready now t) then 200 else 503) | StatusEndpoint \<Rightarrow> 200)"

section \<open>Readiness means progress\<close>

datatype tracker_event = Recorded time progress | PausedTill time | EndpointSet string

fun track_event :: "tracker_event \<Rightarrow> tracker \<Rightarrow> tracker" where
  "track_event (Recorded now p) t = record_ledger now p t"
| "track_event (PausedTill until) t = set_paused until t"
| "track_event (EndpointSet h) t = set_rpc_endpoint h t"

definition track_events :: "tracker_event list \<Rightarrow> tracker \<Rightarrow> tracker" where
  "track_events es t = fold track_event es t"

fun last_recorded :: "tracker_event list \<Rightarrow> time option" where
  "last_recorded [] = None"
| "last_recorded (e # es) = (case last_recorded es of Some t \<Rightarrow> Some t
     | None \<Rightarrow> (case e of Recorded t _ \<Rightarrow> Some t | _ \<Rightarrow> None))"

fun last_pause :: "tracker_event list \<Rightarrow> time option" where
  "last_pause [] = None"
| "last_pause (e # es) = (case last_pause es of Some t \<Rightarrow> Some t
     | None \<Rightarrow> (case e of PausedTill t \<Rightarrow> Some t | _ \<Rightarrow> None))"

fun progresses :: "tracker_event list \<Rightarrow> progress list" where
  "progresses [] = []"
| "progresses (Recorded t p # es) = p # progresses es"
| "progresses (_ # es) = progresses es"

lemma track_events_fields:
  "tk_last_processed (track_events es t) = (case last_recorded es of Some u \<Rightarrow> u | None \<Rightarrow> tk_last_processed t) \<and>
   tk_paused_until (track_events es t) = (case last_pause es of Some u \<Rightarrow> u | None \<Rightarrow> tk_paused_until t) \<and>
   tk_events_total (track_events es t) = tk_events_total t + sum_list (map pr_events (progresses es)) \<and>
   tk_states_total (track_events es t) = tk_states_total t + sum_list (map pr_state_changes (progresses es))"
proof (induction es arbitrary: t)
  case (Cons e es)
  then show ?case
    by (cases e) (auto simp: track_events_def record_ledger_def set_paused_def set_rpc_endpoint_def split: option.splits)
qed (simp add: track_events_def)

text \<open>
  C37. \<open>/readyz\<close> answers 200 exactly when the loop is advancing. After any history of reports since the
  boot, with clocks after Go's zero time, it is 200 at \<open>now\<close> if and only if no pause set last holds at
  \<open>now\<close> and the last ledger was recorded at most 60 seconds ago; \<open>/healthz\<close> always answers 200, and the
  totals of the status are the sums of what was reported.
\<close>

theorem readyz_means_progress:
  assumes "\<forall>e\<in>set es. \<forall>t p. e = Recorded t p \<longrightarrow> t \<noteq> 0" and "0 \<le> now"
  shows "(serve_health Readyz now (track_events es (new_tracker net boot)) = 200 \<longleftrightarrow>
      \<not> (\<exists>u. last_pause es = Some u \<and> now < u) \<and> (\<exists>t. last_recorded es = Some t \<and> now - t \<le> 60 * second)) \<and>
    serve_health Healthz now (track_events es (new_tracker net boot)) = 200 \<and>
    ss_events_total (tracker_snapshot now (track_events es (new_tracker net boot))) = sum_list (map pr_events (progresses es)) \<and>
    ss_states_total (tracker_snapshot now (track_events es (new_tracker net boot))) = sum_list (map pr_state_changes (progresses es))"
proof -
  have nz: "t \<noteq> 0" if "last_recorded es = Some t" for t
    using that assms(1) by (induction es) (auto split: option.splits tracker_event.splits)
  have sub: "time_sub now t > ready_stale_after \<longleftrightarrow> now - t > 60 * second" for t
    by (simp add: time_sub_greater ready_stale_after_def second_def max_duration_def)
  note F = track_events_fields [of es "new_tracker net boot"]
  show ?thesis
    using F assms(2) nz
    by (auto simp: serve_health_def ready_def readiness_def Let_def sub tracker_snapshot_def new_tracker_def split: option.splits)
qed

lemma readyz_means_progress_witness:
  "serve_health Readyz (70 * second) (track_events [Recorded (8 * second)
      \<lparr>pr_ledger_seq = 5, pr_closed_at = 0, pr_duration = 0, pr_known_escrows = 0, pr_events = 2, pr_state_changes = 0, pr_gaps = 0, pr_suppressed = 0\<rparr>]
      (new_tracker ''testnet'' 1)) \<noteq> 200"
  using readyz_means_progress [of "[Recorded (8 * second)
      \<lparr>pr_ledger_seq = 5, pr_closed_at = 0, pr_duration = 0, pr_known_escrows = 0, pr_events = 2, pr_state_changes = 0, pr_gaps = 0, pr_suppressed = 0\<rparr>]"
      "70 * second" "''testnet''" 1]
  by (simp add: second_def)


section \<open>Metrics\<close>

text \<open>
  \<open>health/metrics.go\<close>: a scrape projects one snapshot of the tracker into metrics. Values are floating-point
  numbers in the code; here whole numbers, or the duration whose seconds they are.
\<close>

datatype metric_kind = Gauge | Counter
datatype metric_value = Whole nat | InSeconds duration

record metric =
  mt_name :: string
  mt_network :: string
  mt_kind :: metric_kind
  mt_value :: metric_value

definition flag_value :: "bool \<Rightarrow> metric_value" where
  "flag_value b = Whole (if b then 1 else 0)"

definition collect :: "time \<Rightarrow> tracker \<Rightarrow> metric list" where
  "collect now t =
     (let s = tracker_snapshot now t;
          metric = (\<lambda>kind name v. \<lparr>mt_name = ''indexer_'' @ name, mt_network = tk_network t, mt_kind = kind, mt_value = v\<rparr>);
          gauge = metric Gauge; counter = metric Counter
      in [gauge ''current_ledger'' (Whole (unat (ss_current_ledger s))), gauge ''ledger_age_seconds'' (InSeconds (ss_ledger_age s)),
          gauge ''seconds_since_last_ledger'' (InSeconds (ss_since_last s)), gauge ''known_escrows'' (Whole (ss_known_escrows s)),
          counter ''events_published_total'' (Whole (ss_events_total s)), counter ''state_changes_published_total'' (Whole (ss_states_total s)),
          gauge ''gaps_recorded'' (Whole (ss_gaps s)), counter ''suppressed_removals_total'' (Whole (ss_suppressed s)),
          gauge ''ready'' (flag_value (ss_ready s)), gauge ''paused'' (flag_value (ss_paused s)), gauge ''uptime_seconds'' (InSeconds (ss_uptime s))])"

definition metric_of :: "metric list \<Rightarrow> string \<Rightarrow> metric_value option" where
  "metric_of ms name = map_option mt_value (find (\<lambda>m. mt_name m = name) ms)"

lemma metric_of_Cons [simp]: "metric_of (m # ms) name = (if mt_name m = name then Some (mt_value m) else metric_of ms name)"
  by (simp add: metric_of_def)

text \<open>
  A dashboard and a probe never disagree. No two metrics of a scrape have the same name, the readiness metric
  is 1 exactly when the readiness probe answers 200, the pause metric while a pause lasts, and the counters of
  events and state changes never decrease, whatever is reported to the tracker between two scrapes.
\<close>

theorem metrics_agree_with_probes:
  "distinct (map mt_name (collect now t)) \<and>
   metric_of (collect now t) ''indexer_ready'' = Some (Whole (if serve_health Readyz now t = 200 then 1 else 0)) \<and>
   metric_of (collect now t) ''indexer_paused'' = Some (Whole (if now < tk_paused_until t then 1 else 0)) \<and>
   (\<exists>a b. metric_of (collect now t) ''indexer_events_published_total'' = Some (Whole a) \<and>
      metric_of (collect later (track_events es t)) ''indexer_events_published_total'' = Some (Whole b) \<and> a \<le> b) \<and>
   (\<exists>a b. metric_of (collect now t) ''indexer_state_changes_published_total'' = Some (Whole a) \<and>
      metric_of (collect later (track_events es t)) ''indexer_state_changes_published_total'' = Some (Whole b) \<and> a \<le> b)"
proof -
  note F = track_events_fields [of es t]
  show ?thesis
    using F by (auto simp: collect_def Let_def flag_value_def serve_health_def ready_def tracker_snapshot_def readiness_def split: prod.splits)
qed

section \<open>The heartbeat\<close>

text \<open>
  \<open>Beat\<close> starts a request in the background, whose end is a later event: \<open>Pinged ok now\<close>. The two critical
  sections at the end of the goroutine are one event here; a beat between them would be refused anyway,
  because a request is then still in flight. A heartbeat without URL is \<open>None\<close>. \<open>hb_sent\<close> is the history
  of the times at which requests were started.
\<close>

definition heartbeat_interval :: duration where "heartbeat_interval = minute"
definition heartbeat_warn_every :: nat where "heartbeat_warn_every = 10"

record heartbeat =
  hb_url :: string
  hb_last_beat :: time
  hb_failures :: nat
  hb_in_flight :: bool
  hb_sent :: "time list"

definition new_heartbeat :: "string \<Rightarrow> heartbeat option" where
  "new_heartbeat url = (if url = [] then None
     else Some \<lparr>hb_url = url, hb_last_beat = 0, hb_failures = 0, hb_in_flight = False, hb_sent = []\<rparr>)"

definition beat :: "time \<Rightarrow> heartbeat option \<Rightarrow> heartbeat option" where
  "beat now hb = (case hb of None \<Rightarrow> None
     | Some h \<Rightarrow>
         if hb_in_flight h \<or> time_sub now (hb_last_beat h) < heartbeat_interval then Some h
         else Some (h\<lparr>hb_in_flight := True, hb_sent := hb_sent h @ [now]\<rparr>))"

text \<open>\<open>noteFailure\<close>, and whether it logs a warning.\<close>

definition note_failure :: "heartbeat \<Rightarrow> heartbeat \<times> bool" where
  "note_failure h = (let n = hb_failures h + 1 in (h\<lparr>hb_failures := n\<rparr>, n = 1 \<or> n mod heartbeat_warn_every = 0))"

definition ping_done :: "bool \<Rightarrow> time \<Rightarrow> heartbeat option \<Rightarrow> heartbeat option" where
  "ping_done ok now hb = (case hb of None \<Rightarrow> None
     | Some h \<Rightarrow>
         if \<not> hb_in_flight h then Some h
         else if ok then Some (h\<lparr>hb_last_beat := now, hb_failures := 0, hb_in_flight := False\<rparr>)
         else Some ((fst (note_failure h))\<lparr>hb_in_flight := False\<rparr>))"

datatype hb_event = BeatAt time | Pinged bool time

fun hb_step :: "hb_event \<Rightarrow> heartbeat option \<Rightarrow> heartbeat option" where
  "hb_step (BeatAt now) hb = beat now hb"
| "hb_step (Pinged ok now) hb = ping_done ok now hb"

definition event_time :: "hb_event \<Rightarrow> time" where
  "event_time e = (case e of BeatAt t \<Rightarrow> t | Pinged _ t \<Rightarrow> t)"

definition hb_run :: "hb_event list \<Rightarrow> heartbeat option \<Rightarrow> heartbeat option" where
  "hb_run es hb = fold hb_step es hb"

lemma hb_run_gaps:
  assumes "hb_run es (Some h) = Some h'" and "hb_in_flight h \<longrightarrow> hb_sent h \<noteq> [] \<and> hb_last_beat h + minute \<le> last (hb_sent h)"
    and "sorted (map event_time es)" and "\<forall>e\<in>set es. \<forall>s\<in>set (hb_sent h). s \<le> event_time e"
    and "\<forall>e\<in>set es. hb_last_beat h \<le> event_time e"
  shows "\<exists>new. hb_sent h' = hb_sent h @ new \<and> (\<forall>s\<in>set new. hb_last_beat h + minute \<le> s \<and> s \<in> event_time ` set es)"
  using assms
proof (induction es arbitrary: h)
  case Nil
  then show ?case by (simp add: hb_run_def)
next
  case (Cons e es)
  have "hb_step e (Some h) \<noteq> None" by (cases e) (simp_all add: beat_def ping_done_def)
  then obtain h1 where h1: "hb_step e (Some h) = Some h1" by auto
  have run: "hb_run es (Some h1) = Some h'" using Cons.prems(1) h1 by (simp add: hb_run_def)
  have le: "\<forall>e'\<in>set es. event_time e \<le> event_time e'" using Cons.prems(3) by simp
  have sub: "\<not> time_sub t (hb_last_beat h) < heartbeat_interval \<Longrightarrow> hb_last_beat h + minute \<le> t" for t
    by (subst (asm) time_sub_less) (simp_all add: heartbeat_interval_def minute_def second_def max_duration_def)
  have "(hb_sent h1 = hb_sent h \<or> (\<exists>t. e = BeatAt t \<and> hb_sent h1 = hb_sent h @ [t] \<and> hb_last_beat h + minute \<le> t)) \<and>
    (hb_last_beat h1 = hb_last_beat h \<or> hb_last_beat h1 = event_time e \<and> \<not> hb_in_flight h1) \<and>
    (hb_in_flight h1 \<longrightarrow> hb_sent h1 \<noteq> [] \<and> hb_last_beat h1 + minute \<le> last (hb_sent h1))"
    using h1 Cons.prems(2) sub
    by (cases e) (auto simp: beat_def ping_done_def note_failure_def Let_def event_time_def split: if_splits)
  then have s1: "hb_sent h1 = hb_sent h \<or> (\<exists>t. e = BeatAt t \<and> hb_sent h1 = hb_sent h @ [t] \<and> hb_last_beat h + minute \<le> t)"
    and l1: "hb_last_beat h1 = hb_last_beat h \<or> hb_last_beat h1 = event_time e \<and> \<not> hb_in_flight h1"
    and f1: "hb_in_flight h1 \<longrightarrow> hb_sent h1 \<noteq> [] \<and> hb_last_beat h1 + minute \<le> last (hb_sent h1)" by blast+
  have mono: "hb_last_beat h \<le> hb_last_beat h1" using l1 Cons.prems(5) by auto
  have "\<exists>new. hb_sent h' = hb_sent h1 @ new \<and> (\<forall>s\<in>set new. hb_last_beat h1 + minute \<le> s \<and> s \<in> event_time ` set es)"
  proof (rule Cons.IH [OF run f1])
    show "sorted (map event_time es)" using Cons.prems(3) by simp
    show "\<forall>e\<in>set es. \<forall>s\<in>set (hb_sent h1). s \<le> event_time e"
      using s1 Cons.prems(4) le by (auto simp: event_time_def)
    show "\<forall>e\<in>set es. hb_last_beat h1 \<le> event_time e" using l1 le Cons.prems(5) by auto
  qed
  then obtain new where new: "hb_sent h' = hb_sent h1 @ new" "\<forall>s\<in>set new. hb_last_beat h1 + minute \<le> s \<and> s \<in> event_time ` set es"
    by blast
  from s1 show ?case
  proof
    assume "hb_sent h1 = hb_sent h"
    with new mono show ?thesis by (intro exI [of _ new]) fastforce
  next
    assume "\<exists>t. e = BeatAt t \<and> hb_sent h1 = hb_sent h @ [t] \<and> hb_last_beat h + minute \<le> t"
    then obtain t where "e = BeatAt t" "hb_sent h1 = hb_sent h @ [t]" "hb_last_beat h + minute \<le> t" by blast
    with new mono show ?thesis by (intro exI [of _ "t # new"]) (fastforce simp: event_time_def)
  qed
qed

text \<open>
  Silence is never broken by the heartbeat itself: it pings only when the loop beats, one request at a
  time, and after a ping was answered not before a minute has passed. With no URL it does nothing.
\<close>

lemma heartbeat_throttled:
  assumes "hb_run es (ping_done True t (Some h)) = Some h'" and "hb_in_flight h" and "sorted (map event_time es)"
    and "\<forall>e\<in>set es. t \<le> event_time e" and "\<forall>s\<in>set (hb_sent h). s \<le> t"
  shows "\<exists>new. hb_sent h' = hb_sent h @ new \<and> (\<forall>s\<in>set new. t + minute \<le> s \<and> s \<in> event_time ` set es)"
  using hb_run_gaps [of es "h\<lparr>hb_last_beat := t, hb_failures := 0, hb_in_flight := False\<rparr>" h'] assms
  by (force simp: ping_done_def)

lemma no_url_no_ping: "hb_run es (new_heartbeat []) = None"
proof -
  have "hb_step e None = None" for e by (cases e) (simp_all add: beat_def ping_done_def)
  then have "fold hb_step es None = None" by (induction es) simp_all
  then show ?thesis by (simp add: hb_run_def new_heartbeat_def)
qed

end
