(* ===== verification/Control.thy ===== *)
theory Control
  imports Sweeper Rabbit Commands Health
begin

text \<open>
  \<open>internal/ingest/control.go\<close>: the execution of commands by the ingest loop, between ledgers. The
  executor holds pointers to the pieces of the pipeline; here they are the fields of one state. The
  clock and the context are arguments of each step; an error result is that of a publish.
\<close>

section \<open>The executor\<close>

text \<open>What the loop's steps call: the SDK, the active RPC endpoint, the sink, and the network's name.\<close>

record 's services =
  sv_sdk :: sdk
  sv_rpc :: rpc
  sv_publish :: "'s publisher"
  sv_network :: string

record 's pipe =
  pp_reg :: registry
  pp_det :: detector
  pp_sweeper :: sweeper
  pp_tracker :: tracker
  pp_paused_until :: time
  pp_sink :: 's

definition fetch_and_publish :: "'s services \<Rightarrow> time \<Rightarrow> string list \<Rightarrow> u32 \<Rightarrow> time \<Rightarrow> 's pipe \<Rightarrow> 's pipe \<times> publish_result" where
  "fetch_and_publish sv now ids seq closed x =
     (if ids = [] \<or> seq = 0 then (x, Delivered)
      else case fetch_states_all (sv_sdk sv) (sv_rpc sv) (pp_reg x) ids seq closed (pp_det x) of
        (d, Err e) \<Rightarrow> (x\<lparr>pp_det := d\<rparr>, Delivered)
      | (d, Ok states) \<Rightarrow>
          (case publish_all (sv_publish sv) (map (from_state_change now (sv_network sv)) states) (pp_sink x) of
             (s, r) \<Rightarrow> (x\<lparr>pp_det := d, pp_sink := s\<rparr>, r)))"

definition is_paused :: "time \<Rightarrow> 's pipe \<Rightarrow> bool" where
  "is_paused now x \<longleftrightarrow> pp_paused_until x \<noteq> 0 \<and> now < pp_paused_until x"

definition set_pause :: "time \<Rightarrow> 's pipe \<Rightarrow> 's pipe" where
  "set_pause until x = x\<lparr>pp_paused_until := until, pp_tracker := set_paused until (pp_tracker x)\<rparr>"

text \<open>\<open>execute\<close>: whether the registry mutated, and the error.\<close>

definition execute :: "'s services \<Rightarrow> time \<Rightarrow> command \<Rightarrow> u32 \<Rightarrow> time \<Rightarrow> 's pipe \<Rightarrow> 's pipe \<times> bool \<times> publish_result" where
  "execute sv now c seq closed x =
     (case c_kind c of
        KindTrackEscrow \<Rightarrow>
          (case track (c_contract_id c) (pp_reg x) of
             (reg, added) \<Rightarrow>
               (case fetch_and_publish sv now [c_contract_id c] seq closed (x\<lparr>pp_reg := reg\<rparr>) of
                  (x', r) \<Rightarrow> (x', added, r)))
      | KindRefreshEscrow \<Rightarrow>
          if \<not> is_escrow (pp_reg x) (c_contract_id c) then (x, False, Delivered)
          else (case fetch_and_publish sv now [c_contract_id c] seq closed x of (x', r) \<Rightarrow> (x', False, r))
      | KindReseed \<Rightarrow>
          (let reg = seed (c_contract_ids c) (pp_reg x);
               added = registry_size reg - registry_size (pp_reg x);
               tracked = filter (is_escrow reg) (c_contract_ids c)
           in case fetch_and_publish sv now tracked seq closed (x\<lparr>pp_reg := reg\<rparr>) of
                (x', r) \<Rightarrow> (x', 0 < added, r))
      | KindRemoveEscrow \<Rightarrow> (x\<lparr>pp_reg := fst (remove (c_contract_id c) (pp_reg x))\<rparr>, True, Delivered)
      | KindPause \<Rightarrow> (set_pause (now + pause_ttl c) x, False, Delivered)
      | KindResume \<Rightarrow> (set_pause 0 x, False, Delivered)
      | KindReconcile \<Rightarrow> (x\<lparr>pp_sweeper := reset_sweep (pp_sweeper x)\<rparr>, False, Delivered)
      | KindOther s \<Rightarrow> (x, False, Delivered))"

text \<open>
  \<open>drainCommands\<close> over the commands that the channel yields, each with the clock at its execution. The
  commands behind a failed one stay in the channel.
\<close>

fun drain_commands :: "'s services \<Rightarrow> (time \<times> command) list \<Rightarrow> u32 \<Rightarrow> time \<Rightarrow> 's pipe \<Rightarrow> bool \<Rightarrow> 's pipe \<times> bool \<times> publish_result" where
  "drain_commands sv [] seq closed x mutated = (x, mutated, Delivered)"
| "drain_commands sv ((now, c) # cs) seq closed x mutated =
     (case execute sv now c seq closed x of
        (x', m, Delivered) \<Rightarrow> drain_commands sv cs seq closed x' (mutated \<or> m)
      | (x', m, r) \<Rightarrow> (x', mutated \<or> m, r))"

section \<open>Holding while paused\<close>

text \<open>
  What the select of \<open>holdWhilePaused\<close> yields in each turn, with the clock at the top of the turn and, for
  a command, at its execution. The hook that persists a mutation works in the outside world, which the sink
  is a part of.
\<close>

datatype hold_event = HoldCancelled | HoldCommand time command | HoldSecond

type_synonym 's on_mutation = "'s pipe \<Rightarrow> 's \<times> err option"

fun hold_loop :: "'s services \<Rightarrow> 's on_mutation \<Rightarrow> (time \<times> hold_event) list \<Rightarrow> u32 \<Rightarrow> time \<Rightarrow> 's pipe \<Rightarrow> 's pipe \<times> publish_result" where
  "hold_loop sv on_mut [] seq closed x = (x, Blocked)"
| "hold_loop sv on_mut ((now, ev) # evs) seq closed x =
     (if \<not> is_paused now x
      then ((if pp_paused_until x \<noteq> 0 then set_pause 0 x else x), Delivered)
      else case ev of
        HoldCancelled \<Rightarrow> (x, Refused ErrCanceled)
      | HoldSecond \<Rightarrow> hold_loop sv on_mut evs seq closed x
      | HoldCommand t c \<Rightarrow>
          (case execute sv t c seq closed x of
             (x', m, Delivered) \<Rightarrow>
               if m then (case on_mut x' of
                   (s, Some e) \<Rightarrow> (x'\<lparr>pp_sink := s\<rparr>, Refused e)
                 | (s, None) \<Rightarrow> hold_loop sv on_mut evs seq closed (x'\<lparr>pp_sink := s\<rparr>))
               else hold_loop sv on_mut evs seq closed x'
           | (x', m, r) \<Rightarrow> (x', r)))"

definition hold_while_paused :: "'s services \<Rightarrow> 's on_mutation \<Rightarrow> time \<Rightarrow> (time \<times> hold_event) list \<Rightarrow> u32 \<Rightarrow> time \<Rightarrow> 's pipe
    \<Rightarrow> 's pipe \<times> publish_result" where
  "hold_while_paused sv on_mut now evs seq closed x =
     (if \<not> is_paused now x then (x, Delivered) else hold_loop sv on_mut evs seq closed x)"

section \<open>What a command changes\<close>

lemma fetch_and_publish_keeps:
  assumes "fetch_and_publish sv now ids seq closed x = (x', r)"
  shows "pp_reg x' = pp_reg x" "pp_sweeper x' = pp_sweeper x" "pp_tracker x' = pp_tracker x" "pp_paused_until x' = pp_paused_until x"
  using assms by (auto simp: fetch_and_publish_def split: if_splits prod.splits sum.splits)

lemma execute_registry:
  assumes "execute sv now c seq closed x = (x', m, r)"
  shows "pp_reg x' = (case c_kind c of
      KindTrackEscrow \<Rightarrow> fst (track (c_contract_id c) (pp_reg x))
    | KindReseed \<Rightarrow> seed (c_contract_ids c) (pp_reg x)
    | KindRemoveEscrow \<Rightarrow> fst (remove (c_contract_id c) (pp_reg x))
    | _ \<Rightarrow> pp_reg x)"
  using assms
  by (auto simp: execute_def Let_def set_pause_def fetch_and_publish_keeps split: kind.splits prod.splits if_splits
      dest!: fetch_and_publish_keeps(1))

lemma execute_mutated:
  assumes "execute sv now c seq closed x = (x', m, r)"
  shows "m = (case c_kind c of
      KindTrackEscrow \<Rightarrow> snd (track (c_contract_id c) (pp_reg x))
    | KindReseed \<Rightarrow> registry_size (pp_reg x) < registry_size (seed (c_contract_ids c) (pp_reg x))
    | KindRemoveEscrow \<Rightarrow> True
    | _ \<Rightarrow> False)"
  using assms by (auto simp: execute_def Let_def split: kind.splits prod.splits if_splits)

lemma execute_inv [inv_intros]:
  assumes "execute sv now c seq closed x = (x', m, r)" and "reg_inv (pp_reg x)"
  shows "reg_inv (pp_reg x')"
  using assms(2) unfolding execute_registry [OF assms(1)]
  by (auto simp: inv_intros split: kind.splits)

lemma execute_unchanged:
  assumes "execute sv now c seq closed x = (x', False, r)" and "reg_inv (pp_reg x)"
  shows "pp_reg x' = pp_reg x"
proof (cases "c_kind c")
  case KindTrackEscrow
  then have "\<not> snd (track (c_contract_id c) (pp_reg x))" using execute_mutated [OF assms(1)] by simp
  then have "c_contract_id c = [] \<or> c_contract_id c \<in> escrows (pp_reg x)" by (simp add: reg_simps)
  moreover have "removed (pp_reg x) - {c_contract_id c} = removed (pp_reg x)" if "c_contract_id c \<in> escrows (pp_reg x)"
    using that reg_invD(3) [OF assms(2)] by blast
  ultimately have "fst (track (c_contract_id c) (pp_reg x)) = pp_reg x"
    by (auto simp: track_def Let_def)
  then show ?thesis using execute_registry [OF assms(1)] KindTrackEscrow by simp
next
  case KindReseed
  let ?s = "seed (c_contract_ids c) (pp_reg x)"
  have i: "reg_inv ?s" using assms(2) by (simp add: inv_intros)
  have sub: "escrows (pp_reg x) \<subseteq> escrows ?s" by (simp add: reg_simps)
  have "card (escrows ?s) \<le> card (escrows (pp_reg x))"
    using execute_mutated [OF assms(1)] KindReseed by (simp add: registry_size_def not_less)
  then have "escrows ?s = escrows (pp_reg x)"
    using card_seteq [OF reg_invD(1) [OF i] sub] by simp
  then have "?s = pp_reg x" by (simp add: reg_simps)
  then show ?thesis using execute_registry [OF assms(1)] KindReseed by simp
qed (use execute_mutated [OF assms(1)] execute_registry [OF assms(1)] in auto)


text \<open>
  C26. No change of the watchlist goes unreported. Whatever command is executed, and whether or not its
  publishes succeed, the registry stays consistent, and if it changed, tracked or tombstoned ids alike,
  the mutation flag by which the loop persists it is set.
\<close>

theorem mutation_is_reported:
  assumes "execute sv now c seq closed x = (x', m, r)" and "reg_inv (pp_reg x)"
  shows "reg_inv (pp_reg x') \<and> (pp_reg x' \<noteq> pp_reg x \<longrightarrow> m)"
  using execute_inv [OF assms] execute_unchanged [OF _ assms(2)] assms(1) by (cases m) auto

lemma drain_inv:
  "drain_commands sv cs seq closed x mutated = (x', m, r) \<Longrightarrow> reg_inv (pp_reg x) \<Longrightarrow>
     reg_inv (pp_reg x') \<and> (pp_reg x' \<noteq> pp_reg x \<longrightarrow> m) \<and> (mutated \<longrightarrow> m)"
proof (induction cs arbitrary: x mutated)
  case Nil
  then show ?case by simp
next
  case (Cons tc cs)
  obtain now c where tc: "tc = (now, c)" by (cases tc)
  obtain x1 m1 r1 where e: "execute sv now c seq closed x = (x1, m1, r1)" by (metis prod_cases3)
  have i: "reg_inv (pp_reg x1)" using e Cons.prems(2) by (rule execute_inv)
  have u: "pp_reg x1 \<noteq> pp_reg x \<longrightarrow> m1" using execute_unchanged [OF _ Cons.prems(2)] e by (cases m1) auto
  show ?case
  proof (cases "r1 = Delivered")
    case True
    with Cons.prems(1) tc e have "drain_commands sv cs seq closed x1 (mutated \<or> m1) = (x', m, r)" by simp
    from Cons.IH [OF this i] u show ?thesis by auto
  next
    case False
    with Cons.prems(1) tc e have "x' = x1 \<and> m = (mutated \<or> m1)" by (cases r1) auto
    with i u show ?thesis by auto
  qed
qed

section \<open>Tombstones under commands\<close>

text \<open>
  A removal holds until an explicit track. Once \<open>remove_escrow\<close> has been executed for an id, no
  sequence of other commands, reseeds included, brings it back: it stays off the watchlist and on the
  tombstone list.
\<close>

theorem removal_outlasts_commands:
  assumes "reg_inv (pp_reg x)" and "c_kind c0 = KindRemoveEscrow" and "c_contract_id c0 = cid" and "cid \<noteq> []"
    and "\<forall>(t, c)\<in>set cs. \<not> (c_kind c = KindTrackEscrow \<and> c_contract_id c = cid)"
    and "drain_commands sv ((now, c0) # cs) seq closed x mutated = (x', m, r)"
  shows "\<not> is_escrow (pp_reg x') cid \<and> cid \<in> removed (pp_reg x') \<and> m"
proof -
  have keep: "reg_inv (pp_reg x) \<Longrightarrow> cid \<in> removed (pp_reg x) \<Longrightarrow>
      \<forall>(t, c)\<in>set cs. \<not> (c_kind c = KindTrackEscrow \<and> c_contract_id c = cid) \<Longrightarrow>
      drain_commands sv cs seq closed x mutated = (x', m, r) \<Longrightarrow> cid \<in> removed (pp_reg x')" for cs x mutated
  proof (induction cs arbitrary: x mutated)
    case (Cons tc cs)
    obtain now c where tc: "tc = (now, c)" by (cases tc)
    obtain x1 m1 r1 where e: "execute sv now c seq closed x = (x1, m1, r1)" by (metis prod_cases3)
    have i: "reg_inv (pp_reg x1)" using e Cons.prems(1) by (rule execute_inv)
    have d: "cid \<in> removed (pp_reg x1)"
      using Cons.prems(2,3) unfolding execute_registry [OF e] by (auto simp: tc reg_simps split: kind.splits)
    show ?case
    proof (cases "r1 = Delivered")
      case True
      with Cons.prems(4) tc e have "drain_commands sv cs seq closed x1 (mutated \<or> m1) = (x', m, r)" by simp
      from Cons.IH [OF i d _ this] Cons.prems(3) show ?thesis by simp
    next
      case False
      with Cons.prems(4) tc e have "x' = x1" by (cases r1) auto
      with d show ?thesis by simp
    qed
  qed simp
  let ?x = "x\<lparr>pp_reg := fst (remove cid (pp_reg x))\<rparr>"
  have "execute sv now c0 seq closed x = (?x, True, Delivered)" using assms(2,3) by (simp add: execute_def)
  with assms(6) have d: "drain_commands sv cs seq closed ?x True = (x', m, r)" by simp
  have i: "reg_inv (pp_reg ?x)" using assms(1) by (simp add: inv_intros)
  have "cid \<in> removed (pp_reg x')" by (rule keep [OF i _ assms(5) d]) (simp add: reg_simps assms(4))
  moreover have "reg_inv (pp_reg x')" "m" using drain_inv [OF d i] by auto
  moreover have "escrows (pp_reg x') \<inter> removed (pp_reg x') = {}" by (rule reg_invD(3)) fact
  ultimately show ?thesis by (auto simp: is_escrow_def)
qed

section \<open>Pauses end\<close>

lemma execute_pause:
  assumes "execute sv now c seq closed x = (x', m, r)" and "pp_paused_until x \<le> bound" and "now + hour \<le> bound" and "0 \<le> bound"
  shows "pp_paused_until x' \<le> bound"
proof -
  have "pause_ttl c \<le> hour"
    by (auto simp: pause_ttl_def Let_def max_pause_ttl_def default_pause_ttl_def hour_def minute_def second_def)
  then show ?thesis
    using assms
    by (auto simp: execute_def Let_def set_pause_def split: kind.splits prod.splits if_splits
        dest!: fetch_and_publish_keeps(4))
qed

lemma publish_all_blocked: "publish_all pub es s = (s', Blocked) \<Longrightarrow> \<exists>e t t'. pub e t = (t', Blocked)"
proof (induction es arbitrary: s)
  case (Cons e es)
  obtain s1 r1 where p: "pub e s = (s1, r1)" by (cases "pub e s")
  with Cons show ?case by (cases r1) auto
qed simp

lemma execute_blocked:
  "execute sv now c seq closed x = (x', m, Blocked) \<Longrightarrow> \<exists>e s s'. sv_publish sv e s = (s', Blocked)"
  by (auto simp: execute_def Let_def fetch_and_publish_def split: kind.splits prod.splits if_splits sum.splits
      dest!: publish_all_blocked)

lemma hold_loop_ends:
  assumes "\<forall>(t, ev)\<in>set evs. ev \<noteq> HoldCancelled \<and> (\<forall>t' c. ev = HoldCommand t' c \<longrightarrow> t' + hour \<le> bound)"
    and "pp_paused_until x \<le> bound" and "0 \<le> bound" and "\<exists>(t, ev)\<in>set evs. bound \<le> t"
    and "hold_loop sv on_mut evs seq closed x = (x', r)"
  shows "r \<noteq> Blocked \<or> (\<exists>e s s'. sv_publish sv e s = (s', Blocked))"
  using assms
proof (induction evs arbitrary: x)
  case (Cons te evs)
  obtain now ev where te: "te = (now, ev)" by (cases te)
  show ?case
  proof (cases "is_paused now x")
    case False
    with Cons.prems(5) te show ?thesis by simp
  next
    case True
    then have "\<not> bound \<le> now" using Cons.prems(2) by (simp add: is_paused_def)
    then have later: "\<exists>(t, ev)\<in>set evs. bound \<le> t" using Cons.prems(4) te by auto
    have rest: "\<forall>(t, ev)\<in>set evs. ev \<noteq> HoldCancelled \<and> (\<forall>t' c. ev = HoldCommand t' c \<longrightarrow> t' + hour \<le> bound)"
      using Cons.prems(1) by simp
    show ?thesis
    proof (cases ev)
      case HoldCancelled
      with Cons.prems(1) te show ?thesis by simp
    next
      case HoldSecond
      with Cons.prems(5) te True have "hold_loop sv on_mut evs seq closed x = (x', r)" by simp
      from Cons.IH [OF rest Cons.prems(2,3) later this] show ?thesis .
    next
      case (HoldCommand t c)
      obtain x1 m1 r1 where e: "execute sv t c seq closed x = (x1, m1, r1)" by (metis prod_cases3)
      have b: "pp_paused_until x1 \<le> bound"
        by (rule execute_pause [OF e Cons.prems(2) _ Cons.prems(3)]) (use Cons.prems(1) te HoldCommand in auto)
      show ?thesis
      proof (cases "r1 = Delivered")
        case False
        have "r = r1" using Cons.prems(5) te True HoldCommand e False by (cases r1) auto
        moreover have "r1 \<noteq> Blocked \<or> (\<exists>e s s'. sv_publish sv e s = (s', Blocked))"
          using execute_blocked [of sv t c seq closed x x1 m1] e by blast
        ultimately show ?thesis by simp
      next
        case d: True
        show ?thesis
        proof (cases m1)
          case False
          with Cons.prems(5) te True HoldCommand e d have "hold_loop sv on_mut evs seq closed x1 = (x', r)" by simp
          from Cons.IH [OF rest b Cons.prems(3) later this] show ?thesis .
        next
          case m: True
          obtain d1 er where o: "on_mut x1 = (d1, er)" by (cases "on_mut x1")
          show ?thesis
          proof (cases er)
            case None
            with Cons.prems(5) te True HoldCommand e d m o have "hold_loop sv on_mut evs seq closed (x1\<lparr>pp_sink := d1\<rparr>) = (x', r)" by simp
            from Cons.IH [OF rest _ Cons.prems(3) later this] b show ?thesis by simp
          next
            case (Some er')
            with Cons.prems(5) te True HoldCommand e d m o show ?thesis by auto
          qed
        qed
      qed
    qed
  qed
qed simp


text \<open>No pause is left in the executor without being lifted in the tracker too.\<close>

definition lifted :: "'s pipe \<Rightarrow> bool" where
  "lifted x \<longleftrightarrow> pp_paused_until x = 0 \<longrightarrow> tk_paused_until (pp_tracker x) = 0"

lemma execute_lifted:
  assumes "execute sv now c seq closed x = (x', m, r)" and "lifted x"
  shows "lifted x'"
proof (cases "c_kind c \<in> {KindPause, KindResume}")
  case True
  with assms show ?thesis by (auto simp: execute_def set_pause_def set_paused_def lifted_def)
next
  case False
  then have "pp_paused_until x' = pp_paused_until x \<and> pp_tracker x' = pp_tracker x"
    using assms(1) by (auto simp: execute_def Let_def fetch_and_publish_keeps
        split: kind.splits prod.splits if_splits dest: fetch_and_publish_keeps(3,4))
  with assms(2) show ?thesis by (simp add: lifted_def)
qed

lemma hold_loop_clears:
  "hold_loop sv on_mut evs seq closed x = (x', Delivered) \<Longrightarrow> lifted x \<Longrightarrow>
   pp_paused_until x' = 0 \<and> tk_paused_until (pp_tracker x') = 0"
proof (induction sv on_mut evs seq closed x rule: hold_loop.induct)
  case (2 sv on_mut now ev evs seq closed x)
  show ?case
  proof (cases "is_paused now x")
    case False
    with 2 show ?thesis by (auto simp: set_pause_def set_paused_def lifted_def split: if_splits)
  next
    case True
    then show ?thesis
    proof (cases ev)
      case (HoldCommand t c)
      obtain x1 m r1 where e: "execute sv t c seq closed x = (x1, m, r1)" by (cases "execute sv t c seq closed x")
      note l = execute_lifted [OF e "2.prems"(2)]
      from "2.prems"(1) True HoldCommand e have r1: "r1 = Delivered"
        by (auto split: publish_result.splits)
      obtain s o' where om: "on_mut x1 = (s, o')" by (cases "on_mut x1")
      have "lifted (x1\<lparr>pp_sink := s\<rparr>)" using l by (simp add: lifted_def)
      with "2.prems"(1) "2.IH" True HoldCommand e r1 om l show ?thesis
        by (auto split: if_splits option.splits)
    qed (use 2 True in auto)
  qed
qed simp

text \<open>
  C34. A pause ends by itself. If the sink always answers, a hold ends in any run of its select loop in
  which the clock reaches the pause's end and an hour after the last command, whatever commands arrive
  meanwhile; and a hold that was entered and ends without an error leaves no pause behind, neither in the
  executor, which decides whether the next ledger is held, nor in the tracker, which reports not ready
  for as long as it carries one.
\<close>

theorem pause_ends_by_itself:
  assumes "\<forall>(t, ev)\<in>set evs. ev \<noteq> HoldCancelled \<and> (\<forall>t' c. ev = HoldCommand t' c \<longrightarrow> t' + hour \<le> bound)"
    and "pp_paused_until x \<le> bound" and "0 \<le> bound" and "\<exists>(t, ev)\<in>set evs. bound \<le> t"
    and "\<forall>e s. snd (sv_publish sv e s) \<noteq> Blocked"
    and "hold_while_paused sv on_mut now evs seq closed x = (x', r)"
  shows "r \<noteq> Blocked \<and> (r = Delivered \<longrightarrow> (if is_paused now x
    then pp_paused_until x' = 0 \<and> tk_paused_until (pp_tracker x') = 0 else x' = x))"
proof -
  have cleared: "pp_paused_until x' = 0 \<and> tk_paused_until (pp_tracker x') = 0"
    if "hold_loop sv on_mut evs seq closed x = (x', Delivered)" "is_paused now x"
    using hold_loop_clears [OF that(1)] that(2) by (auto simp: is_paused_def lifted_def)
  have nb: "\<not> (\<exists>e s s'. sv_publish sv e s = (s', Blocked))" using assms(5) by (metis snd_conv)
  show ?thesis
  proof (cases "is_paused now x")
    case True
    with assms(6) have h: "hold_loop sv on_mut evs seq closed x = (x', r)" by (simp add: hold_while_paused_def)
    from hold_loop_ends [OF assms(1-4) h] nb cleared [OF _ True] h True show ?thesis by auto
  next
    case False
    with assms(6) show ?thesis by (simp add: hold_while_paused_def)
  qed
qed


section \<open>An executor for the examples\<close>

definition sample_services :: "string list services" where
  "sample_services = \<lparr>sv_sdk = sample_sdk, sv_rpc = no_entries, sv_publish = noop_publish, sv_network = ''testnet''\<rparr>"

definition sample_pipe :: "string list pipe" where
  "sample_pipe = \<lparr>pp_reg = sample_registry\<lparr>escrows := {gone_id}\<rparr>, pp_det = gone_detector, pp_sweeper = new_sweeper,
     pp_tracker = new_tracker ''testnet'' 1, pp_paused_until = 0, pp_sink = []\<rparr>"

lemma sample_pipe_inv: "reg_inv (pp_reg sample_pipe)"
  using sample_inv by (simp add: sample_pipe_def reg_inv_def sample_registry_def gone_id_def)

definition remove_gone :: command where
  "remove_gone = zero_command\<lparr>c_kind := KindRemoveEscrow, c_contract_id := gone_id\<rparr>"

definition reseed_gone :: command where
  "reseed_gone = zero_command\<lparr>c_kind := KindReseed, c_contract_ids := [gone_id]\<rparr>"

lemma mutation_is_reported_witness:
  "\<exists>x' m. execute sample_services 5 remove_gone 9 0 sample_pipe = (x', m, Delivered) \<and> pp_reg x' \<noteq> pp_reg sample_pipe \<and> m"
proof -
  let ?x = "sample_pipe\<lparr>pp_reg := fst (remove gone_id (pp_reg sample_pipe))\<rparr>"
  have e: "execute sample_services 5 remove_gone 9 0 sample_pipe = (?x, True, Delivered)"
    by (simp add: execute_def remove_gone_def)
  have "escrows (pp_reg ?x) \<noteq> escrows (pp_reg sample_pipe)"
    by (simp add: reg_simps sample_pipe_def) (simp add: gone_id_def)
  then have "pp_reg ?x \<noteq> pp_reg sample_pipe" by metis
  with mutation_is_reported [OF e sample_pipe_inv] e show ?thesis by blast
qed

lemma removal_outlasts_commands_witness:
  "\<exists>x' m r. drain_commands sample_services [(5, remove_gone), (6, reseed_gone)] 9 0 sample_pipe False = (x', m, r) \<and>
     \<not> is_escrow (pp_reg x') gone_id"
proof -
  obtain x' m r where d: "drain_commands sample_services [(5, remove_gone), (6, reseed_gone)] 9 0 sample_pipe False = (x', m, r)"
    by (metis prod_cases3)
  have "\<not> is_escrow (pp_reg x') gone_id \<and> gone_id \<in> removed (pp_reg x') \<and> m"
    by (rule removal_outlasts_commands [OF sample_pipe_inv _ _ _ _ d])
      (simp_all add: remove_gone_def reseed_gone_def zero_command_def, simp add: gone_id_def)
  with d show ?thesis by blast
qed

lemma pause_ends_by_itself_witness:
  "\<exists>x'. hold_while_paused sample_services (\<lambda>x. (pp_sink x, None)) 5 [(5, HoldSecond), (4000 * second, HoldSecond)] 9 0
      (sample_pipe\<lparr>pp_paused_until := 60 * second\<rparr>) = (x', Delivered) \<and> tk_paused_until (pp_tracker x') = 0"
proof -
  obtain x' r where h: "hold_while_paused sample_services (\<lambda>x. (pp_sink x, None)) 5 [(5, HoldSecond), (4000 * second, HoldSecond)] 9 0
      (sample_pipe\<lparr>pp_paused_until := 60 * second\<rparr>) = (x', r)" by fastforce
  have p: "is_paused 5 (sample_pipe\<lparr>pp_paused_until := 60 * second\<rparr>)" by (simp add: is_paused_def second_def)
  have "r = Delivered"
    using h by (auto simp: hold_while_paused_def is_paused_def second_def)
  moreover have "r \<noteq> Blocked \<and> (r = Delivered \<longrightarrow>
    (if is_paused 5 (sample_pipe\<lparr>pp_paused_until := 60 * second\<rparr>)
     then pp_paused_until x' = 0 \<and> tk_paused_until (pp_tracker x') = 0 else x' = sample_pipe\<lparr>pp_paused_until := 60 * second\<rparr>))"
    by (rule pause_ends_by_itself [where bound = "4000 * second", OF _ _ _ _ _ h])
      (simp_all add: second_def sample_services_def noop_publish_def)
  ultimately show ?thesis using h p by auto
qed

end
