(* ===== verification/FileStore.thy ===== *)
theory FileStore
  imports GoText
begin

text \<open>
  \<open>internal/state\<close>: the persisted record, the file store with its two files, the null store of replays,
  the lock-free watchlist reader and the seed file. The file system is a map from paths to contents; what
  each of its operations does when it fails, or when the process dies in it, is given by a fault for the
  \<open>n\<close>-th operation.
\<close>

section \<open>The record\<close>

record gap =
  gap_from :: u32
  gap_to :: u32
  gap_reason :: string
  gap_detected :: time

record istate =
  st_version :: int
  st_network :: string
  st_last_seq :: u32
  st_last_hash :: string
  st_escrows :: "string list"
  st_removed :: "string list"
  st_gaps :: "gap list"

definition current_version :: int where "current_version = 1"

definition zero_state :: istate where
  "zero_state = \<lparr>st_version = 0, st_network = [], st_last_seq = 0, st_last_hash = [], st_escrows = [], st_removed = [], st_gaps = []\<rparr>"

section \<open>JSON files\<close>

text \<open>
  A file holds a JSON object, in some textual layout, or bytes that are no JSON. \<open>json.Marshal\<close> writes
  the compact layout \<open>[]\<close>, every string coerced to UTF-8, and is injective on what is left, so comparing
  its bytes compares layout and members. \<open>json.Unmarshal\<close> ignores the layout, leaves absent members at
  zero, fails on a member of another type, and coerces the strings it reads in the same way.
\<close>

datatype doc_value = DInt int | DU32 u32 | DStr string | DStrs "string list" | DGaps "gap list"

datatype content = Doc string "(string \<times> doc_value) list" | Garbage string

definition gap_text :: "gap \<Rightarrow> gap" where
  "gap_text g = g\<lparr>gap_reason := json_text (gap_reason g)\<rparr>"

definition member :: "bool \<Rightarrow> string \<Rightarrow> doc_value \<Rightarrow> (string \<times> doc_value) list" where
  "member omitted name v = (if omitted then [] else [(name, v)])"

definition read_int :: "(string \<times> doc_value) list \<Rightarrow> string \<Rightarrow> int option" where
  "read_int d n = (case map_of d n of None \<Rightarrow> Some 0 | Some (DInt i) \<Rightarrow> Some i | Some _ \<Rightarrow> None)"
definition read_u32 :: "(string \<times> doc_value) list \<Rightarrow> string \<Rightarrow> u32 option" where
  "read_u32 d n = (case map_of d n of None \<Rightarrow> Some 0 | Some (DU32 w) \<Rightarrow> Some w | Some _ \<Rightarrow> None)"
definition read_str :: "(string \<times> doc_value) list \<Rightarrow> string \<Rightarrow> string option" where
  "read_str d n = (case map_of d n of None \<Rightarrow> Some [] | Some (DStr s) \<Rightarrow> Some (json_text s) | Some _ \<Rightarrow> None)"
definition read_strs :: "(string \<times> doc_value) list \<Rightarrow> string \<Rightarrow> string list option" where
  "read_strs d n = (case map_of d n of None \<Rightarrow> Some [] | Some (DStrs s) \<Rightarrow> Some (map json_text s) | Some _ \<Rightarrow> None)"
definition read_gaps :: "(string \<times> doc_value) list \<Rightarrow> string \<Rightarrow> gap list option" where
  "read_gaps d n = (case map_of d n of None \<Rightarrow> Some [] | Some (DGaps g) \<Rightarrow> Some (map gap_text g) | Some _ \<Rightarrow> None)"

lemmas read_defs = read_int_def read_u32_def read_str_def read_strs_def read_gaps_def

text \<open>\<open>json.Unmarshal\<close> into \<open>State\<close>, which the cursor file and a file of before the split both parse as.\<close>

definition unmarshal_state :: "content \<Rightarrow> istate option" where
  "unmarshal_state c = (case c of Garbage _ \<Rightarrow> None | Doc _ d \<Rightarrow>
     (case (read_int d ''version'', read_str d ''network'', read_u32 d ''last_ledger_seq'', read_str d ''last_ledger_hash'',
            read_strs d ''escrow_contracts'', read_strs d ''removed_escrows'', read_gaps d ''gaps'') of
        (Some v, Some n, Some l, Some h, Some e, Some r, Some g) \<Rightarrow>
          Some \<lparr>st_version = v, st_network = n, st_last_seq = l, st_last_hash = h, st_escrows = e, st_removed = r, st_gaps = g\<rparr>
      | _ \<Rightarrow> None))"

record watchlist_record =
  wl_version :: int
  wl_network :: string
  wl_escrows :: "string list"
  wl_removed :: "string list"
  wl_gaps :: "gap list"

definition unmarshal_watchlist :: "content \<Rightarrow> watchlist_record option" where
  "unmarshal_watchlist c = (case c of Garbage _ \<Rightarrow> None | Doc _ d \<Rightarrow>
     (case (read_int d ''version'', read_str d ''network'', read_strs d ''escrow_contracts'', read_strs d ''removed_escrows'', read_gaps d ''gaps'') of
        (Some v, Some n, Some e, Some r, Some g) \<Rightarrow>
          Some \<lparr>wl_version = v, wl_network = n, wl_escrows = e, wl_removed = r, wl_gaps = g\<rparr>
      | _ \<Rightarrow> None))"

definition marshal_watchlist :: "watchlist_record \<Rightarrow> content" where
  "marshal_watchlist w = Doc [] ([(''version'', DInt (wl_version w)), (''network'', DStr (json_text (wl_network w))),
     (''escrow_contracts'', DStrs (map json_text (wl_escrows w)))] @
     member (wl_removed w = []) ''removed_escrows'' (DStrs (map json_text (wl_removed w))) @
     member (wl_gaps w = []) ''gaps'' (DGaps (map gap_text (wl_gaps w))))"

record cursor_record =
  cr_version :: int
  cr_network :: string
  cr_last_seq :: u32
  cr_last_hash :: string

definition marshal_cursor :: "cursor_record \<Rightarrow> content" where
  "marshal_cursor c = Doc [] ([(''version'', DInt (cr_version c)), (''network'', DStr (json_text (cr_network c))),
     (''last_ledger_seq'', DU32 (cr_last_seq c))] @
     member (cr_last_hash c = []) ''last_ledger_hash'' (DStr (json_text (cr_last_hash c))))"

section \<open>The file system\<close>

text \<open>
  \<open>Fails left\<close> and \<open>CrashBefore left\<close> leave \<open>left\<close> at the path that a write was writing to: nothing,
  or any content, a truncated one for example. A rename is atomic: it has happened or it has not.
\<close>

datatype fault = Fine | Fails "content option" | CrashBefore "content option" | CrashAfter

record disk =
  files :: "string \<Rightarrow> content option"
  ops :: nat
  unreadable :: "string set"
  locks :: "string set"

datatype io = Done | IoErr err | Dead

definition tick :: "disk \<Rightarrow> disk" where "tick w = w\<lparr>ops := ops w + 1\<rparr>"

definition write_file_sync :: "(nat \<Rightarrow> fault) \<Rightarrow> string \<Rightarrow> content \<Rightarrow> disk \<Rightarrow> disk \<times> io" where
  "write_file_sync flt p c w =
     (let w' = tick w in case flt (ops w) of
        Fine \<Rightarrow> (w'\<lparr>files := (files w)(p := Some c)\<rparr>, Done)
      | Fails left \<Rightarrow> (w'\<lparr>files := (files w)(p := left)\<rparr>, IoErr (ErrOther ''write''))
      | CrashBefore left \<Rightarrow> (w'\<lparr>files := (files w)(p := left)\<rparr>, Dead)
      | CrashAfter \<Rightarrow> (w'\<lparr>files := (files w)(p := Some c)\<rparr>, Dead))"

definition rename :: "(nat \<Rightarrow> fault) \<Rightarrow> string \<Rightarrow> string \<Rightarrow> disk \<Rightarrow> disk \<times> io" where
  "rename flt a b w =
     (let w' = tick w; moved = w'\<lparr>files := (files w)(b := files w a, a := None)\<rparr> in case flt (ops w) of
        Fine \<Rightarrow> (moved, Done)
      | Fails _ \<Rightarrow> (w', IoErr (ErrOther ''rename''))
      | CrashBefore _ \<Rightarrow> (w', Dead)
      | CrashAfter \<Rightarrow> (moved, Dead))"

definition remove_file :: "(nat \<Rightarrow> fault) \<Rightarrow> string \<Rightarrow> disk \<Rightarrow> disk \<times> bool" where
  "remove_file flt p w =
     (let w' = tick w; gone = w'\<lparr>files := (files w)(p := None)\<rparr> in case flt (ops w) of
        Fine \<Rightarrow> (gone, True)
      | Fails _ \<Rightarrow> (w', True)
      | CrashBefore _ \<Rightarrow> (w', False)
      | CrashAfter \<Rightarrow> (gone, False))"

definition atomic_write :: "(nat \<Rightarrow> fault) \<Rightarrow> string \<Rightarrow> content \<Rightarrow> disk \<Rightarrow> disk \<times> io" where
  "atomic_write flt p c w =
     (let tmp = p @ ''.tmp'' in
      case write_file_sync flt tmp c w of
        (w1, Dead) \<Rightarrow> (w1, Dead)
      | (w1, IoErr e) \<Rightarrow> (case remove_file flt tmp w1 of (w2, alive) \<Rightarrow> (w2, if alive then IoErr e else Dead))
      | (w1, Done) \<Rightarrow>
          (case rename flt tmp p w1 of
             (w2, Dead) \<Rightarrow> (w2, Dead)
           | (w2, IoErr e) \<Rightarrow> (case remove_file flt tmp w2 of (w3, alive) \<Rightarrow> (w3, if alive then IoErr e else Dead))
           | (w2, Done) \<Rightarrow> (w2, Done)))"

section \<open>The file store\<close>

text \<open>\<open>fs_lock\<close> says that the lock file is open; \<open>fs_last\<close> is \<open>lastWatchlist\<close>.\<close>

record file_store =
  fs_path :: string
  fs_lock :: bool
  fs_last :: "content option"

definition watchlist_path :: "string \<Rightarrow> string" where
  "watchlist_path p = (if has_suffix p ''.json'' then trim_suffix p ''.json'' @ ''.watchlist.json'' else p @ ''.watchlist'')"

text \<open>\<open>prep\<close> is the error of creating the directory or of opening the lock file, if any.\<close>

definition new_file_store :: "err option \<Rightarrow> string \<Rightarrow> disk \<Rightarrow> disk \<times> (err + file_store)" where
  "new_file_store prep p w =
     (if p = [] then (w, Err (ErrOther ''state path must not be empty''))
      else case prep of Some e \<Rightarrow> (w, Err e)
      | None \<Rightarrow>
          let lock = p @ ''.lock'' in
          if lock \<in> locks w then (w, Err ErrStateLockHeld)
          else (w\<lparr>locks := insert lock (locks w)\<rparr>, Ok \<lparr>fs_path = p, fs_lock = True, fs_last = None\<rparr>))"

definition close_store :: "file_store \<Rightarrow> disk \<Rightarrow> file_store \<times> disk" where
  "close_store s w =
     (if \<not> fs_lock s then (s, w) else (s\<lparr>fs_lock := False\<rparr>, w\<lparr>locks := locks w - {fs_path s @ ''.lock''}\<rparr>))"

datatype read_result = NotExist | ReadErr | Bytes content

definition read_file :: "disk \<Rightarrow> string \<Rightarrow> read_result" where
  "read_file w p = (if p \<in> unreadable w then ReadErr else case files w p of None \<Rightarrow> NotExist | Some c \<Rightarrow> Bytes c)"

definition load_orphan_watchlist :: "disk \<Rightarrow> file_store \<Rightarrow> file_store \<times> istate \<times> err option" where
  "load_orphan_watchlist w s =
     (case read_file w (watchlist_path (fs_path s)) of
        NotExist \<Rightarrow> (s, zero_state, Some ErrStateNotFound)
      | ReadErr \<Rightarrow> (s, zero_state, Some (ErrOther ''reading watchlist file''))
      | Bytes c \<Rightarrow>
          (case unmarshal_watchlist c of None \<Rightarrow> (s, zero_state, Some ErrStateCorrupted)
           | Some wl \<Rightarrow> (s\<lparr>fs_last := Some c\<rparr>,
               zero_state\<lparr>st_network := wl_network wl, st_escrows := wl_escrows wl, st_removed := wl_removed wl, st_gaps := wl_gaps wl\<rparr>,
               Some ErrStateNotFound)))"

definition load :: "disk \<Rightarrow> file_store \<Rightarrow> file_store \<times> istate \<times> err option" where
  "load w s =
     (case read_file w (fs_path s) of
        NotExist \<Rightarrow> load_orphan_watchlist w s
      | ReadErr \<Rightarrow> (s, zero_state, Some (ErrOther ''reading state file''))
      | Bytes c \<Rightarrow>
          (case unmarshal_state c of None \<Rightarrow> (s, zero_state, Some ErrStateCorrupted)
           | Some st \<Rightarrow>
              (case read_file w (watchlist_path (fs_path s)) of
                 NotExist \<Rightarrow> (s, st, None)
               | ReadErr \<Rightarrow> (s, zero_state, Some (ErrOther ''reading watchlist file''))
               | Bytes d \<Rightarrow>
                   (case unmarshal_watchlist d of None \<Rightarrow> (s, zero_state, Some ErrStateCorrupted)
                    | Some wl \<Rightarrow> (s\<lparr>fs_last := Some d\<rparr>,
                        st\<lparr>st_escrows := wl_escrows wl, st_removed := wl_removed wl, st_gaps := wl_gaps wl\<rparr>, None)))))"

definition watchlist_of :: "istate \<Rightarrow> content" where
  "watchlist_of st = marshal_watchlist \<lparr>wl_version = current_version, wl_network = st_network st, wl_escrows = st_escrows st,
     wl_removed = st_removed st, wl_gaps = st_gaps st\<rparr>"

definition cursor_of :: "istate \<Rightarrow> content" where
  "cursor_of st = marshal_cursor \<lparr>cr_version = current_version, cr_network = st_network st, cr_last_seq = st_last_seq st,
     cr_last_hash = st_last_hash st\<rparr>"

text \<open>The first half of \<open>Save\<close>: the watchlist file, when its bytes have changed.\<close>

definition save_watchlist :: "(nat \<Rightarrow> fault) \<Rightarrow> content \<Rightarrow> file_store \<Rightarrow> disk \<Rightarrow> file_store \<times> disk \<times> io" where
  "save_watchlist flt wl s w =
     (if Some wl = fs_last s then (s, w, Done)
      else case atomic_write flt (watchlist_path (fs_path s)) wl w of
        (w1, Done) \<Rightarrow> (s\<lparr>fs_last := Some wl\<rparr>, w1, Done)
      | (w1, r) \<Rightarrow> (s, w1, r))"

definition save :: "(nat \<Rightarrow> fault) \<Rightarrow> istate \<Rightarrow> file_store \<Rightarrow> disk \<Rightarrow> file_store \<times> disk \<times> io" where
  "save flt st s w =
     (case save_watchlist flt (watchlist_of st) s w of
        (s1, w1, Done) \<Rightarrow> (case atomic_write flt (fs_path s) (cursor_of st) w1 of (w2, r2) \<Rightarrow> (s1, w2, r2))
      | (s1, w1, r1) \<Rightarrow> (s1, w1, r1))"

section \<open>The other readers\<close>

definition null_load :: "istate \<times> err option" where "null_load = (zero_state, Some ErrStateNotFound)"
definition null_save :: "istate \<Rightarrow> err option" where "null_save st = None"

definition read_only_watchlist :: "disk \<Rightarrow> string \<Rightarrow> (string list \<times> string list) \<times> err option" where
  "read_only_watchlist w p =
     (case read_file w (watchlist_path p) of
        Bytes c \<Rightarrow> (case unmarshal_watchlist c of None \<Rightarrow> (([], []), Some ErrStateCorrupted)
                    | Some wl \<Rightarrow> ((wl_escrows wl, wl_removed wl), None))
      | ReadErr \<Rightarrow> (([], []), Some (ErrOther ''reading watchlist file''))
      | NotExist \<Rightarrow>
          (case read_file w p of
             NotExist \<Rightarrow> (([], []), None)
           | ReadErr \<Rightarrow> (([], []), Some (ErrOther ''reading state file''))
           | Bytes c \<Rightarrow> (case unmarshal_state c of None \<Rightarrow> (([], []), Some ErrStateCorrupted)
                        | Some st \<Rightarrow> ((st_escrows st, st_removed st), None))))"

text \<open>\<open>LoadSeed\<close> over the lines that \<open>bufio.Scanner\<close> yields; \<open>None\<close> is a file that cannot be opened, the
  second component an error that ends the scan.\<close>

fun seed_lines :: "string list \<Rightarrow> string list" where
  "seed_lines [] = []"
| "seed_lines (l # ls) =
     (let line = trim_space l in
      if line = [] \<or> take 1 line = ''#'' then seed_lines ls else line # seed_lines ls)"

definition load_seed :: "string \<Rightarrow> (string list \<times> err option) option \<Rightarrow> err + string list" where
  "load_seed p lines =
     (if trim_space p = [] then Ok []
      else case lines of
        None \<Rightarrow> Err (ErrOther ''escrow seed'')
      | Some (ls, None) \<Rightarrow> Ok (seed_lines ls)
      | Some (ls, Some e) \<Rightarrow> Err e)"


section \<open>Paths\<close>

lemma watchlist_path_cases:
  "(\<exists>b. p = b @ ''.json'' \<and> watchlist_path p = b @ ''.watchlist.json'') \<or> watchlist_path p = p @ ''.watchlist''"
  unfolding watchlist_path_def by (metis has_suffixE trim_suffix_append)

lemma paths_distinct [simp]:
  "watchlist_path p \<noteq> p" "p \<noteq> watchlist_path p" "p @ ''.tmp'' \<noteq> watchlist_path p" "watchlist_path p \<noteq> p @ ''.tmp''"
  "watchlist_path p @ ''.tmp'' \<noteq> p" "p \<noteq> watchlist_path p @ ''.tmp''"
proof -
  have last: "last (watchlist_path p) \<in> {CHR ''n'', CHR ''t''}" and len: "length p < length (watchlist_path p)"
    using watchlist_path_cases [of p] by auto
  from len show "watchlist_path p \<noteq> p" "p \<noteq> watchlist_path p" by auto
  show "watchlist_path p @ ''.tmp'' \<noteq> p" "p \<noteq> watchlist_path p @ ''.tmp''"
    using len by (metis length_append not_add_less1)+
  from last show "p @ ''.tmp'' \<noteq> watchlist_path p" "watchlist_path p \<noteq> p @ ''.tmp''" by (auto dest: arg_cong [of _ _ last])
qed

section \<open>Atomic writes\<close>

lemma atomic_write_spec:
  assumes "atomic_write flt p c w = (w', r)"
  shows "files w' p = files w p \<or> files w' p = Some c" and "r = Done \<Longrightarrow> files w' p = Some c"
    and "r = IoErr e \<Longrightarrow> files w' p = files w p"
    and "q \<noteq> p \<Longrightarrow> q \<noteq> p @ ''.tmp'' \<Longrightarrow> files w' q = files w q"
    and "unreadable w' = unreadable w" and "locks w' = locks w"
  using assms
  by (auto simp: atomic_write_def write_file_sync_def rename_def remove_file_def tick_def Let_def
      split: fault.splits prod.splits io.splits if_splits)

text \<open>The cache is right when what it holds is what the watchlist file holds.\<close>

definition cache_ok :: "file_store \<Rightarrow> disk \<Rightarrow> bool" where
  "cache_ok s w \<longleftrightarrow> (fs_last s = None \<or> fs_last s = files w (watchlist_path (fs_path s)))"

lemma save_watchlist_spec:
  assumes "save_watchlist flt wl s w = (s1, w1, r)" and "cache_ok s w"
  shows "files w1 (watchlist_path (fs_path s)) = files w (watchlist_path (fs_path s)) \<and> r \<noteq> Done \<or>
      files w1 (watchlist_path (fs_path s)) = Some wl"
    and "files w1 (fs_path s) = files w (fs_path s)" and "unreadable w1 = unreadable w" and "locks w1 = locks w"
    and "fs_path s1 = fs_path s" and "fs_lock s1 = fs_lock s" and "r \<noteq> Dead \<Longrightarrow> cache_ok s1 w1"
proof -
  let ?wp = "watchlist_path (fs_path s)"
  have "(files w1 ?wp = files w ?wp \<and> r \<noteq> Done \<or> files w1 ?wp = Some wl) \<and> files w1 (fs_path s) = files w (fs_path s) \<and>
      unreadable w1 = unreadable w \<and> locks w1 = locks w \<and> fs_path s1 = fs_path s \<and> fs_lock s1 = fs_lock s \<and>
      (r \<noteq> Dead \<longrightarrow> cache_ok s1 w1)"
  proof (cases "Some wl = fs_last s")
    case True
    with assms show ?thesis by (auto simp: save_watchlist_def cache_ok_def)
  next
    case False
    obtain w2 r2 where w: "atomic_write flt ?wp wl w = (w2, r2)" by (cases "atomic_write flt ?wp wl w")
    note S = atomic_write_spec [OF w]
    have q: "files w2 (fs_path s) = files w (fs_path s)" by (rule S(4)) simp_all
    from assms(1) False w have "w1 = w2 \<and> r = r2 \<and> s1 = (if r2 = Done then s\<lparr>fs_last := Some wl\<rparr> else s)"
      by (cases r2) (auto simp: save_watchlist_def)
    then show ?thesis using S(1,2,5,6) S(3) [of _] q assms(2) by (cases r2) (simp_all add: cache_ok_def)
  qed
  then show "files w1 (watchlist_path (fs_path s)) = files w (watchlist_path (fs_path s)) \<and> r \<noteq> Done \<or>
      files w1 (watchlist_path (fs_path s)) = Some wl"
    and "files w1 (fs_path s) = files w (fs_path s)" and "unreadable w1 = unreadable w" and "locks w1 = locks w"
    and "fs_path s1 = fs_path s" and "fs_lock s1 = fs_lock s" and "r \<noteq> Dead \<Longrightarrow> cache_ok s1 w1"
    by blast+
qed

lemma save_files:
  assumes "save flt st s w = (s', w', r)" and "cache_ok s w"
  shows "files w' (watchlist_path (fs_path s)) = files w (watchlist_path (fs_path s)) \<and> files w' (fs_path s) = files w (fs_path s) \<and> r \<noteq> Done \<or>
     files w' (watchlist_path (fs_path s)) = Some (watchlist_of st) \<and>
       (files w' (fs_path s) = files w (fs_path s) \<and> r \<noteq> Done \<or> files w' (fs_path s) = Some (cursor_of st))"
    and "unreadable w' = unreadable w" and "locks w' = locks w" and "fs_path s' = fs_path s" and "fs_lock s' = fs_lock s"
    and "r \<noteq> Dead \<Longrightarrow> cache_ok s' w'"
proof -
  let ?p = "fs_path s" and ?wp = "watchlist_path (fs_path s)"
  obtain s1 w1 r1 where a: "save_watchlist flt (watchlist_of st) s w = (s1, w1, r1)" by (metis prod_cases3)
  note A = save_watchlist_spec [OF a assms(2)]
  have "(files w' ?wp = files w ?wp \<and> files w' ?p = files w ?p \<and> r \<noteq> Done \<or>
     files w' ?wp = Some (watchlist_of st) \<and> (files w' ?p = files w ?p \<and> r \<noteq> Done \<or> files w' ?p = Some (cursor_of st))) \<and>
     unreadable w' = unreadable w \<and> locks w' = locks w \<and> fs_path s' = ?p \<and> fs_lock s' = fs_lock s \<and> (r \<noteq> Dead \<longrightarrow> cache_ok s' w')"
  proof (cases "r1 = Done")
    case False
    with assms(1) a have "s' = s1 \<and> w' = w1 \<and> r = r1" by (cases r1) (auto simp: save_def)
    with A False show ?thesis by auto
  next
    case True
    obtain w2 r2 where b: "atomic_write flt ?p (cursor_of st) w1 = (w2, r2)" by (cases "atomic_write flt ?p (cursor_of st) w1")
    note B = atomic_write_spec [OF b]
    have q: "files w2 ?wp = files w1 ?wp" by (rule B(4)) simp_all
    from assms(1) a True b have "s' = s1" "w' = w2" "r = r2" by (simp_all add: save_def)
    with A True B(1,2,5,6) q show ?thesis by (auto simp: cache_ok_def)
  qed
  then show "files w' (watchlist_path (fs_path s)) = files w (watchlist_path (fs_path s)) \<and> files w' (fs_path s) = files w (fs_path s) \<and> r \<noteq> Done \<or>
     files w' (watchlist_path (fs_path s)) = Some (watchlist_of st) \<and>
       (files w' (fs_path s) = files w (fs_path s) \<and> r \<noteq> Done \<or> files w' (fs_path s) = Some (cursor_of st))"
    and "unreadable w' = unreadable w" and "locks w' = locks w" and "fs_path s' = fs_path s" and "fs_lock s' = fs_lock s"
    and "r \<noteq> Dead \<Longrightarrow> cache_ok s' w'"
    by blast+
qed


section \<open>What a fresh process finds\<close>

lemma map_of_member: "map_of (member z n v @ rest) m = (if \<not> z \<and> m = n then Some v else map_of rest m)"
  "map_of (member z n v) m = (if \<not> z \<and> m = n then Some v else None)"
  by (simp_all add: member_def)

text \<open>A record with its strings as JSON has them.\<close>

definition as_text :: "istate \<Rightarrow> istate" where
  "as_text st = st\<lparr>st_network := json_text (st_network st), st_last_hash := json_text (st_last_hash st),
     st_escrows := map json_text (st_escrows st), st_removed := map json_text (st_removed st), st_gaps := map gap_text (st_gaps st)\<rparr>"

lemma gap_text_idem [simp]: "gap_text (gap_text g) = gap_text g" "gap_text \<circ> gap_text = gap_text"
  by (simp_all add: gap_text_def fun_eq_iff)

lemma gap_text_range [simp]: "gap_from (gap_text g) = gap_from g" "gap_to (gap_text g) = gap_to g"
  by (simp_all add: gap_text_def)

lemma json_text_comp [simp]: "json_text \<circ> json_text = json_text"
  by (simp add: fun_eq_iff)

lemma as_text_idem [simp]: "as_text (as_text st) = as_text st"
  by (simp add: as_text_def)

lemma as_text_simps [simp]:
  "st_network (as_text st) = json_text (st_network st)" "st_last_hash (as_text st) = json_text (st_last_hash st)"
  "st_escrows (as_text st) = map json_text (st_escrows st)" "st_removed (as_text st) = map json_text (st_removed st)"
  "st_gaps (as_text st) = map gap_text (st_gaps st)" "st_last_seq (as_text st) = st_last_seq st"
  "st_version (as_text st) = st_version st"
  by (simp_all add: as_text_def)

text \<open>What \<open>Save\<close> writes does not tell a record from its coerced form.\<close>

lemma of_as_text [simp]: "cursor_of (as_text st) = cursor_of st" "watchlist_of (as_text st) = watchlist_of st"
  by (simp_all add: cursor_of_def watchlist_of_def marshal_cursor_def marshal_watchlist_def)

lemma unmarshal_watchlist_of [simp]:
  "unmarshal_watchlist (watchlist_of st) = Some \<lparr>wl_version = current_version, wl_network = json_text (st_network st),
     wl_escrows = map json_text (st_escrows st), wl_removed = map json_text (st_removed st), wl_gaps = map gap_text (st_gaps st)\<rparr>"
  by (simp add: watchlist_of_def marshal_watchlist_def unmarshal_watchlist_def read_defs map_of_member del: map_of_append)

definition cursor_state :: "istate \<Rightarrow> istate" where
  "cursor_state st = zero_state\<lparr>st_version := current_version, st_network := json_text (st_network st), st_last_seq := st_last_seq st,
     st_last_hash := json_text (st_last_hash st)\<rparr>"

lemma unmarshal_cursor_of [simp]: "unmarshal_state (cursor_of st) = Some (cursor_state st)"
  by (simp add: cursor_of_def marshal_cursor_def unmarshal_state_def read_defs map_of_member cursor_state_def zero_state_def
      del: map_of_append)

definition fresh :: "string \<Rightarrow> file_store" where
  "fresh p = \<lparr>fs_path = p, fs_lock = True, fs_last = None\<rparr>"

definition loaded :: "disk \<Rightarrow> string \<Rightarrow> istate \<times> err option" where
  "loaded w p = snd (load w (fresh p))"

text \<open>The record as it comes back: its strings coerced, with the version that \<open>Save\<close> stamps.\<close>

definition stamped :: "istate \<Rightarrow> istate" where
  "stamped st = (as_text st)\<lparr>st_version := current_version\<rparr>"

text \<open>The cursor of one record and the watchlist of another.\<close>

definition mixed :: "istate \<Rightarrow> istate \<Rightarrow> istate" where
  "mixed cur wl = (stamped cur)\<lparr>st_escrows := map json_text (st_escrows wl), st_removed := map json_text (st_removed wl),
     st_gaps := map gap_text (st_gaps wl)\<rparr>"

lemma mixed_same [simp]: "mixed st st = stamped st"
  by (simp add: mixed_def stamped_def as_text_def)

definition orphaned :: "istate \<Rightarrow> istate" where
  "orphaned wl = zero_state\<lparr>st_network := json_text (st_network wl), st_escrows := map json_text (st_escrows wl),
     st_removed := map json_text (st_removed wl), st_gaps := map gap_text (st_gaps wl)\<rparr>"

definition readable :: "disk \<Rightarrow> string \<Rightarrow> bool" where
  "readable w p \<longleftrightarrow> p \<notin> unreadable w \<and> watchlist_path p \<notin> unreadable w"

lemma loaded_mixed:
  assumes "readable w p" and "files w p = Some (cursor_of cur)" and "files w (watchlist_path p) = Some (watchlist_of wl)"
  shows "loaded w p = (mixed cur wl, None)"
  using assms by (simp add: loaded_def load_def fresh_def readable_def read_file_def mixed_def stamped_def as_text_def cursor_state_def zero_state_def)

lemma loaded_orphaned:
  assumes "readable w p" and "files w p = None" and "files w (watchlist_path p) = Some (watchlist_of wl)"
  shows "loaded w p = (orphaned wl, Some ErrStateNotFound)"
  using assms by (simp add: loaded_def load_def fresh_def readable_def read_file_def load_orphan_watchlist_def orphaned_def)

lemma loaded_nothing:
  assumes "readable w p" and "files w p = None" and "files w (watchlist_path p) = None"
  shows "loaded w p = (zero_state, Some ErrStateNotFound)"
  using assms by (simp add: loaded_def load_def fresh_def readable_def read_file_def load_orphan_watchlist_def)

definition holds :: "disk \<Rightarrow> string \<Rightarrow> istate \<Rightarrow> bool" where
  "holds w p st \<longleftrightarrow> readable w p \<and> files w p = Some (cursor_of st) \<and> files w (watchlist_path p) = Some (watchlist_of st)"

text \<open>
  C18. A save is crash-safe. Whatever fails and wherever the process dies, a fresh process then reads an
  intact record: the old one, the old cursor with the new watchlist, or the new one, and never a new
  cursor with an old watchlist. A save that reported success has the new one; and unless the process
  died, the store's cache is still right.
\<close>

theorem save_crash_safe:
  assumes "holds w p old" and "fs_path s = p" and "cache_ok s w" and "save flt st s w = (s', w', r)"
  shows "loaded w' p \<in> {(stamped old, None), (mixed old st, None), (stamped st, None)} \<and>
    (r = Done \<longrightarrow> loaded w' p = (stamped st, None)) \<and> (r \<noteq> Dead \<longrightarrow> cache_ok s' w')"
proof -
  note S = save_files [OF assms(4,3), unfolded assms(2)]
  have rd: "readable w' p" using assms(1) S(2) by (simp add: holds_def readable_def)
  have old: "files w p = Some (cursor_of old)" "files w (watchlist_path p) = Some (watchlist_of old)"
    using assms(1) by (simp_all add: holds_def)
  from S(1) consider "r \<noteq> Done" "files w' p = Some (cursor_of old)" "files w' (watchlist_path p) = Some (watchlist_of old)"
    | "r \<noteq> Done" "files w' p = Some (cursor_of old)" "files w' (watchlist_path p) = Some (watchlist_of st)"
    | "files w' p = Some (cursor_of st)" "files w' (watchlist_path p) = Some (watchlist_of st)"
    using old by auto
  then have "loaded w' p = (stamped old, None) \<and> r \<noteq> Done \<or> loaded w' p = (mixed old st, None) \<and> r \<noteq> Done \<or>
      loaded w' p = (stamped st, None)"
    by cases (simp_all add: loaded_mixed [OF rd])
  then show ?thesis using S(6) by auto
qed

text \<open>
  The first save is crash-safe too. On a disk without a record, a fresh process afterwards finds
  nothing, or the new tombstones and gaps without a cursor (\<open>ErrStateNotFound\<close> with the evidence), or
  the new record; success means the new record.
\<close>

theorem first_save_crash_safe:
  assumes "readable w p" and "files w p = None" and "files w (watchlist_path p) = None"
    and "save flt st (fresh p) w = (s', w', r)"
  shows "loaded w' p \<in> {(zero_state, Some ErrStateNotFound), (orphaned st, Some ErrStateNotFound), (stamped st, None)} \<and>
    (r = Done \<longrightarrow> loaded w' p = (stamped st, None))"
proof -
  have c: "cache_ok (fresh p) w" and f: "fs_path (fresh p) = p" by (simp_all add: cache_ok_def fresh_def)
  note S = save_files [OF assms(4) c, unfolded f]
  have rd: "readable w' p" using assms(1) S(2) by (simp add: readable_def)
  from S(1) consider "r \<noteq> Done" "files w' p = None" "files w' (watchlist_path p) = None"
    | "r \<noteq> Done" "files w' p = None" "files w' (watchlist_path p) = Some (watchlist_of st)"
    | "files w' p = Some (cursor_of st)" "files w' (watchlist_path p) = Some (watchlist_of st)"
    using assms(2,3) by auto
  then have "loaded w' p = (zero_state, Some ErrStateNotFound) \<and> r \<noteq> Done \<or>
      loaded w' p = (orphaned st, Some ErrStateNotFound) \<and> r \<noteq> Done \<or> loaded w' p = (stamped st, None)"
    by cases (simp_all add: loaded_mixed [OF rd] loaded_orphaned [OF rd] loaded_nothing [OF rd])
  then show ?thesis by auto
qed

section \<open>Round trip and migration\<close>

lemma atomic_write_fine:
  "atomic_write (\<lambda>_. Fine) p c w = (w\<lparr>ops := ops w + 2, files := (files w)(p @ ''.tmp'' := None, p := Some c)\<rparr>, Done)"
  by (auto simp: atomic_write_def write_file_sync_def rename_def tick_def Let_def fun_eq_iff)

lemma save_fine:
  "\<exists>s' w'. save (\<lambda>_. Fine) st s w = (s', w', Done)"
  by (auto simp: save_def save_watchlist_def atomic_write_fine)

text \<open>The object that the code before the split wrote: the tags of \<open>State\<close>.\<close>

definition legacy_object :: "istate \<Rightarrow> (string \<times> doc_value) list" where
  "legacy_object st = [(''version'', DInt (st_version st)), (''network'', DStr (json_text (st_network st))),
     (''last_ledger_seq'', DU32 (st_last_seq st))] @
     member (st_last_hash st = []) ''last_ledger_hash'' (DStr (json_text (st_last_hash st))) @
     [(''escrow_contracts'', DStrs (map json_text (st_escrows st)))] @
     member (st_removed st = []) ''removed_escrows'' (DStrs (map json_text (st_removed st))) @
     member (st_gaps st = []) ''gaps'' (DGaps (map gap_text (st_gaps st)))"

lemma unmarshal_legacy [simp]: "unmarshal_state (Doc layout (legacy_object st)) = Some (as_text st)"
  by (cases st) (simp add: legacy_object_def unmarshal_state_def as_text_def read_defs map_of_member del: map_of_append)

text \<open>A record whose strings are valid UTF-8 is not changed by the coercion.\<close>

definition textual :: "istate \<Rightarrow> bool" where
  "textual st \<longleftrightarrow> as_text st = st"

lemma textual_stamped: "textual st \<Longrightarrow> stamped st = st\<lparr>st_version := current_version\<rparr>"
  by (simp add: textual_def stamped_def)

lemma stamped_stamped [simp]: "stamped (stamped st) = stamped st"
  by (cases st) (simp add: stamped_def as_text_def)

lemma save_fine_loaded:
  assumes "readable w p" and "fs_path s = p" and "cache_ok s w"
  shows "case save (\<lambda>_. Fine) st s w of (s', w', r) \<Rightarrow>
    r = Done \<and> loaded w' p = (stamped st, None) \<and> readable w' p \<and> fs_path s' = p \<and> cache_ok s' w'"
proof -
  obtain s' w' where s: "save (\<lambda>_. Fine) st s w = (s', w', Done)" using save_fine by blast
  note S = save_files [OF s assms(3), unfolded assms(2)]
  have rd: "readable w' p" using assms(1) S(2) by (simp add: readable_def)
  have "files w' p = Some (cursor_of st)" "files w' (watchlist_path p) = Some (watchlist_of st)" using S(1) by auto
  then have "loaded w' p = (stamped st, None)" using loaded_mixed [OF rd] by simp
  then show ?thesis using s rd S(4,6) assms(2) by simp
qed

text \<open>
  C33. Saving and loading are inverse up to the coercion of JSON, and the migration loses nothing. A file of
  before the split loads, in any layout, as the record it was written from, its strings coerced to UTF-8. On
  any readable disk, with a cache that is right, a save that meets no fault succeeds and a fresh process
  loads the saved record with the current version, its strings coerced: the record itself where they are
  valid UTF-8. The coercion happens once: what was loaded, saved again, loads as exactly the same.
\<close>

theorem save_load_roundtrip:
  assumes "readable w p" and "fs_path s = p" and "cache_ok s w"
  shows "(files w p = Some (Doc layout (legacy_object old)) \<longrightarrow> files w (watchlist_path p) = None \<longrightarrow> loaded w p = (as_text old, None)) \<and>
    (case save (\<lambda>_. Fine) st s w of (s', w', r) \<Rightarrow>
       r = Done \<and> loaded w' p = (stamped st, None) \<and> (textual st \<longrightarrow> stamped st = st\<lparr>st_version := current_version\<rparr>) \<and>
       (case save (\<lambda>_. Fine) (stamped st) s' w' of (s2, w2, r2) \<Rightarrow> r2 = Done \<and> loaded w2 p = (stamped st, None)))"
proof -
  obtain s' w' where s: "save (\<lambda>_. Fine) st s w = (s', w', Done)" using save_fine by blast
  note one = save_fine_loaded [OF assms, of st, unfolded s, simplified]
  have "case save (\<lambda>_. Fine) (stamped st) s' w' of (s2, w2, r2) \<Rightarrow> r2 = Done \<and> loaded w2 p = (stamped st, None)"
    using save_fine_loaded [of w' p s' "stamped st"] one by (auto split: prod.splits)
  moreover have "loaded w p = (as_text old, None)"
    if "files w p = Some (Doc layout (legacy_object old))" "files w (watchlist_path p) = None"
    using that assms(1) by (simp add: loaded_def load_def fresh_def readable_def read_file_def)
  ultimately show ?thesis using s one textual_stamped by simp
qed

text \<open>
  An unchanged watchlist costs no write: a save whose watchlist is the cached one performs the two
  operations of the cursor's replacement and touches no other path than the cursor and its temporary.
\<close>

theorem unchanged_watchlist_not_written:
  assumes "fs_last s = Some (watchlist_of st)"
  shows "case save (\<lambda>_. Fine) st s w of (s', w', r) \<Rightarrow>
    ops w' = ops w + 2 \<and> s' = s \<and> (\<forall>q. q \<notin> {fs_path s, fs_path s @ ''.tmp''} \<longrightarrow> files w' q = files w q)"
  using assms by (simp add: save_def save_watchlist_def atomic_write_fine)


section \<open>The lifetime of a state directory\<close>

text \<open>
  Saves by one process after another: a process that dies in a save, or is restarted, is followed by one
  that loads. \<open>log\<close> are the records of all saves that were attempted.
\<close>

datatype life_event = SaveState istate | Restart

fun life :: "(nat \<Rightarrow> fault) \<Rightarrow> string \<Rightarrow> life_event list \<Rightarrow> file_store \<times> disk \<times> istate list \<Rightarrow> file_store \<times> disk \<times> istate list" where
  "life flt p [] x = x"
| "life flt p (Restart # es) (s, w, log) = life flt p es (fst (load w (fresh p)), w, log)"
| "life flt p (SaveState st # es) (s, w, log) =
     (case save flt st s w of (s', w', r) \<Rightarrow>
        life flt p es (if r = Dead then fst (load w' (fresh p)) else s', w', log @ [st]))"

lemma load_cache_ok:
  "cache_ok (fst (load w (fresh p))) w" "fs_path (fst (load w (fresh p))) = p"
  by (auto simp: load_def load_orphan_watchlist_def read_file_def cache_ok_def fresh_def split: option.splits read_result.splits if_splits)

definition life_ok :: "string \<Rightarrow> file_store \<times> disk \<times> istate list \<Rightarrow> bool" where
  "life_ok p x \<longleftrightarrow> (case x of (s, w, log) \<Rightarrow>
     readable w p \<and> fs_path s = p \<and> cache_ok s w \<and>
     (files w p = None \<and> files w (watchlist_path p) = None \<or>
      (\<exists>j < length log. files w (watchlist_path p) = Some (watchlist_of (log ! j)) \<and>
         (files w p = None \<or> (\<exists>i \<le> j. files w p = Some (cursor_of (log ! i)))))))"

lemma life_ok_save:
  assumes "life_ok p (s, w, log)" and "save flt st s w = (s', w', r)"
  shows "life_ok p (if r = Dead then fst (load w' (fresh p)) else s', w', log @ [st])"
proof -
  have a: "readable w p" "fs_path s = p" "cache_ok s w" using assms(1) by (simp_all add: life_ok_def)
  note S = save_files [OF assms(2) a(3), unfolded a(2)]
  have b: "readable w' p" using a(1) S(2) by (simp add: readable_def)
  have "files w' p = None \<and> files w' (watchlist_path p) = None \<or>
      (\<exists>j < length (log @ [st]). files w' (watchlist_path p) = Some (watchlist_of ((log @ [st]) ! j)) \<and>
         (files w' p = None \<or> (\<exists>i \<le> j. files w' p = Some (cursor_of ((log @ [st]) ! i)))))"
  proof -
    from S(1) consider (same) "files w' p = files w p" "files w' (watchlist_path p) = files w (watchlist_path p)"
      | (half) "files w' p = files w p" "files w' (watchlist_path p) = Some (watchlist_of st)"
      | (all) "files w' p = Some (cursor_of st)" "files w' (watchlist_path p) = Some (watchlist_of st)" by auto
    then show ?thesis
    proof cases
      case same
      have grow: "(log @ [st]) ! i = log ! i" if "i \<le> j" "j < length log" for i j
        using that by (simp add: nth_append)
      from assms(1) consider "files w p = None" "files w (watchlist_path p) = None"
        | j where "j < length log" "files w (watchlist_path p) = Some (watchlist_of (log ! j))"
            "files w p = None \<or> (\<exists>i \<le> j. files w p = Some (cursor_of (log ! i)))"
        by (auto simp: life_ok_def)
      then show ?thesis
      proof cases
        case 1
        with same show ?thesis by simp
      next
        case (2 j)
        have "files w' p = None \<or> (\<exists>i \<le> j. files w' p = Some (cursor_of ((log @ [st]) ! i)))"
          using 2(3) same(1) grow [OF _ 2(1)] by metis
        moreover have "files w' (watchlist_path p) = Some (watchlist_of ((log @ [st]) ! j))"
          using same(2) 2(2) grow [OF le_refl 2(1)] by simp
        moreover have "j < length (log @ [st])" using 2(1) by simp
        ultimately show ?thesis by blast
      qed
    next
      case half
      have "files w p = None \<or> (\<exists>i < length log. files w p = Some (cursor_of (log ! i)))"
        using assms(1) unfolding life_ok_def by (auto dest: le_less_trans)
      with half show ?thesis
        by (intro disjI2 exI [of _ "length log"]) (auto simp: nth_append intro: less_imp_le)
    next
      case all
      then show ?thesis by (intro disjI2 exI [of _ "length log"]) auto
    qed
  qed
  with b load_cache_ok [of w' p] S(4,6) a(2) show ?thesis by (simp add: life_ok_def)
qed

lemma life_life_ok: "life_ok p x \<Longrightarrow> life_ok p (life flt p es x)"
proof (induction flt p es x rule: life.induct)
  case (2 flt p es s w log)
  then have "life_ok p (fst (load w (fresh p)), w, log)" using load_cache_ok [of w p] by (simp add: life_ok_def)
  with "2.IH" show ?case by simp
next
  case (3 flt p st es s w log)
  obtain s' w' r where s: "save flt st s w = (s', w', r)" by (metis prod_cases3)
  show ?case using "3.IH" life_ok_save [OF "3.prems" s] s by simp
qed simp

text \<open>
  C21. The state directory over the life of the deployment. Start from a directory without a record and
  let any number of processes save any records, with any file-system faults and deaths in between. A
  process that starts then finds nothing at all, or evidence without a cursor, or a record whose cursor
  was saved by the \<open>i\<close>-th save and whose watchlist, tombstones and gaps by the \<open>j\<close>-th, with \<open>i \<le> j\<close>: never
  a corrupted file, and never a cursor ahead of its watchlist.
\<close>

theorem cursor_never_ahead_of_watchlist:
  assumes "readable w p" and "files w p = None" and "files w (watchlist_path p) = None"
    and "life flt p es (fresh p, w, []) = (s', w', log)"
  shows "loaded w' p = (zero_state, Some ErrStateNotFound) \<or>
    (\<exists>j < length log. loaded w' p = (orphaned (log ! j), Some ErrStateNotFound) \<or>
       (\<exists>i \<le> j. loaded w' p = (mixed (log ! i) (log ! j), None)))"
proof -
  have "life_ok p (fresh p, w, [])" using assms(1-3) by (simp add: life_ok_def cache_ok_def fresh_def)
  from life_life_ok [OF this, of flt es] have ok: "life_ok p (s', w', log)" by (simp add: assms(4))
  then have rd: "readable w' p" by (simp add: life_ok_def)
  from ok consider "files w' p = None" "files w' (watchlist_path p) = None"
    | j where "j < length log" "files w' (watchlist_path p) = Some (watchlist_of (log ! j))" "files w' p = None"
    | j i where "j < length log" "files w' (watchlist_path p) = Some (watchlist_of (log ! j))" "i \<le> j"
        "files w' p = Some (cursor_of (log ! i))"
    by (auto simp: life_ok_def)
  then show ?thesis
    by cases (use loaded_nothing [OF rd] loaded_orphaned [OF rd] loaded_mixed [OF rd] in blast)+
qed


section \<open>The readers agree, and there is one writer\<close>

text \<open>
  A replay sees the watchlist of the live indexer: whenever \<open>Load\<close> succeeds, or reports a fresh start
  with or without surviving evidence, the lock-free reader returns the same escrows and tombstones
  without an error, on whatever disk, split or combined, whole or orphaned.
\<close>

theorem read_only_watchlist_agrees:
  assumes "loaded w p = (st, e)" and "e = None \<or> e = Some ErrStateNotFound"
  shows "read_only_watchlist w p = ((st_escrows st, st_removed st), None)"
  using assms
  by (auto simp: loaded_def load_def load_orphan_watchlist_def read_only_watchlist_def fresh_def zero_state_def
      split: read_result.splits option.splits)

text \<open>
  One writer at a time. While a store is open, opening the same path again reports that the lock is
  held and changes nothing; after \<open>Close\<close> it can be opened again, and a second \<open>Close\<close> does nothing.
\<close>

theorem single_writer:
  assumes "new_file_store prep p w = (w1, Ok s)"
  shows "new_file_store None p w1 = (w1, Err ErrStateLockHeld) \<and>
    (case close_store s w1 of (s2, w2) \<Rightarrow> locks w2 = locks w \<and> files w2 = files w \<and>
       close_store s2 w2 = (s2, w2) \<and> (\<exists>w3 s3. new_file_store None p w2 = (w3, Ok s3)))"
  using assms by (auto simp: new_file_store_def close_store_def Let_def split: if_splits option.splits)

text \<open>
  What a seed file yields: the trimmed lines that are neither blank nor comments, in order, and
  an unset path yields nothing.
\<close>

theorem load_seed_lines:
  "load_seed p (Some (ls, None)) =
     Ok (if trim_space p = [] then []
         else filter (\<lambda>l. l \<noteq> [] \<and> take 1 l \<noteq> ''#'') (map trim_space ls))"
proof -
  have "seed_lines ls = filter (\<lambda>l. l \<noteq> [] \<and> take 1 l \<noteq> ''#'') (map trim_space ls)" for ls
    by (induction ls) (auto simp: Let_def)
  then show ?thesis by (simp add: load_seed_def)
qed

section \<open>Concrete disks\<close>

definition sample_state :: "u32 \<Rightarrow> istate" where
  "sample_state n = \<lparr>st_version = 0, st_network = ''Test'', st_last_seq = n, st_last_hash = ''ab'', st_escrows = [''CA''],
     st_removed = [''CB''], st_gaps = [\<lparr>gap_from = 3, gap_to = 5, gap_reason = ''rpc_retention'', gap_detected = 1\<rparr>]\<rparr>"

definition empty_disk :: disk where
  "empty_disk = \<lparr>files = (\<lambda>_. None), ops = 0, unreadable = {}, locks = {}\<rparr>"

text \<open>The process dies between the watchlist's rename and the cursor's.\<close>

definition crash_between :: "nat \<Rightarrow> fault" where
  "crash_between n = (if n = 3 then CrashBefore (Some (Garbage ''half'')) else Fine)"

definition disk_of :: "istate \<Rightarrow> disk" where
  "disk_of st = empty_disk\<lparr>files := [''s.json'' \<mapsto> cursor_of st, watchlist_path ''s.json'' \<mapsto> watchlist_of st]\<rparr>"

lemma sample_textual: "textual (sample_state n)"
  by (simp add: textual_def as_text_def sample_state_def gap_text_def json_text_ascii)

lemma disk_of_holds: "holds (disk_of st) ''s.json'' st"
  by (simp add: holds_def readable_def disk_of_def empty_disk_def)

lemma save_crash_safe_witness:
  "let (s', w', r) = save crash_between (sample_state 8) (fresh ''s.json'') (disk_of (sample_state 7))
   in loaded w' ''s.json'' \<in> {(stamped (sample_state 7), None), (mixed (sample_state 7) (sample_state 8), None), (stamped (sample_state 8), None)}"
proof -
  obtain s' w' r where s: "save crash_between (sample_state 8) (fresh ''s.json'') (disk_of (sample_state 7)) = (s', w', r)"
    by (metis prod_cases3)
  show ?thesis
    using save_crash_safe [OF disk_of_holds _ _ s] s by (simp add: fresh_def cache_ok_def Let_def)
qed

lemma empty_disk_simps [simp]: "readable empty_disk p" "files empty_disk p = None"
  by (simp_all add: empty_disk_def readable_def)

lemma first_save_crash_safe_witness:
  "let (s', w', r) = save crash_between (sample_state 8) (fresh ''s.json'') empty_disk
   in loaded w' ''s.json'' \<in> {(zero_state, Some ErrStateNotFound), (orphaned (sample_state 8), Some ErrStateNotFound), (stamped (sample_state 8), None)}"
proof -
  obtain s' w' r where s: "save crash_between (sample_state 8) (fresh ''s.json'') empty_disk = (s', w', r)"
    by (metis prod_cases3)
  show ?thesis using first_save_crash_safe [OF _ _ _ s] s by (simp add: Let_def)
qed

text \<open>A tombstone that is no valid UTF-8, as a removal of the path element \<open>%FF\<close> leaves it, comes back changed.\<close>

lemma save_load_roundtrip_witness:
  "(case save (\<lambda>_. Fine) ((sample_state 8)\<lparr>st_removed := [[char_of (255 :: nat)]]\<rparr>) (fresh ''s.json'') (disk_of (sample_state 7)) of
      (s', w', r) \<Rightarrow> st_removed (fst (loaded w' ''s.json'')) = [replacement_char])"
  using save_load_roundtrip [of "disk_of (sample_state 7)" "''s.json''" "fresh ''s.json''" "[]" "sample_state 7"
      "(sample_state 8)\<lparr>st_removed := [[char_of (255 :: nat)]]\<rparr>"]
    disk_of_holds [of "sample_state 7"]
  by (auto simp: fresh_def cache_ok_def holds_def stamped_def json_text_invalid_byte split: prod.splits)

lemma unchanged_watchlist_not_written_witness:
  "case save (\<lambda>_. Fine) (sample_state 9) ((fresh ''s.json'')\<lparr>fs_last := Some (watchlist_of (sample_state 8))\<rparr>) empty_disk of
     (s', w', r) \<Rightarrow> ops w' = 2"
  using unchanged_watchlist_not_written [of "(fresh ''s.json'')\<lparr>fs_last := Some (watchlist_of (sample_state 8))\<rparr>" "sample_state 9" empty_disk]
  by (auto simp: watchlist_of_def sample_state_def empty_disk_def split: prod.splits)

lemma cursor_never_ahead_of_watchlist_witness:
  "let (s', w', log) = life crash_between ''s.json'' [SaveState (sample_state 7), Restart, SaveState (sample_state 8)] (fresh ''s.json'', empty_disk, [])
   in snd (loaded w' ''s.json'') \<in> {None, Some ErrStateNotFound}"
proof -
  obtain s' w' log where l: "life crash_between ''s.json'' [SaveState (sample_state 7), Restart, SaveState (sample_state 8)] (fresh ''s.json'', empty_disk, []) = (s', w', log)"
    by (metis prod_cases3)
  show ?thesis using cursor_never_ahead_of_watchlist [OF _ _ _ l] l by (auto simp: Let_def)
qed

lemma read_only_watchlist_agrees_witness:
  "read_only_watchlist (disk_of (sample_state 7)) ''s.json'' = (([''CA''], [''CB'']), None)"
proof -
  have "loaded (disk_of (sample_state 7)) ''s.json'' = (mixed (sample_state 7) (sample_state 7), None)"
    using disk_of_holds by (intro loaded_mixed) (simp_all add: holds_def)
  from read_only_watchlist_agrees [OF this] show ?thesis by (simp add: stamped_def sample_state_def json_text_ascii)
qed

lemma single_writer_witness:
  "let (w1, r) = new_file_store None ''s.json'' empty_disk in new_file_store None ''s.json'' w1 = (w1, Err ErrStateLockHeld)"
  using single_writer [of None "''s.json''" empty_disk] by (simp add: new_file_store_def empty_disk_def)

end
