(* ===== verification/Failover.thy ===== *)
theory Failover
  imports FileStore
begin

text \<open>
  \<open>internal/ingest/start_ledger.go\<close> and \<open>internal/ingest/failover.go\<close>: where to start, and the rotating
  pool of RPC endpoints. What an endpoint answers to a connection attempt is \<open>net n i\<close>, for the \<open>n\<close>-th
  attempt of the process, made against the \<open>i\<close>-th URL.
\<close>

section \<open>The start ledger\<close>

definition gap_reason_rpc_retention :: string where "gap_reason_rpc_retention = ''rpc_retention''"
definition reset_detection_slack :: u32 where "reset_detection_slack = 60"

definition clamp_start_ledger :: "u32 \<Rightarrow> u32 \<Rightarrow> u32 \<Rightarrow> time \<Rightarrow> err + u32 \<times> gap option" where
  "clamp_start_ledger start oldest latest now =
     (if oldest > latest then Err (ErrOther ''inverted ledger window'')
      else if start > latest + reset_detection_slack then Err (ErrOther ''start ledger is far beyond the RPC tip'')
      else if start \<ge> oldest then Ok (start, None)
      else Ok (oldest, Some \<lparr>gap_from = start, gap_to = oldest - 1, gap_reason = gap_reason_rpc_retention, gap_detected = now\<rparr>))"

section \<open>The pool\<close>

text \<open>The answers of one endpoint during one attempt, each the error or the value of a call.\<close>

datatype ledger_range = UnboundedRange u32 | BoundedRange u32 u32

record answers =
  an_network :: "err + string"
  an_latest :: "err + u32"
  an_window :: "err + u32 \<times> u32"
  an_backend :: "err option"
  an_prepare :: "ledger_range \<Rightarrow> err option"

text \<open>\<open>prepareBackendRange\<close>: the range a backend is asked to prepare, unbounded when there is no end.\<close>

definition prepare_backend_range :: "(ledger_range \<Rightarrow> err option) \<Rightarrow> u32 \<Rightarrow> u32 \<Rightarrow> err option" where
  "prepare_backend_range prepare start end =
     prepare (if end = 0 then UnboundedRange start else BoundedRange start end)"

datatype handle = ClientHandle nat | BackendHandle nat

text \<open>
  \<open>session\<close> is the attempt whose client and backend are the active ones. \<open>handles\<close> are the clients and
  backends that are open, and \<open>tried\<close> the indices of all attempts so far: histories that no step reads,
  but for the number of attempts, which says which answers come next.
\<close>

record pool =
  urls :: "string list"
  passphrase :: string
  idx :: nat
  require_full_range :: bool
  session :: "nat option"
  handles :: "handle set"
  tried :: "nat list"

definition new_rpc_pool :: "string \<Rightarrow> string list \<Rightarrow> string \<Rightarrow> bool \<Rightarrow> pool" where
  "new_rpc_pool url fallbacks pass replay =
     \<lparr>urls = trim_space url # filter (\<lambda>u. u \<noteq> []) (map trim_space fallbacks), passphrase = pass, idx = 0,
      require_full_range = replay, session = None, handles = {}, tried = []\<rparr>"

definition close_session :: "pool \<Rightarrow> pool" where
  "close_session p = (case session p of None \<Rightarrow> p
     | Some n \<Rightarrow> p\<lparr>session := None, handles := handles p - {ClientHandle n, BackendHandle n}\<rparr>)"

text \<open>The deferred clean-up of an attempt that did not end in an adoption.\<close>

definition abandon :: "nat \<Rightarrow> pool \<Rightarrow> pool" where
  "abandon n p = p\<lparr>handles := handles p - {ClientHandle n, BackendHandle n}\<rparr>"

definition open_client :: "nat \<Rightarrow> nat \<Rightarrow> pool \<Rightarrow> pool" where
  "open_client n i p = p\<lparr>handles := insert (ClientHandle n) (handles p), tried := tried p @ [i]\<rparr>"

definition open_backend :: "nat \<Rightarrow> pool \<Rightarrow> pool" where
  "open_backend n p = p\<lparr>handles := insert (BackendHandle n) (handles p)\<rparr>"

definition adopt :: "nat \<Rightarrow> nat \<Rightarrow> pool \<Rightarrow> pool" where
  "adopt n i p = (close_session p)\<lparr>session := Some n, idx := i\<rparr>"

type_synonym 'g on_gap = "gap \<Rightarrow> u32 \<Rightarrow> 'g \<Rightarrow> 'g \<times> err option"
type_synonym network = "nat \<Rightarrow> nat \<Rightarrow> answers"

text \<open>The ledger to start from: the tip when the start is unset.\<close>

definition resolve_start :: "answers \<Rightarrow> u32 \<Rightarrow> err + u32" where
  "resolve_start a from = (if from = 0 then an_latest a else Ok from)"

definition connect_endpoint :: "'g on_gap \<Rightarrow> network \<Rightarrow> time \<Rightarrow> nat \<Rightarrow> u32 \<Rightarrow> u32 \<Rightarrow> pool \<Rightarrow> 'g \<Rightarrow> pool \<times> 'g \<times> (err + u32)" where
  "connect_endpoint on_gap net now i from end p g =
     (let n = length (tried p); a = net n i; p1 = open_client n i p; fail = (\<lambda>p e. (abandon n p, g, Err e)) in
      case an_network a of Inl e \<Rightarrow> fail p1 e
      | Inr pass \<Rightarrow>
        if pass \<noteq> passphrase p then fail p1 (ErrOther ''serves another network'')
        else case resolve_start a from of Inl e \<Rightarrow> fail p1 e
        | Inr from' \<Rightarrow>
          (case an_window a of Inl e \<Rightarrow> fail p1 e
           | Inr (oldest, latest) \<Rightarrow>
             (case clamp_start_ledger from' oldest latest now of Inl e \<Rightarrow> fail p1 e
              | Inr (start, gap) \<Rightarrow>
                if end \<noteq> 0 \<and> start > end then fail p1 (ErrOther ''cannot serve bounded range'')
                else if gap \<noteq> None \<and> require_full_range p then fail p1 (ErrOther ''cannot serve ledgers of the requested range'')
                else case an_backend a of Some e \<Rightarrow> fail p1 e
                | None \<Rightarrow>
                  let p2 = open_backend n p1 in
                  (case prepare_backend_range (an_prepare a) start end of Some e \<Rightarrow> fail p2 e
                   | None \<Rightarrow>
                     (case gap of None \<Rightarrow> (adopt n i p2, g, Ok start)
                      | Some gp \<Rightarrow>
                        (case on_gap gp start g of
                           (g', Some e) \<Rightarrow> (abandon n p2, g', Err (TerminalConnect e))
                         | (g', None) \<Rightarrow> (adopt n i p2, g', Ok start)))))))"

text \<open>
  The loop of \<open>cycle\<close> over the offsets that are left. \<open>poll n\<close> says whether the context is found
  cancelled before the \<open>n\<close>-th attempt.
\<close>

fun cycle_loop :: "'g on_gap \<Rightarrow> network \<Rightarrow> (nat \<Rightarrow> bool) \<Rightarrow> time \<Rightarrow> nat \<Rightarrow> u32 \<Rightarrow> u32 \<Rightarrow> nat list \<Rightarrow> err list \<Rightarrow> pool \<Rightarrow> 'g
    \<Rightarrow> pool \<times> 'g \<times> (err + u32)" where
  "cycle_loop on_gap net poll now first from end [] failures p g = (p, g, Err (ErrJoined failures))"
| "cycle_loop on_gap net poll now first from end (off # offs) failures p g =
     (if poll (length (tried p)) then (p, g, Err ErrCanceled)
      else case connect_endpoint on_gap net now ((first + off) mod length (urls p)) from end p g of
        (p', g', Ok start) \<Rightarrow> (p', g', Ok start)
      | (p', g', Err (TerminalConnect e)) \<Rightarrow> (p', g', Err e)
      | (p', g', Err e) \<Rightarrow> cycle_loop on_gap net poll now first from end offs (failures @ [e]) p' g')"

definition cycle :: "'g on_gap \<Rightarrow> network \<Rightarrow> (nat \<Rightarrow> bool) \<Rightarrow> time \<Rightarrow> nat \<Rightarrow> u32 \<Rightarrow> u32 \<Rightarrow> pool \<Rightarrow> 'g \<Rightarrow> pool \<times> 'g \<times> (err + u32)" where
  "cycle on_gap net poll now first from end p g =
     cycle_loop on_gap net poll now first from end [0..<length (urls p)] [] p g"

definition connect :: "'g on_gap \<Rightarrow> network \<Rightarrow> (nat \<Rightarrow> bool) \<Rightarrow> time \<Rightarrow> u32 \<Rightarrow> u32 \<Rightarrow> pool \<Rightarrow> 'g \<Rightarrow> pool \<times> 'g \<times> (err + u32)" where
  "connect on_gap net poll now from end p g = cycle on_gap net poll now (idx p) from end p g"

definition rotate_pool :: "'g on_gap \<Rightarrow> network \<Rightarrow> (nat \<Rightarrow> bool) \<Rightarrow> time \<Rightarrow> u32 \<Rightarrow> u32 \<Rightarrow> pool \<Rightarrow> 'g \<Rightarrow> pool \<times> 'g \<times> (err + u32)" where
  "rotate_pool on_gap net poll now from end p g = cycle on_gap net poll now (idx p + 1) from end (close_session p) g"

text \<open>
  The name of an endpoint in logs and in the status: \<open>url.Parse\<close> gives the host or fails, and a URL
  without a host shows as a placeholder, never as itself.
\<close>

definition endpoint_host :: "(string \<Rightarrow> string option) \<Rightarrow> string \<Rightarrow> string" where
  "endpoint_host parse raw =
     (case parse raw of None \<Rightarrow> ''<unparseable-rpc-url>''
      | Some host \<Rightarrow> if host = [] then ''<unparseable-rpc-url>'' else host)"

definition current_host :: "(string \<Rightarrow> string option) \<Rightarrow> pool \<Rightarrow> string" where
  "current_host parse p = endpoint_host parse (urls p ! idx p)"

definition close_pool :: "pool \<Rightarrow> pool" where
  "close_pool p = close_session p"

section \<open>Clamping\<close>

lemma clamp_cases:
  assumes "clamp_start_ledger start oldest latest now = Ok (s, g)"
  shows "oldest \<le> latest" and "start \<le> latest + 60"
    and "g = None \<Longrightarrow> s = start \<and> oldest \<le> start"
    and "g = Some gp \<Longrightarrow> s = oldest \<and> start < oldest \<and> gap_from gp = start \<and> gap_to gp = oldest - 1 \<and>
      gap_reason gp = gap_reason_rpc_retention \<and> unat (gap_to gp) + 1 = unat oldest"
proof -
  have w: "unat (oldest - 1) + 1 = unat oldest" if "start < oldest"
  proof -
    have "oldest \<noteq> 0" using that by auto
    then show ?thesis by (simp add: unat_minus_one unat_gt_0)
  qed
  show "oldest \<le> latest" and "start \<le> latest + 60" and "g = None \<Longrightarrow> s = start \<and> oldest \<le> start"
    and "g = Some gp \<Longrightarrow> s = oldest \<and> start < oldest \<and> gap_from gp = start \<and> gap_to gp = oldest - 1 \<and>
      gap_reason gp = gap_reason_rpc_retention \<and> unat (gap_to gp) + 1 = unat oldest"
    using assms w by (auto simp: clamp_start_ledger_def reset_detection_slack_def not_less not_le split: if_splits)
qed

text \<open>
  The clamp accounts for every ledger. Against a sane window, away from the end of the 32-bit range,
  a start inside the window or at most 60 above its tip is kept; one below is moved to the oldest
  ledger with a gap that is exactly the ledgers skipped; one further above is refused.
\<close>

theorem clamp_accounts_for_every_ledger:
  assumes "oldest \<le> latest" and "unat latest + 60 < 2 ^ 32"
  shows "case clamp_start_ledger start oldest latest now of
      Inl e \<Rightarrow> unat latest + 60 < unat start
    | Inr (s, None) \<Rightarrow> s = start \<and> unat oldest \<le> unat start \<and> unat start \<le> unat latest + 60
    | Inr (s, Some g) \<Rightarrow> s = oldest \<and> unat start < unat oldest \<and>
        {unat start..<unat s} = {unat (gap_from g)..unat (gap_to g)}"
proof -
  have u: "unat (latest + 60) = unat latest + 60"
    using assms(2) by (simp add: unat_word_ariths)
  have le: "start \<le> latest + 60 \<longleftrightarrow> unat start \<le> unat latest + 60"
    by (simp add: word_le_nat_alt u)
  show ?thesis
  proof (cases "clamp_start_ledger start oldest latest now")
    case (Inl e)
    then have "\<not> start \<le> latest + 60"
      using assms(1) by (auto simp: clamp_start_ledger_def reset_detection_slack_def split: if_splits)
    then show ?thesis using Inl le by simp
  next
    case (Inr x)
    obtain s g where x: "x = (s, g)" by (cases x)
    note C = clamp_cases [OF Inr [unfolded x]]
    show ?thesis
    proof (cases g)
      case None
      then show ?thesis using Inr x C(2,3) le by (simp add: word_le_nat_alt)
    next
      case (Some gp)
      then have "s = oldest" "start < oldest" "gap_from gp = start" "unat (gap_to gp) + 1 = unat oldest" using C(4) by auto
      then show ?thesis using Inr x Some by (auto simp: word_less_nat_alt)
    qed
  qed
qed

lemma clamp_accounts_for_every_ledger_witness:
  "clamp_start_ledger 100 200 900 0 = Ok (200, Some \<lparr>gap_from = 100, gap_to = 199, gap_reason = ''rpc_retention'', gap_detected = 0\<rparr>) \<and>
   {unat (100 :: u32)..<unat (200 :: u32)} = {unat (100 :: u32)..unat (199 :: u32)}"
proof -
  have c: "clamp_start_ledger 100 200 900 0 = Ok (200, Some \<lparr>gap_from = 100, gap_to = 199, gap_reason = ''rpc_retention'', gap_detected = 0\<rparr>)"
    by (simp add: clamp_start_ledger_def reset_detection_slack_def gap_reason_rpc_retention_def)
  show ?thesis using clamp_accounts_for_every_ledger [of 200 900 100 0] c by simp
qed


section \<open>One attempt\<close>

text \<open>Exactly the active session is open, and attempts are numbered.\<close>

definition pool_inv :: "pool \<Rightarrow> bool" where
  "pool_inv p \<longleftrightarrow> urls p \<noteq> [] \<and>
     (case session p of None \<Rightarrow> handles p = {}
      | Some n \<Rightarrow> handles p = {ClientHandle n, BackendHandle n} \<and> n < length (tried p))"

definition same_config :: "pool \<Rightarrow> pool \<Rightarrow> bool" where
  "same_config p q \<longleftrightarrow> urls p = urls q \<and> passphrase p = passphrase q \<and> require_full_range p = require_full_range q"

text \<open>
  The type \<open>terminalConnectError\<close> is private to the package, so no call of a library returns one.
\<close>

definition no_terminal :: "answers \<Rightarrow> bool" where
  "no_terminal a \<longleftrightarrow> (\<forall>e. an_network a \<noteq> Inl (TerminalConnect e) \<and> an_latest a \<noteq> Inl (TerminalConnect e) \<and>
     an_window a \<noteq> Inl (TerminalConnect e) \<and> an_backend a \<noteq> Some (TerminalConnect e) \<and> (\<forall>rg. an_prepare a rg \<noteq> Some (TerminalConnect e)))"

text \<open>The hand-over that the caller asked for: from \<open>f\<close>, with what was skipped made durable.\<close>

definition accounted :: "'g on_gap \<Rightarrow> u32 \<Rightarrow> 'g \<Rightarrow> 'g \<Rightarrow> u32 \<Rightarrow> bool" where
  "accounted on_gap f g g' start \<longleftrightarrow>
     g' = g \<and> start = f \<or>
     (\<exists>gp. on_gap gp start g = (g', None) \<and> gap_from gp = f \<and> unat f < unat start \<and> unat (gap_to gp) + 1 = unat start)"

definition attempt_ok :: "'g on_gap \<Rightarrow> answers \<Rightarrow> nat \<Rightarrow> u32 \<Rightarrow> u32 \<Rightarrow> pool \<Rightarrow> 'g \<Rightarrow> pool \<Rightarrow> 'g \<Rightarrow> u32 \<Rightarrow> bool" where
  "attempt_ok on_gap a i from end p g p' g' start \<longleftrightarrow>
     an_network a = Inr (passphrase p) \<and> session p' = Some (length (tried p)) \<and> idx p' = i \<and>
     (end = 0 \<or> start \<le> end) \<and> prepare_backend_range (an_prepare a) start end = None \<and>
     (\<exists>f. resolve_start a from = Inr f \<and> accounted on_gap f g g' start \<and> (require_full_range p \<longrightarrow> g' = g \<and> start = f))"

lemma clamp_not_terminal: "clamp_start_ledger f a b now \<noteq> Inl (TerminalConnect e)"
  by (simp add: clamp_start_ledger_def)

lemma adopt_inv:
  assumes "pool_inv p"
  shows "pool_inv (adopt (length (tried p)) i (open_backend (length (tried p)) (open_client (length (tried p)) i p)))"
  using assms by (auto simp: pool_inv_def adopt_def open_backend_def open_client_def close_session_def split: option.splits)

lemma abandon_eq:
  assumes "pool_inv p"
  shows "abandon (length (tried p)) (open_client (length (tried p)) i p) = p\<lparr>tried := tried p @ [i]\<rparr>"
    and "abandon (length (tried p)) (open_backend (length (tried p)) (open_client (length (tried p)) i p)) = p\<lparr>tried := tried p @ [i]\<rparr>"
proof -
  have "ClientHandle (length (tried p)) \<notin> handles p" "BackendHandle (length (tried p)) \<notin> handles p"
    using assms by (auto simp: pool_inv_def split: option.splits)
  then show "abandon (length (tried p)) (open_client (length (tried p)) i p) = p\<lparr>tried := tried p @ [i]\<rparr>"
    and "abandon (length (tried p)) (open_backend (length (tried p)) (open_client (length (tried p)) i p)) = p\<lparr>tried := tried p @ [i]\<rparr>"
    by (auto simp: abandon_def open_backend_def open_client_def)
qed

lemma adopt_fields:
  "session (adopt n i p) = Some n" "idx (adopt n i p) = i" "same_config (adopt n i p) p" "tried (adopt n i p) = tried p"
  by (auto simp: adopt_def close_session_def same_config_def split: option.splits)

lemma open_fields:
  "same_config (open_backend n (open_client n i p)) p" "tried (open_backend n (open_client n i p)) = tried p @ [i]"
  by (auto simp: open_backend_def open_client_def same_config_def)

lemma same_config_trans: "same_config a b \<Longrightarrow> same_config b c \<Longrightarrow> same_config a c"
  by (simp add: same_config_def)

text \<open>
  The three ends of an attempt: it failed and left nothing behind, it was adopted, with the gap recorded if there
  is one, or recording the gap failed.
\<close>

lemma connect_endpoint_ends:
  assumes "connect_endpoint on_gap net now i from end p g = (p', g', res)" and "pool_inv p"
    and "no_terminal (net (length (tried p)) i)"
  obtains e where "p' = p\<lparr>tried := tried p @ [i]\<rparr>" "g' = g" "res = Inl e" "\<forall>x. e \<noteq> TerminalConnect x"
  | f oldest latest start gap where "an_network (net (length (tried p)) i) = Inr (passphrase p)"
      "resolve_start (net (length (tried p)) i) from = Inr f" "clamp_start_ledger f oldest latest now = Inr (start, gap)"
      "end = 0 \<or> start \<le> end" "gap = None \<or> \<not> require_full_range p"
      "prepare_backend_range (an_prepare (net (length (tried p)) i)) start end = None"
      "p' = adopt (length (tried p)) i (open_backend (length (tried p)) (open_client (length (tried p)) i p))" "res = Inr start"
      "gap = None \<and> g' = g \<or> (\<exists>gp. gap = Some gp \<and> on_gap gp start g = (g', None))"
  | gp start x where "p' = p\<lparr>tried := tried p @ [i]\<rparr>" "on_gap gp start g = (g', Some x)" "res = Inl (TerminalConnect x)"
proof -
  let ?a = "net (length (tried p)) i"
  note A = abandon_eq [OF assms(2)]
  have nt: "an_network ?a = Inl e \<Longrightarrow> \<forall>x. e \<noteq> TerminalConnect x" "resolve_start ?a from = Inl e \<Longrightarrow> \<forall>x. e \<noteq> TerminalConnect x"
    "an_window ?a = Inl e \<Longrightarrow> \<forall>x. e \<noteq> TerminalConnect x" "an_backend ?a = Some e \<Longrightarrow> \<forall>x. e \<noteq> TerminalConnect x"
    "prepare_backend_range (an_prepare ?a) start end = Some e \<Longrightarrow> \<forall>x. e \<noteq> TerminalConnect x"
    "clamp_start_ledger f a b now = Inl e \<Longrightarrow> \<forall>x. e \<noteq> TerminalConnect x" for start e f a b
    using assms(3) clamp_not_terminal by (auto simp: no_terminal_def resolve_start_def prepare_backend_range_def split: if_splits)
  show thesis
    using assms(1) that unfolding connect_endpoint_def Let_def A
    by (auto simp: not_less split: sum.splits prod.splits option.splits if_splits dest!: nt) (metis nt(2))
qed

lemma connect_endpoint_spec:
  assumes "connect_endpoint on_gap net now i from end p g = (p', g', res)" and "pool_inv p"
    and "no_terminal (net (length (tried p)) i)"
  shows "pool_inv p' \<and> same_config p' p \<and> tried p' = tried p @ [i] \<and>
    (case res of Inr start \<Rightarrow> attempt_ok on_gap (net (length (tried p)) i) i from end p g p' g' start
     | Inl e \<Rightarrow> session p' = session p \<and> idx p' = idx p \<and>
         ((\<exists>x gp st. e = TerminalConnect x \<and> on_gap gp st g = (g', Some x)) \<or> g' = g \<and> (\<forall>x. e \<noteq> TerminalConnect x)))"
proof -
  let ?n = "length (tried p)"
  have inv': "pool_inv (p\<lparr>tried := tried p @ [i]\<rparr>)"
    using assms(2) by (auto simp: pool_inv_def split: option.splits)
  let ?q = "adopt ?n i (open_backend ?n (open_client ?n i p))"
  have q: "pool_inv ?q" "same_config ?q p" "tried ?q = tried p @ [i]"
    using adopt_inv [OF assms(2)] adopt_fields(3,4) open_fields same_config_trans by (auto, metis)
  from assms show ?thesis
  proof (cases rule: connect_endpoint_ends)
    case (1 e)
    with inv' show ?thesis by (simp add: same_config_def)
  next
    case (2 f oldest latest start gap)
    note C = clamp_cases [OF 2(3)]
    have "accounted on_gap f g g' start"
      using 2(9) C(3) C(4) by (auto simp: accounted_def word_less_nat_alt)
    with q 2 C(3) show ?thesis by (auto simp: attempt_ok_def adopt_fields)
  next
    case (3 gp start x)
    with inv' show ?thesis by (auto simp: same_config_def)
  qed
qed

section \<open>One cycle\<close>

lemma attempt_ok_cong:
  "attempt_ok on_gap a i from end q g p' g' start \<Longrightarrow> same_config q p \<Longrightarrow>
     an_network a = Inr (passphrase p) \<and> session p' = Some (length (tried q)) \<and> idx p' = i \<and> (end = 0 \<or> start \<le> end) \<and>
     prepare_backend_range (an_prepare a) start end = None \<and>
     (\<exists>f. resolve_start a from = Inr f \<and> accounted on_gap f g g' start \<and> (require_full_range p \<longrightarrow> g' = g \<and> start = f))"
  by (simp add: attempt_ok_def same_config_def)

definition adopted :: "'g on_gap \<Rightarrow> network \<Rightarrow> u32 \<Rightarrow> u32 \<Rightarrow> pool \<Rightarrow> 'g \<Rightarrow> pool \<Rightarrow> 'g \<Rightarrow> u32 \<Rightarrow> bool" where
  "adopted on_gap net from end p g p' g' start \<longleftrightarrow>
     (\<exists>n f. session p' = Some n \<and> length (tried p) \<le> n \<and> tried p' = take n (tried p') @ [idx p'] \<and>
        an_network (net n (idx p')) = Inr (passphrase p) \<and> resolve_start (net n (idx p')) from = Inr f \<and>
        accounted on_gap f g g' start \<and> (require_full_range p \<longrightarrow> g' = g \<and> start = f) \<and> (end = 0 \<or> start \<le> end) \<and>
        prepare_backend_range (an_prepare (net n (idx p'))) start end = None)"

lemma cycle_loop_spec:
  assumes "cycle_loop on_gap net poll now first from end offs failures p g = (p', g', res)" and "pool_inv p"
    and "\<forall>n i. no_terminal (net n i)"
  shows "pool_inv p' \<and> same_config p' p \<and>
    (\<exists>k \<le> length offs. tried p' = tried p @ map (\<lambda>k. (first + k) mod length (urls p)) (take k offs) \<and>
      (case res of Inr start \<Rightarrow> 0 < k \<and> adopted on_gap net from end p g p' g' start
       | Inl e \<Rightarrow> session p' = session p \<and> idx p' = idx p \<and> (g' = g \<or> (\<exists>gp st. on_gap gp st g = (g', Some e))) \<and>
           (g' = g \<longrightarrow> k = length offs \<or> e = ErrCanceled \<or> (\<exists>gp st. on_gap gp st g = (g', Some e)))))"
  using assms(1,2)
proof (induction offs arbitrary: failures p)
  case Nil
  then show ?case by (auto simp: same_config_def)
next
  case (Cons off offs)
  let ?i = "(first + off) mod length (urls p)"
  show ?case
  proof (cases "poll (length (tried p))")
    case True
    with Cons.prems show ?thesis by (intro conjI exI [of _ 0]) (auto simp: same_config_def)
  next
    case np: False
    obtain p1 g1 r where c: "connect_endpoint on_gap net now ?i from end p g = (p1, g1, r)"
      by (metis prod_cases3)
    note S = connect_endpoint_spec [OF c Cons.prems(2) assms(3) [rule_format]]
    show ?thesis
    proof (cases r)
      case (Inr start)
      with Cons.prems(1) c np have e: "p' = p1" "g' = g1" "res = Inr start" by auto
      from S Inr have a: "attempt_ok on_gap (net (length (tried p)) ?i) ?i from end p g p1 g1 start" and t: "tried p1 = tried p @ [?i]"
        by simp_all
      from attempt_ok_cong [OF a, of p] obtain f where
        "an_network (net (length (tried p)) ?i) = Inr (passphrase p)" "session p1 = Some (length (tried p))" "idx p1 = ?i"
        "end = 0 \<or> start \<le> end" "prepare_backend_range (an_prepare (net (length (tried p)) ?i)) start end = None"
        "resolve_start (net (length (tried p)) ?i) from = Inr f" "accounted on_gap f g g1 start"
        "require_full_range p \<longrightarrow> g1 = g \<and> start = f" by (auto simp: same_config_def)
      then have "adopted on_gap net from end p g p1 g1 start"
        unfolding adopted_def by (intro exI [of _ "length (tried p)"] exI [of _ f]) (simp add: t)
      then show ?thesis using S e by (intro conjI exI [of _ "Suc 0"]) (auto simp: t)
    next
      case (Inl e)
      show ?thesis
      proof (cases "\<exists>x. e = TerminalConnect x")
        case True
        then obtain x where x: "e = TerminalConnect x" by blast
        with Cons.prems(1) c np Inl have e': "p' = p1" "g' = g1" "res = Inl x" by auto
        from S Inl x have "\<exists>gp st. on_gap gp st g = (g1, Some x)" by auto
        then show ?thesis using S Inl e' by (intro conjI exI [of _ "Suc 0"]) auto
      next
        case False
        with Cons.prems(1) c np Inl have l: "cycle_loop on_gap net poll now first from end offs (failures @ [e]) p1 g = (p', g', res)"
          using S by (cases e) auto
        from S Inl False have s: "pool_inv p1" "same_config p1 p" "tried p1 = tried p @ [?i]" "session p1 = session p" "idx p1 = idx p"
          by auto
        have u: "length (urls p1) = length (urls p)" using s(2) by (simp add: same_config_def)
        from Cons.IH [OF l s(1)] obtain k where k: "k \<le> length offs"
          "tried p' = tried p1 @ map (\<lambda>k. (first + k) mod length (urls p)) (take k offs)"
          "pool_inv p'" "same_config p' p1"
          "case res of Inr start \<Rightarrow> 0 < k \<and> adopted on_gap net from end p1 g p' g' start
           | Inl e \<Rightarrow> session p' = session p1 \<and> idx p' = idx p1 \<and> (g' = g \<or> (\<exists>gp st. on_gap gp st g = (g', Some e))) \<and>
               (g' = g \<longrightarrow> k = length offs \<or> e = ErrCanceled \<or> (\<exists>gp st. on_gap gp st g = (g', Some e)))"
          unfolding u by blast
        have ad: "adopted on_gap net from end p1 g p' g' start \<Longrightarrow> adopted on_gap net from end p g p' g' start" for start
          using s(2,3) unfolding adopted_def same_config_def by fastforce
        show ?thesis
        proof (intro conjI exI [of _ "Suc k"])
          show "case res of Inr start \<Rightarrow> 0 < Suc k \<and> adopted on_gap net from end p g p' g' start
           | Inl e \<Rightarrow> session p' = session p \<and> idx p' = idx p \<and> (g' = g \<or> (\<exists>gp st. on_gap gp st g = (g', Some e))) \<and>
               (g' = g \<longrightarrow> Suc k = length (off # offs) \<or> e = ErrCanceled \<or> (\<exists>gp st. on_gap gp st g = (g', Some e)))"
            using k(5) ad s(4,5) by (auto split: sum.splits)
        qed (use k s same_config_trans in auto)
      qed
    qed
  qed
qed

lemma close_session_inv: "pool_inv p \<Longrightarrow> pool_inv (close_session p) \<and> same_config (close_session p) p \<and>
    tried (close_session p) = tried p \<and> idx (close_session p) = idx p \<and> session (close_session p) = None"
  by (auto simp: pool_inv_def close_session_def same_config_def split: option.splits)

lemma adopted_same: "same_config q p \<Longrightarrow> tried q = tried p \<Longrightarrow> adopted on_gap net from end q g p' g' start = adopted on_gap net from end p g p' g' start"
  by (simp add: adopted_def same_config_def)

lemma hand_over:
  assumes "connect on_gap net poll now from end p g = (p', g', res) \<or> rotate_pool on_gap net poll now from end p g = (p', g', res)"
    and "pool_inv p" and "\<forall>n i. no_terminal (net n i)"
  shows "pool_inv p' \<and> same_config p' p \<and>
    (case res of Inr start \<Rightarrow> adopted on_gap net from end p g p' g' start
     | Inl e \<Rightarrow> g' = g \<or> (\<exists>gp st. on_gap gp st g = (g', Some e)))"
  using assms(1)
proof
  assume "connect on_gap net poll now from end p g = (p', g', res)"
  from cycle_loop_spec [OF this [unfolded connect_def cycle_def] assms(2,3)] show ?thesis by (auto split: sum.splits)
next
  note C = close_session_inv [OF assms(2)]
  assume "rotate_pool on_gap net poll now from end p g = (p', g', res)"
  from cycle_loop_spec [OF this [unfolded rotate_pool_def cycle_def] conjunct1 [OF C] assms(3)] C
  show ?thesis by (auto split: sum.splits simp: adopted_same intro: same_config_trans)
qed

text \<open>
  C19. A hand-over loses no ledger silently and no handle. When \<open>Connect\<close> or \<open>Rotate\<close> succeeds from a
  ledger \<open>from\<close>, the active session is the only open one, it is with an endpoint of the pool that
  serves the configured network and has prepared the range from there, and it starts at \<open>from\<close> with no gap recorded, or later with exactly the
  skipped range recorded durably; a replay is never moved, and a bounded run starts within its bound.
  When it fails, no gap was recorded, or recording one failed and that is the error.
\<close>

theorem failover_accounts_for_ledgers:
  assumes "connect on_gap net poll now from end p g = (p', g', res) \<or> rotate_pool on_gap net poll now from end p g = (p', g', res)"
    and "pool_inv p" and "\<forall>n i. no_terminal (net n i)" and "from \<noteq> 0"
  shows "pool_inv p' \<and>
    (case res of
       Inl e \<Rightarrow> g' = g \<or> (\<exists>gp st. on_gap gp st g = (g', Some e))
     | Inr start \<Rightarrow> (\<exists>n. session p' = Some n \<and> an_network (net n (idx p')) = Inr (passphrase p) \<and>
           prepare_backend_range (an_prepare (net n (idx p'))) start end = None) \<and>
         (end = 0 \<or> start \<le> end) \<and> (require_full_range p \<longrightarrow> start = from) \<and>
         (start = from \<and> g' = g \<or>
          (\<exists>gp. on_gap gp start g = (g', None) \<and> {unat from..<unat start} = {unat (gap_from gp)..unat (gap_to gp)})))"
proof -
  note H = hand_over [OF assms(1-3)]
  show ?thesis
  proof (cases res)
    case (Inr start)
    with H obtain n f where "session p' = Some n" "an_network (net n (idx p')) = Inr (passphrase p)"
      "resolve_start (net n (idx p')) from = Inr f" "accounted on_gap f g g' start" "end = 0 \<or> start \<le> end"
      "require_full_range p \<longrightarrow> g' = g \<and> start = f" "prepare_backend_range (an_prepare (net n (idx p'))) start end = None"
      by (auto simp: adopted_def)
    moreover have "f = from" using calculation(3) assms(4) by (simp add: resolve_start_def)
    moreover have "{unat f..<unat start} = {unat (gap_from gp)..unat (gap_to gp)}"
      if "gap_from gp = f" "unat (gap_to gp) + 1 = unat start" for gp
      using that by auto
    ultimately show ?thesis using H Inr by (auto simp: accounted_def)
  qed (use H in auto)
qed


section \<open>The order of the endpoints\<close>

lemma round_robin_covers:
  assumes "0 < n" and "j < (n :: nat)"
  shows "\<exists>k < n. (first + k) mod n = j"
proof -
  have "first + (j + (n - first mod n)) = j + n + n * (first div n)"
    using mod_less_divisor [OF assms(1), of first] mult_div_mod_eq [of n first] by linarith
  then have "(first + (j + (n - first mod n))) mod n = j"
    using assms by simp
  then have "(first + (j + (n - first mod n)) mod n) mod n = j" by (simp add: mod_add_right_eq)
  then show ?thesis using mod_less_divisor [OF assms(1)] by blast
qed

lemma round_robin_bij:
  assumes "0 < (n :: nat)"
  shows "distinct (map (\<lambda>k. (first + k) mod n) [0..<n]) \<and> set (map (\<lambda>k. (first + k) mod n) [0..<n]) = {..<n}"
proof -
  have s: "set (map (\<lambda>k. (first + k) mod n) [0..<n]) = {..<n}"
  proof
    show "{..<n} \<subseteq> set (map (\<lambda>k. (first + k) mod n) [0..<n])"
    proof
      fix j assume "j \<in> {..<n}"
      then obtain k where "k < n" "(first + k) mod n = j" using round_robin_covers [OF assms, of j first] by auto
      then show "j \<in> set (map (\<lambda>k. (first + k) mod n) [0..<n])" by (auto intro!: image_eqI [of _ _ k])
    qed
  qed (use assms in auto)
  then have "distinct (map (\<lambda>k. (first + k) mod n) [0..<n])"
    by (metis card_distinct card_lessThan diff_zero length_map length_upt)
  with s show ?thesis by blast
qed

text \<open>
  Failover is fair. \<open>Rotate\<close> tries every endpoint once, the abandoned one last: if it fails, and no
  gap had to be persisted and the context did not end, then it has tried all of them, each exactly once.
\<close>

theorem rotation_tries_everyone:
  assumes "rotate_pool on_gap net poll now from end p g = (p', g', Err e)" and "pool_inv p"
    and "\<forall>n i. no_terminal (net n i)" and "\<forall>gp st. snd (on_gap gp st g) = None" and "e \<noteq> ErrCanceled"
  shows "\<exists>ts. tried p' = tried p @ ts \<and> distinct ts \<and> set ts = {..<length (urls p)} \<and>
    last ts = idx p mod length (urls p) \<and> g' = g \<and> handles p' = {}"
proof -
  let ?n = "length (urls p)"
  have n: "0 < ?n" using assms(2) by (simp add: pool_inv_def)
  note C = close_session_inv [OF assms(2)]
  have u: "urls (close_session p) = urls p" using C by (simp add: same_config_def)
  have c: "tried (close_session p) = tried p" "session (close_session p) = None" using C by blast+
  from cycle_loop_spec [OF assms(1) [unfolded rotate_pool_def cycle_def] conjunct1 [OF C] assms(3), unfolded u c sum.case]
  obtain k where k: "k \<le> length [0..<?n]" "tried p' = tried p @ map (\<lambda>k. (idx p + 1 + k) mod ?n) (take k [0..<?n])"
    "pool_inv p'" "session p' = None" "g' = g \<or> (\<exists>gp st. on_gap gp st g = (g', Some e))"
    "g' = g \<longrightarrow> k = length [0..<?n] \<or> e = ErrCanceled \<or> (\<exists>gp st. on_gap gp st g = (g', Some e))"
    by blast
  have no: "\<not> (\<exists>gp st. on_gap gp st g = (g', Some e))" using assms(4) by (metis option.distinct(1) snd_conv)
  with k(5,6) assms(5) have "g' = g" and kn: "k = length [0..<?n]" by auto
  have "last (map (\<lambda>k. (idx p + 1 + k) mod ?n) [0..<?n]) = (idx p + 1 + (?n - 1)) mod ?n"
    using n by (simp add: last_map last_upt)
  also have "idx p + 1 + (?n - 1) = idx p + ?n" using n by linarith
  finally have "last (map (\<lambda>k. (idx p + 1 + k) mod ?n) [0..<?n]) = (idx p + ?n) mod ?n" .
  also have "\<dots> = idx p mod ?n" by simp
  finally have l: "last (map (\<lambda>k. (idx p + 1 + k) mod ?n) [0..<?n]) = idx p mod ?n" .
  have "handles p' = {}" using k(3,4) by (simp add: pool_inv_def)
  with l \<open>g' = g\<close> round_robin_bij [OF n, of "idx p + 1"] k(2) [unfolded kn take_all_iff [THEN iffD2, OF le_refl]] show ?thesis
    by (intro exI [of _ "map (\<lambda>k. (idx p + 1 + k) mod ?n) [0..<?n]"]) simp
qed

text \<open>An endpoint that can take over from \<open>from\<close>.\<close>

definition serves :: "answers \<Rightarrow> string \<Rightarrow> u32 \<Rightarrow> u32 \<Rightarrow> bool \<Rightarrow> time \<Rightarrow> bool" where
  "serves a pass from end full now \<longleftrightarrow> an_network a = Inr pass \<and> an_backend a = None \<and>
     (\<exists>f oldest latest start gp. resolve_start a from = Inr f \<and> an_window a = Inr (oldest, latest) \<and>
        clamp_start_ledger f oldest latest now = Inr (start, gp) \<and> (end = 0 \<or> start \<le> end) \<and> (gp = None \<or> \<not> full) \<and>
        prepare_backend_range (an_prepare a) start end = None)"

lemma serves_connects:
  assumes "serves (net (length (tried p)) i) (passphrase p) from end (require_full_range p) now"
    and "\<forall>gp st g. snd (on_gap gp st g) = None"
  shows "\<exists>p' g' start. connect_endpoint on_gap net now i from end p g = (p', g', Ok start)"
proof -
  from assms(1) obtain f oldest latest start gp where
    a: "an_network (net (length (tried p)) i) = Inr (passphrase p)" "an_backend (net (length (tried p)) i) = None"
      "prepare_backend_range (an_prepare (net (length (tried p)) i)) start end = None" "resolve_start (net (length (tried p)) i) from = Inr f"
      "an_window (net (length (tried p)) i) = Inr (oldest, latest)" "clamp_start_ledger f oldest latest now = Inr (start, gp)"
      "end = 0 \<or> start \<le> end" "gp = None \<or> \<not> require_full_range p"
    unfolding serves_def by blast
  show ?thesis
  proof (cases gp)
    case None
    with a show ?thesis by (auto simp: connect_endpoint_def Let_def)
  next
    case (Some g1)
    obtain g2 where "on_gap g1 start g = (g2, None)" using assms(2) by (metis prod.collapse)
    with a Some show ?thesis by (auto simp: connect_endpoint_def Let_def)
  qed
qed

lemma cycle_loop_finds:
  assumes "pool_inv p" and "\<forall>n i. no_terminal (net n i)" and "\<forall>n. \<not> poll n" and "\<forall>gp st g. snd (on_gap gp st g) = None"
    and "\<forall>n. serves (net n j) (passphrase p) from end (require_full_range p) now"
    and "k \<in> set offs" and "(first + k) mod length (urls p) = j"
  shows "\<exists>p' g' start. cycle_loop on_gap net poll now first from end offs failures p g = (p', g', Ok start)"
  using assms(1,5-7)
proof (induction offs arbitrary: failures p)
  case (Cons off offs)
  let ?i = "(first + off) mod length (urls p)"
  obtain p1 g1 r where c: "connect_endpoint on_gap net now ?i from end p g = (p1, g1, r)" by (metis prod_cases3)
  note S = connect_endpoint_spec [OF c Cons.prems(1) assms(2) [rule_format]]
  show ?case
  proof (cases r)
    case (Inr start)
    moreover have "\<not> poll (length (tried p))" using assms(3) by blast
    ultimately show ?thesis using c by simp
  next
    case (Inl e)
    have "?i \<noteq> j"
      using serves_connects [of net p j "from" "end" now on_gap g] Cons.prems(2) assms(4) c Inl by auto
    then have k: "k \<in> set offs" using Cons.prems(3,4) by auto
    have nt: "g1 = g \<and> (\<forall>x. e \<noteq> TerminalConnect x)" using S Inl assms(4) by auto (metis option.distinct(1) snd_conv)+
    have s: "pool_inv p1" "same_config p1 p" using S by auto
    have "\<exists>p' g' start. cycle_loop on_gap net poll now first from end offs (failures @ [e]) p1 g = (p', g', Ok start)"
      using Cons.IH [OF s(1) _ k, of "failures @ [e]"] Cons.prems(2,4) s(2) by (simp add: same_config_def)
    moreover have "\<not> poll (length (tried p))" using assms(3) by blast
    ultimately show ?thesis using c Inl nt by (cases e) auto
  qed
qed simp

text \<open>
  C29. Failover finds a working endpoint. If some endpoint of the pool can take over whenever it is asked,
  gaps can be persisted and the context is alive, \<open>Rotate\<close> succeeds, whatever the others answer.
\<close>

theorem rotation_finds_working_endpoint:
  assumes "pool_inv p" and "\<forall>n i. no_terminal (net n i)" and "\<forall>n. \<not> poll n" and "\<forall>gp st g. snd (on_gap gp st g) = None"
    and "j < length (urls p)" and "\<forall>n. serves (net n j) (passphrase p) from end (require_full_range p) now"
  shows "\<exists>p' g' start. rotate_pool on_gap net poll now from end p g = (p', g', Ok start)"
proof -
  note C = close_session_inv [OF assms(1)]
  have "0 < length (urls p)" using assms(5) by linarith
  from round_robin_covers [OF this assms(5), of "idx p + 1"]
  obtain k where "k < length (urls p)" "(idx p + 1 + k) mod length (urls p) = j" by blast
  then show ?thesis
    unfolding rotate_pool_def cycle_def using C assms(2-4,6)
    by (intro cycle_loop_finds [of _ _ _ _ j _ _ _ k]) (auto simp: same_config_def)
qed

section \<open>Two endpoints\<close>

lemma prepare_accepted [simp]: "prepare_backend_range (\<lambda>_. None) start end = None"
  by (simp add: prepare_backend_range_def)

text \<open>\<open>shallow\<close> retains ledgers from 200 on, \<open>deep\<close> from 2 on; the recorder is a list.\<close>

definition endpoint :: "u32 \<Rightarrow> answers" where
  "endpoint oldest = \<lparr>an_network = Inr ''Test'', an_latest = Inr 900, an_window = Inr (oldest, 900), an_backend = None, an_prepare = (\<lambda>_. None)\<rparr>"

definition two_endpoints :: network where
  "two_endpoints n i = (if i = 0 then endpoint 200 else endpoint 2)"

definition two_pool :: pool where
  "two_pool = new_rpc_pool ''shallow'' [''deep''] ''Test'' False"

definition record_gap :: "(gap \<times> u32) list on_gap" where
  "record_gap gp st g = (g @ [(gp, st)], None)"

lemma two_urls: "urls two_pool = [''shallow'', ''deep'']"
proof -
  have "trim_space ''shallow'' = ''shallow''" "trim_space ''deep'' = ''deep''"
    by (rule trim_space_graphic; simp add: graphic_def)+
  then show ?thesis by (simp add: two_pool_def new_rpc_pool_def)
qed

lemma two_pool_inv: "pool_inv two_pool"
  using two_urls by (simp add: pool_inv_def) (simp add: two_pool_def new_rpc_pool_def)

lemma two_no_terminal: "no_terminal (two_endpoints n i)"
  by (simp add: no_terminal_def two_endpoints_def endpoint_def)

text \<open>
  The first endpoint that can be connected is taken, not the first that serves the range. From
  ledger 100, with a primary that retains from 200 on and a fallback that retains everything, \<open>Connect\<close>
  starts at 200 and records ledgers 100 to 199 as a gap, although the fallback could serve them.
\<close>

theorem gap_recorded_although_fallback_serves:
  "serves (two_endpoints n 1) ''Test'' 100 0 True 0 \<and>
   (case connect record_gap two_endpoints (\<lambda>_. False) 0 100 0 two_pool [] of
      (p', g', res) \<Rightarrow> res = Ok 200 \<and> idx p' = 0 \<and> map (\<lambda>(gp, st). (gap_from gp, gap_to gp)) g' = [(100, 199)])"
proof -
  have f: "trim_space ''shallow'' = ''shallow''" "trim_space ''deep'' = ''deep''"
    by (rule trim_space_graphic; simp add: graphic_def)+
  show ?thesis
    by (simp add: serves_def two_endpoints_def endpoint_def resolve_start_def clamp_start_ledger_def reset_detection_slack_def
        connect_def cycle_def two_pool_def new_rpc_pool_def f connect_endpoint_def Let_def record_gap_def open_client_def
        open_backend_def adopt_def close_session_def)
qed


lemma failover_accounts_for_ledgers_witness:
  "case connect record_gap two_endpoints (\<lambda>_. False) 0 100 0 two_pool [] of
      (p', g', res) \<Rightarrow> pool_inv p' \<and> (\<forall>start. res = Inr start \<longrightarrow> (\<exists>n. session p' = Some n))"
proof -
  obtain p' g' res where c: "connect record_gap two_endpoints (\<lambda>_. False) 0 100 0 two_pool [] = (p', g', res)"
    by (metis prod_cases3)
  show ?thesis
    using failover_accounts_for_ledgers [of record_gap two_endpoints "\<lambda>_. False" 0 100 0 two_pool "[]" p' g' res] c
      two_pool_inv two_no_terminal by auto
qed

definition dead_endpoints :: network where
  "dead_endpoints n i = (endpoint 2)\<lparr>an_network := Inl (ErrOther ''connection refused'')\<rparr>"

lemma dead_rotate:
  "rotate_pool record_gap dead_endpoints (\<lambda>_. False) 0 100 0 two_pool [] =
     (two_pool\<lparr>tried := [1, 0]\<rparr>, [], Err (ErrJoined [ErrOther ''connection refused'', ErrOther ''connection refused'']))"
  using two_urls
  by (simp add: rotate_pool_def cycle_def connect_endpoint_def Let_def dead_endpoints_def two_pool_def new_rpc_pool_def
      close_session_def abandon_def open_client_def)

lemma rotation_tries_everyone_witness:
  "\<exists>ts. [1, 0] = tried two_pool @ ts \<and> distinct ts \<and> set ts = {..<2}"
proof -
  obtain ts where "tried (two_pool\<lparr>tried := [1, 0]\<rparr>) = tried two_pool @ ts" "distinct ts" "set ts = {..<length (urls two_pool)}"
    using rotation_tries_everyone [OF dead_rotate two_pool_inv] by (auto simp: no_terminal_def dead_endpoints_def endpoint_def record_gap_def)
  then show ?thesis using two_urls by (intro exI [of _ ts]) (simp add: numeral_2_eq_2)
qed

lemma rotation_finds_working_endpoint_witness:
  "\<exists>p' g' start. rotate_pool record_gap two_endpoints (\<lambda>_. False) 0 100 0 two_pool [] = (p', g', Ok start)"
proof (rule rotation_finds_working_endpoint [OF two_pool_inv])
  show "(1 :: nat) < length (urls two_pool)" by (simp add: two_urls)
  show "\<forall>n. serves (two_endpoints n 1) (passphrase two_pool) 100 0 (require_full_range two_pool) 0"
    by (simp add: serves_def two_endpoints_def endpoint_def resolve_start_def
      clamp_start_ledger_def reset_detection_slack_def two_pool_def new_rpc_pool_def)
qed (simp_all add: two_no_terminal record_gap_def)

end
