(* ===== verification/Fetch.thy ===== *)
theory Fetch
  imports GoText
begin

text \<open>
  \<open>fetchLedgerWithRetry\<close> and \<open>classifyWindowError\<close> of \<open>internal/ingest/ingest.go\<close>: one ledger from one
  endpoint, with bounded retries, patience at the tip and a stall budget. What the backend answers to
  the \<open>n\<close>-th call is an argument.
\<close>

section \<open>Window errors\<close>

datatype window_class = WindowNone | WindowBeyondTip | WindowBelowRetention

definition newline :: char where "newline = CHR 0x0A"

text \<open>\<open>\s\<close> of the regular expression.\<close>

definition is_ws :: "char \<Rightarrow> bool" where
  "is_ws c \<longleftrightarrow> c \<in> {CHR 0x09, CHR 0x0A, CHR 0x0C, CHR 0x0D, CHR '' ''}"

fun strip_prefix :: "string \<Rightarrow> string \<Rightarrow> string option" where
  "strip_prefix [] s = Some s"
| "strip_prefix (c # p) [] = None"
| "strip_prefix (c # p) (d # s) = (if c = d then strip_prefix p s else None)"

text \<open>\<open>word:?\s*(\d+)\<close> at the front of a string: the digits and what follows them.\<close>

definition match_number :: "string \<Rightarrow> string \<Rightarrow> (string \<times> string) option" where
  "match_number word s =
     (case strip_prefix word s of None \<Rightarrow> None
      | Some t \<Rightarrow>
          (let u = (case t of c # t' \<Rightarrow> if c = CHR '':'' then t' else t | [] \<Rightarrow> t);
               v = dropWhile is_ws u; ds = takeWhile is_digit v
           in if ds = [] then None else Some (ds, dropWhile is_digit v)))"

text \<open>\<open>.*?latest ledger:?\s*(\d+)\<close>: the first match on the rest of the line.\<close>

fun scan_latest :: "string \<Rightarrow> string option" where
  "scan_latest s =
     (case match_number ''latest ledger'' s of
        Some (ds, _) \<Rightarrow> Some ds
      | None \<Rightarrow> (case s of [] \<Rightarrow> None | c # t \<Rightarrow> if c = newline then None else scan_latest t))"

text \<open>The leftmost match of the whole expression. Giving back digits of the first group cannot help.\<close>

fun find_window :: "string \<Rightarrow> (string \<times> string) option" where
  "find_window s =
     (case match_number ''oldest ledger'' s of
        Some (o', rest) \<Rightarrow>
          (case scan_latest rest of
             Some l \<Rightarrow> Some (o', l)
           | None \<Rightarrow> (case s of [] \<Rightarrow> None | c # t \<Rightarrow> find_window t))
      | None \<Rightarrow> (case s of [] \<Rightarrow> None | c # t \<Rightarrow> find_window t))"

declare scan_latest.simps [simp del] find_window.simps [simp del]

definition classify_window_error :: "string \<Rightarrow> u32 \<Rightarrow> window_class \<times> u32 \<times> u32" where
  "classify_window_error msg requested =
     (case find_window msg of None \<Rightarrow> (WindowNone, 0, 0)
      | Some (m1, m2) \<Rightarrow>
          (case (parse_u32 m1, parse_u32 m2) of
             (Some oldest, Some latest) \<Rightarrow>
               if requested > latest then (WindowBeyondTip, oldest, latest)
               else if requested < oldest then (WindowBelowRetention, oldest, latest)
               else (WindowNone, oldest, latest)
           | _ \<Rightarrow> (WindowNone, 0, 0)))"

section \<open>The retry loop\<close>

definition max_ledger_fetch_retries :: nat where "max_ledger_fetch_retries = 10"
definition initial_retry_backoff :: duration where "initial_retry_backoff = second"
definition max_retry_backoff :: duration where "max_retry_backoff = 30 * second"
definition tip_wait_interval :: duration where "tip_wait_interval = second"

text \<open>
  An answer of \<open>GetLedger\<close>: the ledger, or an error with its text, the context error it wraps, if any,
  and whether the per-attempt deadline had expired while the caller's context was alive.
\<close>

datatype 'm fetch_answer = Got 'm | Miss string "err option" bool

text \<open>
  \<open>ctx_top n\<close> and \<open>ctx_wait n\<close> are the context's error found before the \<open>n\<close>-th call and in the wait
  after it. The result holds the number of calls and, as a history, the waits.
\<close>

function fetch_loop :: "(nat \<Rightarrow> 'm fetch_answer) \<Rightarrow> (nat \<Rightarrow> err option) \<Rightarrow> (nat \<Rightarrow> err option) \<Rightarrow> u32 \<Rightarrow> duration
    \<Rightarrow> nat \<Rightarrow> duration \<Rightarrow> duration \<Rightarrow> err \<Rightarrow> nat \<Rightarrow> duration list \<Rightarrow> nat \<times> (err + 'm) \<times> duration list" where
  "fetch_loop get ctx_top ctx_wait seq budget attempt waited backoff last_err n ws =
     (if max_ledger_fetch_retries < attempt then (n, Err last_err, ws)
      else case ctx_top n of Some e \<Rightarrow> (n, Err e, ws)
      | None \<Rightarrow>
        (case get n of
           Got m \<Rightarrow> (n + 1, Ok m, ws)
         | Miss text ctx_err stalled \<Rightarrow>
             if stalled then (n + 1, Err ErrTipStalled, ws)
             else case ctx_err of Some e \<Rightarrow> (n + 1, Err e, ws)
             | None \<Rightarrow>
               (case fst (classify_window_error text seq) of
                  WindowBeyondTip \<Rightarrow>
                    if budget \<le> waited + tip_wait_interval then (n + 1, Err ErrTipStalled, ws)
                    else (case ctx_wait n of Some e \<Rightarrow> (n + 1, Err e, ws)
                      | None \<Rightarrow> fetch_loop get ctx_top ctx_wait seq budget attempt (waited + tip_wait_interval) backoff last_err
                          (n + 1) (ws @ [tip_wait_interval]))
                | WindowBelowRetention \<Rightarrow> (n + 1, Err (ErrOther ''below the RPC retention window''), ws)
                | WindowNone \<Rightarrow>
                    (case ctx_wait n of Some e \<Rightarrow> (n + 1, Err e, ws)
                     | None \<Rightarrow> fetch_loop get ctx_top ctx_wait seq budget (attempt + 1) waited
                         (next_backoff max_retry_backoff backoff) (ErrOther text) (n + 1) (ws @ [backoff])))))"
  by pat_completeness auto
termination
  by (relation "measures [\<lambda>(get, ct, cw, seq, budget, attempt, waited, backoff, le, n, ws). Suc max_ledger_fetch_retries - attempt,
        \<lambda>(get, ct, cw, seq, budget, attempt, waited, backoff, le, n, ws). nat (budget - waited)]")
    (auto simp: tip_wait_interval_def second_def)

declare fetch_loop.simps [simp del]

definition fetch_ledger_with_retry :: "(nat \<Rightarrow> 'm fetch_answer) \<Rightarrow> (nat \<Rightarrow> err option) \<Rightarrow> (nat \<Rightarrow> err option) \<Rightarrow> u32 \<Rightarrow> duration
    \<Rightarrow> nat \<times> (err + 'm) \<times> duration list" where
  "fetch_ledger_with_retry get ctx_top ctx_wait seq budget =
     fetch_loop get ctx_top ctx_wait seq budget 1 0 initial_retry_backoff (ErrOther []) 0 []"

section \<open>The documented message\<close>

lemma strip_prefix_append [simp]: "strip_prefix p (p @ s) = Some s"
  by (induction p) auto

lemma decimal_all_digits: "list_all is_digit (show_u32 w)"
  by (auto simp: list_all_iff show_u32_def dest: decimal_digits)

lemma takeWhile_digits: "list_all is_digit ds \<Longrightarrow> (s = [] \<or> \<not> is_digit (hd s)) \<Longrightarrow> takeWhile is_digit (ds @ s) = ds \<and> dropWhile is_digit (ds @ s) = s"
  by (induction ds) (cases s; auto)+

lemma match_number_shown:
  assumes "s = [] \<or> \<not> is_digit (hd s)"
  shows "match_number word (word @ '': '' @ show_u32 w @ s) = Some (show_u32 w, s)"
proof -
  have d: "\<not> is_ws c" if "is_digit c" for c using that by (auto simp: is_ws_def is_digit_def)
  obtain c t where ct: "show_u32 w = c # t" using show_u32_nonempty by (cases "show_u32 w") auto
  then have "\<not> is_ws c" using decimal_all_digits [of w] d by simp
  then have w: "dropWhile is_ws (show_u32 w @ s) = show_u32 w @ s" by (simp add: ct)
  show ?thesis
    using takeWhile_digits [OF decimal_all_digits assms, of w]
    by (simp add: match_number_def w Let_def) (simp add: is_ws_def w)
qed

lemma match_number_other: "word \<noteq> [] \<Longrightarrow> c \<noteq> hd word \<Longrightarrow> match_number word (c # s) = None"
  by (cases word) (auto simp: match_number_def)

lemma find_window_skip: "list_all (\<lambda>c. c \<noteq> CHR ''o'') xs \<Longrightarrow> find_window (xs @ s) = find_window s"
  by (induction xs) (simp_all add: find_window.simps [of "_ # _"] match_number_other)

lemma scan_latest_skip: "list_all (\<lambda>c. c \<noteq> CHR ''l'' \<and> c \<noteq> newline) xs \<Longrightarrow> scan_latest (xs @ s) = scan_latest s"
  by (induction xs) (simp_all add: scan_latest.simps [of "_ # _"] match_number_other)

definition window_message :: "u32 \<Rightarrow> u32 \<Rightarrow> u32 \<Rightarrow> string" where
  "window_message n lo hi = ''[-32600] start ledger ('' @ show_u32 n @ '') must be between the oldest ledger: '' @ show_u32 lo @
     '' and the latest ledger: '' @ show_u32 hi @ '' for this rpc instance''"

lemma find_window_message: "find_window (window_message n lo hi) = Some (show_u32 lo, show_u32 hi)"
proof -
  let ?tail = "''latest ledger'' @ '': '' @ show_u32 hi @ '' for this rpc instance''"
  let ?mid = "''oldest ledger'' @ '': '' @ show_u32 lo @ '' and the '' @ ?tail"
  have "list_all (\<lambda>c. c \<noteq> CHR ''o'') (show_u32 n)"
    using decimal_all_digits [of n] by (rule list.pred_mono_strong) (auto simp: is_digit_def)
  then have f: "find_window (window_message n lo hi) = find_window ?mid"
    using find_window_skip [of "''[-32600] start ledger ('' @ show_u32 n @ '') must be between the ''" ?mid]
    by (simp add: window_message_def)
  have m1: "match_number ''oldest ledger'' ?mid = Some (show_u32 lo, '' and the '' @ ?tail)"
    by (rule match_number_shown) (simp add: is_digit_def)
  have m2: "match_number ''latest ledger'' ?tail = Some (show_u32 hi, '' for this rpc instance'')"
    by (rule match_number_shown) (simp add: is_digit_def)
  have s1: "scan_latest ('' and the '' @ ?tail) = scan_latest ?tail"
    by (rule scan_latest_skip) (simp add: newline_def)
  have s2: "scan_latest ?tail = Some (show_u32 hi)"
    by (subst scan_latest.simps) (simp only: m2 option.case prod.case)
  have "find_window ?mid = Some (show_u32 lo, show_u32 hi)"
    by (subst find_window.simps) (simp only: m1 s1 s2 option.case prod.case)
  with f show ?thesis by (rule trans)
qed

text \<open>
  The window error is read as the server means it: for the documented message, whatever the three
  numbers, a request above the window is beyond the tip, one below it is below retention, and one
  inside is no window error.
\<close>

theorem window_error_understood:
  "classify_window_error (window_message n lo hi) requested =
     (if requested > hi then WindowBeyondTip else if requested < lo then WindowBelowRetention else WindowNone, lo, hi)"
  by (simp add: classify_window_error_def find_window_message)


section \<open>The loop\<close>

lemma fetch_loop_bound:
  assumes "fetch_loop get ctx_top ctx_wait seq budget attempt waited backoff last_err n ws = (n', res, ws')"
    and "\<forall>w\<in>set ws. w \<le> max_retry_backoff" and "backoff \<le> max_retry_backoff"
  shows "n' \<le> n + (11 - attempt) + nat ((budget - waited) div second) + 1 \<and> (\<forall>w\<in>set ws'. w \<le> max_retry_backoff)"
  using assms
proof (induction get ctx_top ctx_wait seq budget attempt waited backoff last_err n ws rule: fetch_loop.induct)
  case (1 get ctx_top ctx_wait seq budget attempt waited backoff last_err n ws)
  note simps = fetch_loop.simps [of get ctx_top ctx_wait seq budget attempt waited backoff last_err n ws]
  show ?case
  proof (cases "max_ledger_fetch_retries < attempt \<or> ctx_top n \<noteq> None")
    case True
    with "1.prems" show ?thesis by (subst (asm) simps) (auto split: if_splits option.splits)
  next
    case False
    then have a: "\<not> max_ledger_fetch_retries < attempt" "ctx_top n = None" by auto
    show ?thesis
    proof (cases "get n")
      case (Got m)
      with a "1.prems" show ?thesis by (subst (asm) simps) auto
    next
      case (Miss msg ctx_err stalled)
      show ?thesis
      proof (cases "stalled \<or> ctx_err \<noteq> None \<or> fst (classify_window_error msg seq) = WindowBelowRetention \<or>
          fst (classify_window_error msg seq) = WindowBeyondTip \<and> budget \<le> waited + tip_wait_interval \<or> ctx_wait n \<noteq> None")
        case True
        with a Miss "1.prems" show ?thesis
          by (subst (asm) simps) (auto split: if_splits option.splits window_class.splits)
      next
        case F: False
        then have f: "\<not> stalled" "ctx_err = None" "ctx_wait n = None" by auto
        show ?thesis
        proof (cases "fst (classify_window_error msg seq)")
          case WindowBeyondTip
          with F have b: "\<not> budget \<le> waited + tip_wait_interval" by auto
          note IH = "1.IH"(2) [OF a Miss f(1,2) WindowBeyondTip b f(3)]
          have "fetch_loop get ctx_top ctx_wait seq budget attempt (waited + tip_wait_interval) backoff last_err (n + 1) (ws @ [tip_wait_interval]) = (n', res, ws')"
            using "1.prems"(1) a Miss f WindowBeyondTip b by (subst (asm) simps) simp
          moreover have "\<forall>w\<in>set (ws @ [tip_wait_interval]). w \<le> max_retry_backoff"
            using "1.prems"(2) by (auto simp: tip_wait_interval_def max_retry_backoff_def second_def)
          ultimately have i: "n' \<le> n + 1 + (11 - attempt) + nat ((budget - (waited + tip_wait_interval)) div second) + 1 \<and>
            (\<forall>w\<in>set ws'. w \<le> max_retry_backoff)" by (rule IH [OF _ _ "1.prems"(3)])
          have "(budget - (waited + tip_wait_interval)) div second = (budget - waited) div second - 1"
            by (simp add: tip_wait_interval_def second_def)
          moreover have "1 \<le> (budget - waited) div second" using b by (simp add: tip_wait_interval_def second_def)
          ultimately have "nat ((budget - waited) div second) = Suc (nat ((budget - (waited + tip_wait_interval)) div second))"
            by linarith
          with i show ?thesis by simp
        next
          case WindowNone
          note IH = "1.IH"(1) [OF a Miss f(1,2) WindowNone f(3)]
          have "fetch_loop get ctx_top ctx_wait seq budget (attempt + 1) waited (next_backoff max_retry_backoff backoff) (ErrOther msg) (n + 1) (ws @ [backoff]) = (n', res, ws')"
            using "1.prems"(1) a Miss f WindowNone by (subst (asm) simps) simp
          moreover have "\<forall>w\<in>set (ws @ [backoff]). w \<le> max_retry_backoff" using "1.prems"(2,3) by auto
          moreover have "next_backoff max_retry_backoff backoff \<le> max_retry_backoff"
            using "1.prems"(3) by (simp add: next_backoff_def)
          ultimately have r: "n' \<le> n + 1 + (11 - (attempt + 1)) + nat ((budget - waited) div second) + 1 \<and>
            (\<forall>w\<in>set ws'. w \<le> max_retry_backoff)" by (rule IH)
          have e: "n + 1 + (11 - (attempt + 1)) = n + (11 - attempt)"
            using a(1) by (simp add: max_ledger_fetch_retries_def)
          show ?thesis using r unfolding e .
        qed (use F in auto)
      qed
    qed
  qed
qed

text \<open>
  C24. A fetch always ends, and soon: whatever the endpoint answers, after at most ten counted attempts
  and one call per second of the stall budget, each wait being at most 30 seconds.
\<close>

theorem fetch_is_bounded:
  "case fetch_ledger_with_retry get ctx_top ctx_wait seq budget of
     (n, res, ws) \<Rightarrow> n \<le> 11 + nat (budget div second) \<and> list_all (\<lambda>w. w \<le> 30 * second) ws"
proof (cases "fetch_ledger_with_retry get ctx_top ctx_wait seq budget")
  case (fields n res ws)
  then show ?thesis
    using fetch_loop_bound [of get ctx_top ctx_wait seq budget 1 0 initial_retry_backoff "ErrOther []" 0 "[]" n res ws]
    by (simp add: fetch_ledger_with_retry_def initial_retry_backoff_def max_retry_backoff_def second_def list_all_iff)
qed

text \<open>How many of the answers \<open>n\<close>, ..., \<open>N - 1\<close> are of a class.\<close>

definition class_of :: "(nat \<Rightarrow> 'm fetch_answer) \<Rightarrow> u32 \<Rightarrow> nat \<Rightarrow> window_class option" where
  "class_of get seq i = (case get i of Got _ \<Rightarrow> None
     | Miss msg ctx_err stalled \<Rightarrow> if stalled \<or> ctx_err \<noteq> None then None else Some (fst (classify_window_error msg seq)))"

definition count_class :: "(nat \<Rightarrow> 'm fetch_answer) \<Rightarrow> u32 \<Rightarrow> window_class \<Rightarrow> nat \<Rightarrow> nat \<Rightarrow> nat" where
  "count_class get seq c n N = length (filter (\<lambda>i. class_of get seq i = Some c) [n..<N])"

lemma count_class_step: "n < N \<Longrightarrow> count_class get seq c n N = (if class_of get seq n = Some c then 1 else 0) + count_class get seq c (Suc n) N"
  by (simp add: count_class_def upt_conv_Cons)

lemma fetch_loop_patient:
  assumes "n \<le> N" and "get N = Got m" and "\<forall>i. ctx_top i = None \<and> ctx_wait i = None"
    and "\<forall>i. n \<le> i \<and> i < N \<longrightarrow> class_of get seq i \<in> {Some WindowNone, Some WindowBeyondTip}"
    and "attempt + count_class get seq WindowNone n N \<le> 10"
    and "count_class get seq WindowBeyondTip n N = 0 \<or> waited + int (count_class get seq WindowBeyondTip n N) * second < budget"
  shows "\<exists>ws'. fetch_loop get ctx_top ctx_wait seq budget attempt waited backoff last_err n ws = (Suc N, Ok m, ws')"
  using assms
proof (induction "N - n" arbitrary: n attempt waited backoff last_err ws)
  case 0
  then show ?case by (subst fetch_loop.simps) (simp add: max_ledger_fetch_retries_def)
next
  case (Suc k)
  then have n: "n < N" by simp
  then have c: "class_of get seq n \<in> {Some WindowNone, Some WindowBeyondTip}" using Suc.prems(4) by simp
  then obtain msg where t: "get n = Miss msg None False" and cl: "class_of get seq n = Some (fst (classify_window_error msg seq))"
    by (auto simp: class_of_def split: fetch_answer.splits if_splits)
  note step = count_class_step [OF n, of get seq]
  have rest: "\<forall>i. Suc n \<le> i \<and> i < N \<longrightarrow> class_of get seq i \<in> {Some WindowNone, Some WindowBeyondTip}" using Suc.prems(4) by simp
  have k: "k = N - Suc n" "Suc n \<le> N" using Suc.hyps(2) n by simp_all
  have a: "\<not> max_ledger_fetch_retries < attempt" using Suc.prems(5) by (simp add: max_ledger_fetch_retries_def)
  show ?case
  proof (cases "fst (classify_window_error msg seq)")
    case WindowNone
    have "\<exists>ws'. fetch_loop get ctx_top ctx_wait seq budget (attempt + 1) waited (next_backoff max_retry_backoff backoff) (ErrOther msg) (Suc n) (ws @ [backoff]) = (Suc N, Ok m, ws')"
      using Suc.prems(5,6) step [of WindowNone] step [of WindowBeyondTip] cl WindowNone
      by (intro Suc.hyps(1) [OF k Suc.prems(2,3) rest]) auto
    then show ?thesis using a t WindowNone Suc.prems(3) by (subst fetch_loop.simps) simp
  next
    case WindowBeyondTip
    let ?b = "count_class get seq WindowBeyondTip (Suc n) N"
    have b: "waited + (1 + int ?b) * second < budget"
      using Suc.prems(6) step [of WindowBeyondTip] cl WindowBeyondTip by simp
    have "0 \<le> int ?b * second" by (simp add: second_def)
    then have w: "waited + second + int ?b * second < budget" "waited + second < budget"
      using b by (simp_all add: distrib_right)
    have "\<exists>ws'. fetch_loop get ctx_top ctx_wait seq budget attempt (waited + tip_wait_interval) backoff last_err (Suc n) (ws @ [tip_wait_interval]) = (Suc N, Ok m, ws')"
      using Suc.prems(5) step [of WindowNone] cl WindowBeyondTip w(1)
      by (intro Suc.hyps(1) [OF k Suc.prems(2,3) rest]) (auto simp: tip_wait_interval_def)
    then show ?thesis using a t WindowBeyondTip Suc.prems(3) w(2)
      by (subst fetch_loop.simps) (simp add: tip_wait_interval_def)
  qed (use c cl in auto)
qed

text \<open>
  C32. Patience. Waiting for a ledger that has not closed yet costs no attempt: if before the ledger
  arrives there are, in any interleaving, at most nine transient errors and fewer beyond-tip answers
  than the stall budget has seconds, the fetch returns the ledger.
\<close>

theorem fetch_survives_transients_and_tip:
  assumes "get N = Got m" and "\<forall>i. ctx_top i = None \<and> ctx_wait i = None"
    and "\<forall>i < N. class_of get seq i \<in> {Some WindowNone, Some WindowBeyondTip}"
    and "count_class get seq WindowNone 0 N \<le> 9"
    and "int (count_class get seq WindowBeyondTip 0 N) * second < budget"
  shows "\<exists>ws. fetch_ledger_with_retry get ctx_top ctx_wait seq budget = (Suc N, Ok m, ws)"
  unfolding fetch_ledger_with_retry_def
  by (rule fetch_loop_patient) (use assms in auto)

text \<open>A beyond-tip answer, a broken connection, another beyond-tip answer, then the ledger.\<close>

definition rough_endpoint :: "nat \<Rightarrow> string fetch_answer" where
  "rough_endpoint i = (if i = 3 then Got ''ledger'' else if i = 1 then Miss ''EOF'' None False else Miss (window_message 8 2 7) None False)"

lemma rough_classes: "class_of rough_endpoint 8 0 = Some WindowBeyondTip" "class_of rough_endpoint 8 1 = Some WindowNone"
  "class_of rough_endpoint 8 2 = Some WindowBeyondTip"
proof -
  have w: "classify_window_error (window_message 8 2 7) 8 = (WindowBeyondTip, 2, 7)"
    by (simp add: classify_window_error_def find_window_message)
  have e: "classify_window_error ''EOF'' 8 = (WindowNone, 0, 0)"
    by (simp add: classify_window_error_def find_window.simps match_number_def)
  show "class_of rough_endpoint 8 0 = Some WindowBeyondTip" "class_of rough_endpoint 8 1 = Some WindowNone"
    "class_of rough_endpoint 8 2 = Some WindowBeyondTip"
    by (simp_all add: class_of_def rough_endpoint_def w e)
qed

lemma fetch_survives_transients_and_tip_witness:
  "\<exists>ws. fetch_ledger_with_retry rough_endpoint (\<lambda>_. None) (\<lambda>_. None) 8 (60 * second) = (4, Ok ''ledger'', ws)"
proof -
  have u: "[0..<3] = [0, 1, 2 :: nat]" by (simp add: upt_rec)
  have "\<exists>ws. fetch_ledger_with_retry rough_endpoint (\<lambda>_. None) (\<lambda>_. None) 8 (60 * second) = (Suc 3, Ok ''ledger'', ws)"
  proof (rule fetch_survives_transients_and_tip)
    show "\<forall>i < 3. class_of rough_endpoint 8 i \<in> {Some WindowNone, Some WindowBeyondTip}"
      using rough_classes by (auto simp: numeral_3_eq_3 numeral_2_eq_2 less_Suc_eq)
  qed (use rough_classes in \<open>simp_all add: rough_endpoint_def count_class_def u second_def\<close>)
  then show ?thesis by simp
qed

end
