(* ===== verification/Ingest.thy ===== *)
theory Ingest
  imports Control Failover Fetch
begin

text \<open>
  \<open>internal/ingest/ingest.go\<close> and \<open>internal/ingest/catchup.go\<close>: the boot sequence and the live loop. The
  outside world, the broker and the disk, is one state \<open>'w\<close> that publishing and saving both change, so
  that their order is visible. What a turn of the loop meets (answers of the endpoints, clocks, queued
  commands, cancellation) is a record \<open>turn\<close>.
\<close>

section \<open>Ledgers and configuration\<close>

text \<open>
  A ledger close meta as the loop uses it. \<open>PreviousLedgerHash\<close> is the first accessor that is called, outside
  the recover of \<open>processLedger\<close>; it panics, \<open>None\<close>, on a meta of an unknown version. The transaction reader of
  the SDK may fail to open, and each read gives a transaction, an error or a panic; the list ends where the
  reader reports the end. A meta that could be read has a known version, and with it the other accessors.
\<close>

record ledger_meta =
  lm_seq :: u32
  lm_hash :: "byte list"
  lm_prev_hash :: "byte list option"
  lm_close_time :: int
  lm_reader :: "unit call"
  lm_reads :: "ledger_tx call list"

record ingest_config =
  cg_network :: string
  cg_passphrase :: string
  cg_start :: u32
  cg_end :: u32
  cg_sweep :: bool
  cg_replay :: bool
  cg_hashes :: "string list"
  cg_fetch_timeout :: duration
  cg_heartbeat :: string

record 'w plant =
  pl_sdk :: sdk
  pl_entries :: "nat \<Rightarrow> rpc"
  pl_publish :: "'w publisher"
  pl_load :: "'w \<Rightarrow> 'w \<times> istate \<times> err option"
  pl_save :: "istate \<Rightarrow> 'w \<Rightarrow> 'w \<times> err option"
  pl_parse_url :: "string \<Rightarrow> string option"

record 'w ingest =
  lp_pipe :: "'w pipe"
  lp_pool :: pool
  lp_gaps :: "gap list"
  lp_current :: u32
  lp_expected :: string
  lp_last_hash :: string
  lp_pending :: "string set"
  lp_checkpoint :: u32
  lp_heartbeat :: "heartbeat option"

record turn =
  tu_cancelled :: bool
  tu_get :: "nat \<Rightarrow> ledger_meta fetch_answer"
  tu_fetch_top :: "nat \<Rightarrow> err option"
  tu_fetch_wait :: "nat \<Rightarrow> err option"
  tu_cancelled_after :: bool
  tu_net :: network
  tu_pool_poll :: "nat \<Rightarrow> bool"
  tu_process_poll :: "nat \<Rightarrow> bool"
  tu_now :: time
  tu_sweep_now :: time
  tu_end_now :: time
  tu_commands :: "(time \<times> command) list"
  tu_hold_now :: time
  tu_hold :: "(time \<times> hold_event) list"
  tu_hold_cancelled :: bool

text \<open>How \<open>Ingest\<close> returns: nil, an error, a panic, or never.\<close>

datatype exit = ReturnsNil | ReturnsErr err | Panics | NeverReturns

fun exit_of :: "publish_result \<Rightarrow> exit" where
  "exit_of (Refused e) = ReturnsErr e"
| "exit_of Crashed = Panics"
| "exit_of Blocked = NeverReturns"
| "exit_of Delivered = ReturnsNil"

section \<open>Catching up\<close>

definition catch_up_min_age :: duration where "catch_up_min_age = 20 * minute"
definition checkpoint_interval :: u32 where "checkpoint_interval = 100"
definition sweep_max_ledger_age :: duration where "sweep_max_ledger_age = 30 * second"
definition tip_stall_after :: duration where "tip_stall_after = 60 * second"
definition tip_stall_slack :: duration where "tip_stall_slack = 10 * second"

definition should_checkpoint :: "bool \<Rightarrow> bool \<Rightarrow> u32 \<Rightarrow> u32 \<Rightarrow> bool" where
  "should_checkpoint behind is_final seq saved \<longleftrightarrow> \<not> behind \<or> is_final \<or> seq - saved \<ge> checkpoint_interval"

definition drain_pending :: "string set \<Rightarrow> string list \<Rightarrow> string set \<times> string list" where
  "drain_pending pending active = ({}, sort_keys (pending \<union> set active))"

text \<open>\<open>strings.EqualFold\<close> on the strings compared here, which are ASCII.\<close>

definition lower :: "char \<Rightarrow> char" where
  "lower c = (if 65 \<le> (of_char c :: nat) \<and> (of_char c :: nat) \<le> 90 then char_of ((of_char c :: nat) + 32) else c)"

definition equal_fold :: "string \<Rightarrow> string \<Rightarrow> bool" where
  "equal_fold a b \<longleftrightarrow> map lower a = map lower b"

definition verify_chain_continuity :: "string \<Rightarrow> ledger_meta \<Rightarrow> exit option" where
  "verify_chain_continuity expected meta =
     (case lm_prev_hash meta of
        None \<Rightarrow> Some Panics
      | Some got \<Rightarrow>
          if equal_fold (hex_encode got) expected then None else Some (ReturnsErr (ErrOther ''state diverged'')))"

definition stall_budget :: "ingest_config \<Rightarrow> duration" where
  "stall_budget cfg =
     (let b = duration_add (cg_fetch_timeout cfg) tip_stall_slack in if b > tip_stall_after then b else tip_stall_after)"

section \<open>Helpers of the loop\<close>

definition snapshot_state :: "ingest_config \<Rightarrow> registry \<Rightarrow> u32 \<Rightarrow> string \<Rightarrow> gap list \<Rightarrow> istate" where
  "snapshot_state cfg r seq hash gaps =
     \<lparr>st_version = 0, st_network = cg_passphrase cfg, st_last_seq = seq, st_last_hash = hash, st_escrows = snapshot r,
      st_removed = removed_snapshot r, st_gaps = gaps\<rparr>"

definition gap_envelope :: "time \<Rightarrow> string \<Rightarrow> gap \<Rightarrow> envelope" where
  "gap_envelope now network g = from_gap now network (gap_from g) (gap_to g) (gap_reason g) (gap_detected g)"

definition publish_gaps :: "'w publisher \<Rightarrow> time \<Rightarrow> string \<Rightarrow> gap list \<Rightarrow> 'w \<Rightarrow> 'w \<times> publish_result" where
  "publish_gaps pub now network gaps w = publish_all pub (map (gap_envelope now network) gaps) w"

fun read_loop :: "ledger_tx call list \<Rightarrow> ledger_tx list \<Rightarrow> ledger_tx list call" where
  "read_loop [] txs = Ret txs"
| "read_loop (c # cs) txs = bind_call c (\<lambda>tx. read_loop cs (txs @ [tx]))"

definition read_ledger_transactions :: "ledger_meta \<Rightarrow> ledger_tx list call" where
  "read_ledger_transactions meta = bind_call (lm_reader meta) (\<lambda>_. read_loop (lm_reads meta) [])"

text \<open>\<open>processLedger\<close>: a panic of the chain data's accessors becomes an error.\<close>

definition process_ledger :: "sdk \<Rightarrow> (nat \<Rightarrow> bool) \<Rightarrow> ledger_meta \<Rightarrow> registry \<Rightarrow> registry \<times> (err + escrow_event list \<times> string list)" where
  "process_ledger k poll meta r =
     (case read_ledger_transactions meta of
        Fail e \<Rightarrow> (r, Err e)
      | Panic m \<Rightarrow> (r, Err (ErrOther ''panic while processing''))
      | Ret txs \<Rightarrow>
          (case process_transactions k poll txs r of
             (r', Ret res) \<Rightarrow> (r', Ok res)
           | (r', Fail e) \<Rightarrow> (r', Err e)
           | (r', Panic m) \<Rightarrow> (r', Err (ErrOther ''panic while processing''))))"

definition services_at :: "'w plant \<Rightarrow> ingest_config \<Rightarrow> pool \<Rightarrow> 'w services" where
  "services_at pl cfg p = \<lparr>sv_sdk = pl_sdk pl, sv_rpc = pl_entries pl (idx p), sv_publish = pl_publish pl, sv_network = cg_network cfg\<rparr>"

text \<open>The hook \<open>onGap\<close>: append the gap and save, with the cursor before the clamped start and no hash.\<close>

definition on_gap_hook :: "'w plant \<Rightarrow> ingest_config \<Rightarrow> registry \<Rightarrow> (gap list \<times> 'w) on_gap" where
  "on_gap_hook pl cfg r gp start g =
     (case g of (gaps, w) \<Rightarrow>
        (case pl_save pl (snapshot_state cfg r (start - 1) [] (gaps @ [gp])) w of (w', e) \<Rightarrow> ((gaps @ [gp], w'), e)))"

section \<open>A turn of the loop, section by section\<close>

text \<open>Each section gives the new state and either how \<open>Ingest\<close> returns or its value for the next section.\<close>

type_synonym ('w, 'a) section_result = "'w ingest \<times> (exit + 'a)"

definition then_do :: "('w, 'a) section_result \<Rightarrow> ('a \<Rightarrow> 'w ingest \<Rightarrow> ('w, 'b) section_result) \<Rightarrow> ('w, 'b) section_result" where
  "then_do r f = (case r of (l, Inl x) \<Rightarrow> (l, Inl x) | (l, Inr a) \<Rightarrow> f a l)"

definition set_world :: "'w \<Rightarrow> 'w ingest \<Rightarrow> 'w ingest" where
  "set_world w l = l\<lparr>lp_pipe := (lp_pipe l)\<lparr>pp_sink := w\<rparr>\<rparr>"

abbreviation world :: "'w ingest \<Rightarrow> 'w" where "world l \<equiv> pp_sink (lp_pipe l)"
abbreviation reg_of :: "'w ingest \<Rightarrow> registry" where "reg_of l \<equiv> pp_reg (lp_pipe l)"

definition publish_section :: "'w plant \<Rightarrow> envelope list \<Rightarrow> 'w ingest \<Rightarrow> ('w, unit) section_result" where
  "publish_section pl es l =
     (case publish_all (pl_publish pl) es (world l) of
        (w, Delivered) \<Rightarrow> (set_world w l, Inr ())
      | (w, r) \<Rightarrow> (set_world w l, Inl (exit_of r)))"

definition save_section :: "'w plant \<Rightarrow> istate \<Rightarrow> 'w ingest \<Rightarrow> ('w, unit) section_result" where
  "save_section pl st l =
     (case pl_save pl st (world l) of
        (w, None) \<Rightarrow> (set_world w l, Inr ())
      | (w, Some e) \<Rightarrow> (set_world w l, Inl (ReturnsErr e)))"

text \<open>The endpoint gave up on the current ledger: rotate, re-arm or disarm the anchor, republish the gaps.\<close>

definition rotate_section :: "'w plant \<Rightarrow> ingest_config \<Rightarrow> turn \<Rightarrow> 'w ingest \<Rightarrow> ('w, unit) section_result" where
  "rotate_section pl cfg tu l =
     (case rotate_pool (on_gap_hook pl cfg (reg_of l)) (tu_net tu) (tu_pool_poll tu) (tu_now tu) (lp_current l) (cg_end cfg)
             (lp_pool l) (lp_gaps l, world l) of
        (p, (gaps, w), Err e) \<Rightarrow> (set_world w (l\<lparr>lp_pool := p, lp_gaps := gaps\<rparr>), Inl (ReturnsErr e))
      | (p, (gaps, w), Ok resume) \<Rightarrow>
          (let l1 = set_world w (l\<lparr>lp_pool := p, lp_gaps := gaps\<rparr>);
               l2 = l1\<lparr>lp_pipe := (lp_pipe l1)\<lparr>pp_tracker := set_rpc_endpoint (current_host (pl_parse_url pl) p) (pp_tracker (lp_pipe l1))\<rparr>\<rparr>;
               l3 = (if resume = lp_current l2 then l2\<lparr>lp_expected := lp_last_hash l2\<rparr>
                     else l2\<lparr>lp_current := resume, lp_expected := []\<rparr>)
           in publish_section pl (map (gap_envelope (tu_now tu) (cg_network cfg)) (lp_gaps l3)) l3))"

definition continuity_section :: "ledger_meta \<Rightarrow> 'w ingest \<Rightarrow> ('w, unit) section_result" where
  "continuity_section meta l =
     (if lp_expected l \<noteq> [] then
        (case verify_chain_continuity (lp_expected l) meta of
           Some x \<Rightarrow> (l, Inl x)
         | None \<Rightarrow> (l\<lparr>lp_expected := []\<rparr>, Inr ()))
      else (l, Inr ()))"

definition process_section :: "'w plant \<Rightarrow> turn \<Rightarrow> ledger_meta \<Rightarrow> 'w ingest \<Rightarrow> ('w, escrow_event list \<times> string list) section_result" where
  "process_section pl tu meta l =
     (case process_ledger (pl_sdk pl) (tu_process_poll tu) meta (reg_of l) of
        (r, Err e) \<Rightarrow> (l\<lparr>lp_pipe := (lp_pipe l)\<lparr>pp_reg := r\<rparr>\<rparr>, Inl (ReturnsErr e))
      | (r, Ok res) \<Rightarrow> (l\<lparr>lp_pipe := (lp_pipe l)\<lparr>pp_reg := r\<rparr>\<rparr>, Inr res))"

definition fact_envelopes :: "ingest_config \<Rightarrow> turn \<Rightarrow> escrow_event list \<Rightarrow> envelope list" where
  "fact_envelopes cfg tu facts = map (from_escrow_event (tu_now tu) (cg_network cfg)) facts"

definition catching_up :: "turn \<Rightarrow> ledger_meta \<Rightarrow> bool" where
  "catching_up tu meta \<longleftrightarrow> time_sub (tu_now tu) (time_unix (lm_close_time meta)) > catch_up_min_age"

text \<open>State of the active escrows: deferred while catching up, otherwise fetched and published.\<close>

definition state_section :: "'w plant \<Rightarrow> ingest_config \<Rightarrow> turn \<Rightarrow> ledger_meta \<Rightarrow> string list \<Rightarrow> 'w ingest \<Rightarrow> ('w, nat) section_result" where
  "state_section pl cfg tu meta active l =
     (if catching_up tu meta then (l\<lparr>lp_pending := lp_pending l \<union> set active\<rparr>, Inr 0)
      else
        let (pending, ids) = (if lp_pending l \<noteq> {} then drain_pending (lp_pending l) active else (lp_pending l, active));
            l1 = l\<lparr>lp_pending := pending\<rparr>;
            sv = services_at pl cfg (lp_pool l)
        in (case fetch_states_all (sv_sdk sv) (sv_rpc sv) (reg_of l1) ids (lp_current l1) (time_unix (lm_close_time meta)) (pp_det (lp_pipe l1)) of
              (d, Err e) \<Rightarrow> (l1\<lparr>lp_pipe := (lp_pipe l1)\<lparr>pp_det := d\<rparr>\<rparr>, Inl (ReturnsErr e))
            | (d, Ok states) \<Rightarrow>
                then_do (publish_section pl (map (from_state_change (tu_now tu) (cg_network cfg)) states)
                    (l1\<lparr>lp_pipe := (lp_pipe l1)\<lparr>pp_det := d\<rparr>\<rparr>))
                  (\<lambda>_ l2. (l2, Inr (length states)))))"

definition sweep_section :: "'w plant \<Rightarrow> ingest_config \<Rightarrow> turn \<Rightarrow> ledger_meta \<Rightarrow> 'w ingest \<Rightarrow> ('w, nat) section_result" where
  "sweep_section pl cfg tu meta l =
     (if cg_sweep cfg \<and> time_sub (tu_sweep_now tu) (time_unix (lm_close_time meta)) \<le> sweep_max_ledger_age then
        (case next_batch (reg_of l) (lp_current l) (key_cost (pp_det (lp_pipe l))) max_ledger_entry_keys (pp_sweeper (lp_pipe l)) of
           (s, batch, done') \<Rightarrow>
             let l1 = l\<lparr>lp_pipe := (lp_pipe l)\<lparr>pp_sweeper := s\<rparr>\<rparr>; sv = services_at pl cfg (lp_pool l) in
             if batch = [] then (l1, Inr 0)
             else (case fetch_states (sv_sdk sv) (sv_rpc sv) (reg_of l1) batch (lp_current l1) (time_unix (lm_close_time meta))
                     (modified_since s) (pp_det (lp_pipe l1)) of
                 (d, Err e) \<Rightarrow> (l1\<lparr>lp_pipe := (lp_pipe l1)\<lparr>pp_det := d\<rparr>\<rparr>, Inr 0)
               | (d, Ok states) \<Rightarrow>
                   then_do (publish_section pl (map (from_state_change (tu_now tu) (cg_network cfg)) states)
                       (l1\<lparr>lp_pipe := (lp_pipe l1)\<lparr>pp_det := d\<rparr>\<rparr>))
                     (\<lambda>_ l2. (l2, Inr (length states)))))
      else (l, Inr 0))"

definition checkpoint_section :: "'w plant \<Rightarrow> ingest_config \<Rightarrow> turn \<Rightarrow> ledger_meta \<Rightarrow> 'w ingest \<Rightarrow> ('w, unit) section_result" where
  "checkpoint_section pl cfg tu meta l =
     (if should_checkpoint (catching_up tu meta) (cg_end cfg \<noteq> 0 \<and> lp_current l = cg_end cfg) (lp_current l) (lp_checkpoint l) then
        then_do (save_section pl (snapshot_state cfg (reg_of l) (lp_current l) (hex_encode (lm_hash meta)) (lp_gaps l)) l)
          (\<lambda>_ l1. (l1\<lparr>lp_checkpoint := lp_current l1\<rparr>, Inr ()))
      else (l, Inr ()))"

definition report_section :: "turn \<Rightarrow> ledger_meta \<Rightarrow> nat \<Rightarrow> nat \<Rightarrow> 'w ingest \<Rightarrow> 'w ingest" where
  "report_section tu meta events states l =
     (let x = lp_pipe l;
          p = \<lparr>pr_ledger_seq = lp_current l, pr_closed_at = time_unix (lm_close_time meta), pr_duration = time_sub (tu_end_now tu) (tu_now tu),
               pr_known_escrows = registry_size (pp_reg x), pr_events = events, pr_state_changes = states, pr_gaps = length (lp_gaps l),
               pr_suppressed = suppressed_removals (pp_det x)\<rparr>
      in l\<lparr>lp_pipe := x\<lparr>pp_tracker := record_ledger (tu_end_now tu) p (pp_tracker x)\<rparr>,
           lp_heartbeat := beat (tu_end_now tu) (lp_heartbeat l), lp_last_hash := hex_encode (lm_hash meta)\<rparr>)"

text \<open>\<open>saveNow\<close>, the record that persists the result of a command.\<close>

definition command_state :: "ingest_config \<Rightarrow> 'w ingest \<Rightarrow> 'w pipe \<Rightarrow> istate" where
  "command_state cfg l x = snapshot_state cfg (pp_reg x) (lp_current l) (lp_last_hash l) (lp_gaps l)"

definition command_section :: "'w plant \<Rightarrow> ingest_config \<Rightarrow> turn \<Rightarrow> ledger_meta \<Rightarrow> 'w ingest \<Rightarrow> ('w, unit) section_result" where
  "command_section pl cfg tu meta l =
     (case drain_commands (services_at pl cfg (lp_pool l)) (tu_commands tu) (lp_current l) (time_unix (lm_close_time meta)) (lp_pipe l) False of
        (x, mutated, Delivered) \<Rightarrow>
          (let l1 = l\<lparr>lp_pipe := x\<rparr> in
           if mutated then save_section pl (command_state cfg l1 x) l1 else (l1, Inr ()))
      | (x, mutated, r) \<Rightarrow> (l\<lparr>lp_pipe := x\<rparr>, Inl (exit_of r)))"

text \<open>The hold of an operator pause; the context is checked again when it returns with an error.\<close>

definition hold_section :: "'w plant \<Rightarrow> ingest_config \<Rightarrow> turn \<Rightarrow> ledger_meta \<Rightarrow> 'w ingest \<Rightarrow> ('w, unit) section_result" where
  "hold_section pl cfg tu meta l =
     (if is_paused (tu_hold_now tu) (lp_pipe l) then
        (case hold_while_paused (services_at pl cfg (lp_pool l)) (\<lambda>x. pl_save pl (command_state cfg l x) (pp_sink x)) (tu_hold_now tu)
                (tu_hold tu) (lp_current l) (time_unix (lm_close_time meta)) (lp_pipe l) of
           (x, Delivered) \<Rightarrow> (l\<lparr>lp_pipe := x\<rparr>, Inr ())
         | (x, Refused e) \<Rightarrow> (l\<lparr>lp_pipe := x\<rparr>, Inl (if tu_hold_cancelled tu then ReturnsNil else ReturnsErr e))
         | (x, r) \<Rightarrow> (l\<lparr>lp_pipe := x\<rparr>, Inl (exit_of r)))
      else (l, Inr ()))"

text \<open>The body of the loop once the ledger is there, and the whole body.\<close>

definition ledger_turn :: "'w plant \<Rightarrow> ingest_config \<Rightarrow> turn \<Rightarrow> ledger_meta \<Rightarrow> 'w ingest \<Rightarrow> ('w, unit) section_result" where
  "ledger_turn pl cfg tu meta l =
     then_do (continuity_section meta l) (\<lambda>_ l.
     then_do (process_section pl tu meta l) (\<lambda>(facts, active) l.
     then_do (publish_section pl (fact_envelopes cfg tu facts) l) (\<lambda>_ l.
     then_do (state_section pl cfg tu meta active l) (\<lambda>states l.
     then_do (sweep_section pl cfg tu meta l) (\<lambda>swept l.
     then_do (checkpoint_section pl cfg tu meta l) (\<lambda>_ l.
     then_do (command_section pl cfg tu meta (report_section tu meta (length facts) (states + swept) l)) (\<lambda>_ l.
     then_do (hold_section pl cfg tu meta l) (\<lambda>_ l.
       (l\<lparr>lp_current := lp_current l + 1\<rparr>, Inr ())))))))))"

definition fetch_section :: "ingest_config \<Rightarrow> turn \<Rightarrow> 'w ingest \<Rightarrow> err + ledger_meta" where
  "fetch_section cfg tu l =
     fst (snd (fetch_ledger_with_retry (tu_get tu) (tu_fetch_top tu) (tu_fetch_wait tu) (lp_current l) (stall_budget cfg)))"

definition turn_step :: "'w plant \<Rightarrow> ingest_config \<Rightarrow> turn \<Rightarrow> 'w ingest \<Rightarrow> ('w, unit) section_result" where
  "turn_step pl cfg tu l =
     (if tu_cancelled tu then (l, Inl ReturnsNil)
      else case fetch_section cfg tu l of
        Err e \<Rightarrow> if tu_cancelled_after tu then (l, Inl ReturnsNil) else rotate_section pl cfg tu l
      | Ok meta \<Rightarrow> ledger_turn pl cfg tu meta l)"

text \<open>
  The loop over the turns that it gets to make: how \<open>Ingest\<close> returns, if it does within these turns. The
  journal is a history: for each ledger whose processing gave facts, the world at that moment, its
  sequence, and the ids of the messages that the facts become.
\<close>

definition journal_entry :: "'w plant \<Rightarrow> ingest_config \<Rightarrow> turn \<Rightarrow> 'w ingest \<Rightarrow> ('w \<times> u32 \<times> string list) list" where
  "journal_entry pl cfg tu l =
     (if tu_cancelled tu then []
      else case fetch_section cfg tu l of Err e \<Rightarrow> []
      | Ok meta \<Rightarrow>
          (case then_do (continuity_section meta l) (\<lambda>_. process_section pl tu meta) of
             (l', Inl x) \<Rightarrow> []
           | (l', Inr (facts, active)) \<Rightarrow> [(world l, lp_current l, map en_message_id (fact_envelopes cfg tu facts))]))"

fun ingest_loop :: "'w plant \<Rightarrow> ingest_config \<Rightarrow> turn list \<Rightarrow> 'w ingest \<Rightarrow> ('w \<times> u32 \<times> string list) list
    \<Rightarrow> 'w ingest \<times> exit option \<times> ('w \<times> u32 \<times> string list) list" where
  "ingest_loop pl cfg tus l log =
     (if cg_end cfg \<noteq> 0 \<and> lp_current l > cg_end cfg then (l, Some ReturnsNil, log)
      else case tus of [] \<Rightarrow> (l, None, log)
      | tu # rest \<Rightarrow>
          (case turn_step pl cfg tu l of
             (l', Inl x) \<Rightarrow> (l', Some x, log @ journal_entry pl cfg tu l)
           | (l', Inr _) \<Rightarrow> ingest_loop pl cfg rest l' (log @ journal_entry pl cfg tu l)))"

declare ingest_loop.simps [simp del]

section \<open>Boot\<close>

text \<open>What the store's answer means for the run: where to start and what to carry over.\<close>

record resumption =
  rs_start :: u32
  rs_escrows :: "string list"
  rs_removed :: "string list"
  rs_gaps :: "gap list"
  rs_last_seq :: u32
  rs_hash :: string
  rs_resumed :: bool
  rs_recovered :: bool

definition resume_decision :: "ingest_config \<Rightarrow> istate \<Rightarrow> err option \<Rightarrow> err + resumption" where
  "resume_decision cfg st lerr =
     (let fresh = \<lparr>rs_start = cg_start cfg, rs_escrows = [], rs_removed = [], rs_gaps = [], rs_last_seq = 0, rs_hash = [],
            rs_resumed = False, rs_recovered = False\<rparr>;
          foreign = (st_network st \<noteq> [] \<and> st_network st \<noteq> cg_passphrase cfg) in
      if lerr = Some ErrStateNotFound then
        (if length (st_escrows st) + length (st_removed st) + length (st_gaps st) > 0 then
           (if foreign then Err (ErrOther ''orphan watchlist network mismatch'')
            else Ok (fresh\<lparr>rs_escrows := st_escrows st, rs_removed := st_removed st, rs_gaps := st_gaps st, rs_recovered := True\<rparr>))
         else Ok fresh)
      else case lerr of
        Some e \<Rightarrow> Err e
      | None \<Rightarrow>
          if foreign then Err (ErrOther ''state network mismatch'')
          else Ok (fresh\<lparr>rs_start := st_last_seq st + 1, rs_escrows := st_escrows st, rs_removed := st_removed st, rs_gaps := st_gaps st,
              rs_last_seq := st_last_seq st, rs_hash := st_last_hash st, rs_resumed := True\<rparr>))"

text \<open>
  What boot meets: the seed file, the live watchlist of a replay, the sink's construction, the pool, and
  the answers of the endpoints.
\<close>

record boot_inputs =
  bi_seed :: "err + string list"
  bi_watchlist :: "(string list \<times> string list) \<times> err option"
  bi_sink :: "err option"
  bi_pool :: pool
  bi_net :: network
  bi_poll :: "nat \<Rightarrow> bool"
  bi_now :: time
  bi_version :: string

definition boot_registry :: "ingest_config \<Rightarrow> boot_inputs \<Rightarrow> resumption \<Rightarrow> err + registry" where
  "boot_registry cfg bi rs =
     (case new_registry (cg_hashes cfg) of
        Err e \<Rightarrow> Err e
      | Ok r0 \<Rightarrow>
        (case (if rs_resumed rs \<or> rs_recovered rs then Ok (seed (rs_escrows rs) (seed_removed (rs_removed rs) r0))
               else case bi_seed bi of Err e \<Rightarrow> Err e | Ok ids \<Rightarrow> Ok (if ids = [] then r0 else seed ids r0)) of
           Err e \<Rightarrow> Err e
         | Ok r1 \<Rightarrow>
             if cg_replay cfg then
               (case bi_watchlist bi of
                  (_, Some e) \<Rightarrow> Err e
                | ((ids, gone), None) \<Rightarrow> Ok (seed ids (seed_removed gone r1)))
             else Ok r1))"

definition boot_state :: "'w plant \<Rightarrow> ingest_config \<Rightarrow> boot_inputs \<Rightarrow> resumption \<Rightarrow> registry \<Rightarrow> pool \<Rightarrow> gap list \<Rightarrow> u32 \<Rightarrow> 'w \<Rightarrow> 'w ingest" where
  "boot_state pl cfg bi rs reg p gaps start w =
     (let tracker = set_rpc_endpoint (current_host (pl_parse_url pl) p) (set_version (bi_version bi) (new_tracker (cg_network cfg) (bi_now bi)));
          expected = (if rs_resumed rs \<and> rs_hash rs \<noteq> [] \<and> start = rs_last_seq rs + 1 then rs_hash rs else [])
      in \<lparr>lp_pipe = \<lparr>pp_reg = reg, pp_det = new_detector, pp_sweeper = new_sweeper, pp_tracker = tracker, pp_paused_until = 0, pp_sink = w\<rparr>,
          lp_pool = p, lp_gaps = gaps, lp_current = start, lp_expected = expected, lp_last_hash = expected, lp_pending = {},
          lp_checkpoint = start - 1, lp_heartbeat = new_heartbeat (if cg_replay cfg then [] else cg_heartbeat cfg)\<rparr>)"

definition boot :: "'w plant \<Rightarrow> ingest_config \<Rightarrow> boot_inputs \<Rightarrow> 'w \<Rightarrow> 'w \<times> (exit + 'w ingest)" where
  "boot pl cfg bi w =
     (case pl_load pl w of (w1, st, lerr) \<Rightarrow>
      case resume_decision cfg st lerr of Err e \<Rightarrow> (w1, Inl (ReturnsErr e))
      | Ok rs \<Rightarrow>
        case boot_registry cfg bi rs of Err e \<Rightarrow> (w1, Inl (ReturnsErr e))
        | Ok reg \<Rightarrow>
          case bi_sink bi of Some e \<Rightarrow> (w1, Inl (ReturnsErr e))
          | None \<Rightarrow>
            case connect (on_gap_hook pl cfg reg) (bi_net bi) (bi_poll bi) (bi_now bi) (rs_start rs) (cg_end cfg) (bi_pool bi) (rs_gaps rs, w1) of
              (p, (gaps, w2), Err e) \<Rightarrow> (w2, Inl (ReturnsErr e))
            | (p, (gaps, w2), Ok start) \<Rightarrow>
              case publish_gaps (pl_publish pl) (bi_now bi) (cg_network cfg) gaps w2 of
                (w3, Delivered) \<Rightarrow> (w3, Inr (boot_state pl cfg bi rs reg p gaps start w3))
              | (w3, r) \<Rightarrow> (w3, Inl (exit_of r)))"

text \<open>\<open>Ingest\<close>: boot, then the loop, with the journal of the ledgers processed.\<close>

definition ingest_process :: "'w plant \<Rightarrow> ingest_config \<Rightarrow> boot_inputs \<Rightarrow> turn list \<Rightarrow> 'w
    \<Rightarrow> 'w \<times> exit option \<times> ('w \<times> u32 \<times> string list) list" where
  "ingest_process pl cfg bi tus w =
     (case boot pl cfg bi w of
        (w', Inl x) \<Rightarrow> (w', Some x, [])
      | (w', Inr l) \<Rightarrow> (case ingest_loop pl cfg tus l [] of (l', x, log) \<Rightarrow> (world l', x, log)))"

end
