(* ===== verification/Loop.thy ===== *)
theory Loop
  imports Ingest
begin

text \<open>
  What the ingest loop makes durable, and when. The outside world is abstract here: a locale says how
  publishing and saving extend the common history of the broker and the disk, and the loop's order of
  effects is proved from that.
\<close>

section \<open>The history of the outside world\<close>

text \<open>
  What may have become durable: a message the broker has taken, a record handed to the store (a save that
  fails may have reached the disk all the same).
\<close>

datatype happening = Accepted string | Saved istate

text \<open>
  A passage of the world that saves only records with \<open>P\<close>, and keeps what the world keeps of itself.
\<close>

definition emits :: "('w \<Rightarrow> happening list) \<Rightarrow> ('w \<Rightarrow> bool) \<Rightarrow> (istate \<Rightarrow> bool) \<Rightarrow> 'w \<Rightarrow> 'w \<Rightarrow> bool" where
  "emits hist good P w w' \<longleftrightarrow> (good w \<longrightarrow> good w') \<and> (\<exists>evs. hist w' = hist w @ evs \<and> (\<forall>st. Saved st \<in> set evs \<longrightarrow> P st))"

lemma emits_refl [simp]: "emits hist good P w w"
  by (simp add: emits_def)

lemma emits_trans:
  assumes "emits hist good P a b" and "emits hist good P b c"
  shows "emits hist good P a c"
proof -
  from assms obtain e1 e2 where "hist b = hist a @ e1" "\<forall>st. Saved st \<in> set e1 \<longrightarrow> P st"
    "hist c = hist b @ e2" "\<forall>st. Saved st \<in> set e2 \<longrightarrow> P st" by (auto simp: emits_def)
  then have "hist c = hist a @ (e1 @ e2)" "\<forall>st. Saved st \<in> set (e1 @ e2) \<longrightarrow> P st" by auto
  with assms show ?thesis unfolding emits_def by blast
qed

lemma emits_mono: "emits hist good P a b \<Longrightarrow> (\<And>st. P st \<Longrightarrow> Q st) \<Longrightarrow> emits hist good Q a b"
  unfolding emits_def by meson

lemma emits_good: "emits hist good P a b \<Longrightarrow> good a \<Longrightarrow> good b"
  by (simp add: emits_def)

lemma emits_prefix: "emits hist good P a b \<Longrightarrow> prefix (hist a) (hist b)"
  by (auto simp: emits_def)

lemma emits_nth:
  assumes "emits hist good P a b" and "length (hist a) \<le> m" and "m < length (hist b)" and "hist b ! m = Saved st"
  shows "P st"
proof -
  obtain evs where e: "hist b = hist a @ evs" "\<forall>st. Saved st \<in> set evs \<longrightarrow> P st" using assms(1) by (auto simp: emits_def)
  then have "m - length (hist a) < length evs" "evs ! (m - length (hist a)) = Saved st"
    using assms(2-4) by (auto simp: nth_append)
  then have "Saved st \<in> set evs" by (metis nth_mem)
  with e(2) show ?thesis by blast
qed

text \<open>The record that this loop state would save with cursor \<open>cur\<close>.\<close>

definition record_of :: "ingest_config \<Rightarrow> u32 \<Rightarrow> gap list \<Rightarrow> istate \<Rightarrow> bool" where
  "record_of cfg cur gaps st \<longleftrightarrow> st_last_seq st = cur \<and> st_gaps st = gaps \<and> st_network st = cg_passphrase cfg \<and>
     (\<exists>r. reg_inv r \<and> st_escrows st = snapshot r \<and> st_removed st = removed_snapshot r)"

lemma record_of_snapshot [simp]: "reg_inv r \<Longrightarrow> record_of cfg cur gaps (snapshot_state cfg r cur h gaps)"
  by (auto simp: record_of_def snapshot_state_def)

lemma then_doE:
  assumes "then_do r f = (l', x)"
  obtains e where "r = (l', Inl e)" "x = Inl e"
  | a l1 where "r = (l1, Inr a)" "f a l1 = (l', x)"
  using assms by (cases r; cases "snd r") (auto simp: then_do_def)

lemma world_set_world [simp]: "world (set_world w l) = w" "reg_of (set_world w l) = reg_of l"
  "lp_current (set_world w l) = lp_current l" "lp_gaps (set_world w l) = lp_gaps l"
  by (simp_all add: set_world_def)

section \<open>The contract of the outside world\<close>

locale outside =
  fixes pl :: "'w plant" and hist :: "'w \<Rightarrow> happening list" and good :: "'w \<Rightarrow> bool"
  assumes pub_delivered: "pl_publish pl e w = (w', Delivered) \<Longrightarrow> hist w' = hist w @ [Accepted (en_message_id e)]"
    and pub_any: "pl_publish pl e w = (w', r) \<Longrightarrow> emits hist good (\<lambda>_. False) w w'"
    and save_any: "pl_save pl st w = (w', er) \<Longrightarrow> emits hist good (\<lambda>st'. st' = st) w w'"
    and save_done: "pl_save pl st w = (w', None) \<Longrightarrow> hist w' = hist w @ [Saved st]"
    and load_any: "pl_load pl w = (w', st, er) \<Longrightarrow> hist w' = hist w \<and> (good w \<longrightarrow> good w')"
begin

lemma publish_all_any: "publish_all (pl_publish pl) es w = (w', r) \<Longrightarrow> emits hist good (\<lambda>_. False) w w'"
proof (induction es arbitrary: w)
  case (Cons e es)
  obtain w1 r1 where p: "pl_publish pl e w = (w1, r1)" by (cases "pl_publish pl e w")
  show ?case
  proof (cases "r1 = Delivered")
    case True
    with Cons.prems p have "publish_all (pl_publish pl) es w1 = (w', r)" by simp
    from emits_trans [OF pub_any [OF p] Cons.IH [OF this]] show ?thesis .
  next
    case False
    with Cons.prems p have "w1 = w'" by (cases r1) simp_all
    with pub_any [OF p] show ?thesis by simp
  qed
qed simp

lemma publish_all_done:
  "publish_all (pl_publish pl) es w = (w', Delivered) \<Longrightarrow> hist w' = hist w @ map (\<lambda>e. Accepted (en_message_id e)) es"
proof (induction es arbitrary: w)
  case (Cons e es)
  then obtain w1 where p: "pl_publish pl e w = (w1, Delivered)" and q: "publish_all (pl_publish pl) es w1 = (w', Delivered)"
    by (auto split: prod.splits publish_result.splits)
  from Cons.IH [OF q] pub_delivered [OF p] show ?case by simp
qed simp

lemma fetch_and_publish_emits:
  assumes "fetch_and_publish sv now ids seq closed x = (x', r)" and "sv_publish sv = pl_publish pl"
  shows "emits hist good (\<lambda>_. False) (pp_sink x) (pp_sink x')"
  using assms by (auto simp: fetch_and_publish_def split: if_splits prod.splits sum.splits dest: publish_all_any)

lemma execute_emits:
  assumes "execute sv now c seq closed x = (x', m, r)" and "sv_publish sv = pl_publish pl"
  shows "emits hist good (\<lambda>_. False) (pp_sink x) (pp_sink x')"
  using assms
  by (auto simp: execute_def Let_def set_pause_def split: kind.splits prod.splits if_splits
      dest!: fetch_and_publish_emits)

lemma drain_emits:
  assumes "drain_commands sv cs seq closed x mutated = (x', m, r)" and "sv_publish sv = pl_publish pl"
  shows "emits hist good (\<lambda>_. False) (pp_sink x) (pp_sink x')"
  using assms(1)
proof (induction cs arbitrary: x mutated)
  case (Cons tc cs)
  obtain now c where tc: "tc = (now, c)" by (cases tc)
  obtain x1 m1 r1 where e: "execute sv now c seq closed x = (x1, m1, r1)" by (metis prod_cases3)
  note E = execute_emits [OF e assms(2)]
  show ?case
  proof (cases "r1 = Delivered")
    case True
    with Cons.prems tc e have "drain_commands sv cs seq closed x1 (mutated \<or> m1) = (x', m, r)" by simp
    from emits_trans [OF E Cons.IH [OF this]] show ?thesis .
  next
    case False
    with Cons.prems tc e have "x' = x1" by (cases r1) auto
    with E show ?thesis by simp
  qed
qed simp

lemma hold_emits:
  assumes "hold_loop sv on_mut evs seq closed x = (x', r)" and "sv_publish sv = pl_publish pl" and "reg_inv (pp_reg x)"
    and hook: "\<And>y s er. on_mut y = (s, er) \<Longrightarrow> reg_inv (pp_reg y) \<Longrightarrow> emits hist good P (pp_sink y) s"
  shows "reg_inv (pp_reg x') \<and> emits hist good P (pp_sink x) (pp_sink x')"
  using assms(1,3)
proof (induction evs arbitrary: x)
  case (Cons te evs)
  obtain now ev where te: "te = (now, ev)" by (cases te)
  show ?case
  proof (cases "is_paused now x")
    case False
    with Cons.prems te show ?thesis by (auto simp: set_pause_def)
  next
    case True
    show ?thesis
    proof (cases ev)
      case HoldCancelled
      with Cons.prems te True show ?thesis by simp
    next
      case HoldSecond
      with Cons.prems(1) te True have "hold_loop sv on_mut evs seq closed x = (x', r)" by simp
      from Cons.IH [OF this Cons.prems(2)] show ?thesis .
    next
      case (HoldCommand t c)
      obtain x1 m1 r1 where e: "execute sv t c seq closed x = (x1, m1, r1)" by (metis prod_cases3)
      have i: "reg_inv (pp_reg x1)" using e Cons.prems(2) by (rule execute_inv)
      have E: "emits hist good P (pp_sink x) (pp_sink x1)" by (rule emits_mono [OF execute_emits [OF e assms(2)]]) simp
      show ?thesis
      proof (cases "r1 = Delivered")
        case False
        then have "x' = x1" using Cons.prems(1) te True HoldCommand e by (cases r1) auto
        with i E show ?thesis by simp
      next
        case d: True
        show ?thesis
        proof (cases m1)
          case False
          with Cons.prems(1) te True HoldCommand e d have "hold_loop sv on_mut evs seq closed x1 = (x', r)" by simp
          from Cons.IH [OF this i] emits_trans [OF E] show ?thesis by blast
        next
          case m: True
          obtain s er where o: "on_mut x1 = (s, er)" by (cases "on_mut x1")
          have H: "emits hist good P (pp_sink x) s" using E hook [OF o i] by (rule emits_trans)
          show ?thesis
          proof (cases er)
            case None
            with Cons.prems(1) te True HoldCommand e d m o
            have "hold_loop sv on_mut evs seq closed (x1\<lparr>pp_sink := s\<rparr>) = (x', r)" by simp
            from Cons.IH [OF this] i emits_trans [OF H] show ?thesis by simp
          next
            case (Some er')
            with Cons.prems(1) te True HoldCommand e d m o have "x' = x1\<lparr>pp_sink := s\<rparr>" by auto
            with i H show ?thesis by simp
          qed
        qed
      qed
    qed
  qed
qed simp

end

section \<open>The sections of a turn\<close>

text \<open>
  A section of the loop body that keeps the ledger and the gaps, and the registry consistent, and saves
  only records that satisfy \<open>P\<close>.
\<close>

definition stays :: "('w \<Rightarrow> happening list) \<Rightarrow> ('w \<Rightarrow> bool) \<Rightarrow> (istate \<Rightarrow> bool) \<Rightarrow> 'w ingest \<Rightarrow> 'w ingest \<Rightarrow> bool" where
  "stays hist good P l l' \<longleftrightarrow> lp_current l' = lp_current l \<and> lp_gaps l' = lp_gaps l \<and> reg_inv (reg_of l') \<and>
     emits hist good P (world l) (world l')"

lemma stays_trans: "stays hist good P a b \<Longrightarrow> stays hist good P b c \<Longrightarrow> stays hist good P a c"
  unfolding stays_def using emits_trans by fastforce

lemma stays_mono: "stays hist good P a b \<Longrightarrow> (\<And>st. P st \<Longrightarrow> Q st) \<Longrightarrow> stays hist good Q a b"
  unfolding stays_def by (meson emits_mono)

lemma stays_silent: "stays hist good (\<lambda>_. False) a b \<Longrightarrow> stays hist good P a b"
  by (erule stays_mono) simp

lemma stays_inv: "stays hist good P a b \<Longrightarrow> reg_inv (reg_of b)"
  by (simp add: stays_def)

lemma process_ledger_inv [inv_intros]:
  assumes "process_ledger k poll meta r = (r', res)" and "reg_inv r"
  shows "reg_inv r'"
proof (cases "read_ledger_transactions meta")
  case (Ret txs)
  obtain r2 c where p: "process_transactions k poll txs r = (r2, c)" by fastforce
  then have "reg_inv r2" using process_transactions_inv [OF assms(2), of k poll txs] by simp
  with assms(1) Ret p show ?thesis by (cases c) (auto simp: process_ledger_def)
qed (use assms in \<open>auto simp: process_ledger_def\<close>)

lemma continuity_stays: "continuity_section meta l = (l', x) \<Longrightarrow> reg_inv (reg_of l) \<Longrightarrow> stays hist good P l l' \<and> reg_of l' = reg_of l \<and> world l' = world l"
  by (auto simp: continuity_section_def stays_def split: if_splits option.splits)

lemma process_stays: "process_section pl tu meta l = (l', x) \<Longrightarrow> reg_inv (reg_of l) \<Longrightarrow> stays hist good P l l' \<and> world l' = world l"
  by (auto simp: process_section_def stays_def dest: process_ledger_inv split: prod.splits sum.splits)

lemma report_stays: "reg_inv (reg_of l) \<Longrightarrow> stays hist good P l (report_section tu meta a b l)"
  by (simp add: report_section_def Let_def stays_def)

context outside begin

lemma publish_section_stays:
  assumes "publish_section pl es l = (l', x)" and "reg_inv (reg_of l)"
  shows "stays hist good (\<lambda>_. False) l l'"
    and "x = Inr () \<Longrightarrow> hist (world l') = hist (world l) @ map (\<lambda>e. Accepted (en_message_id e)) es"
proof -
  obtain w r where p: "publish_all (pl_publish pl) es (world l) = (w, r)" by (cases "publish_all (pl_publish pl) es (world l)")
  then have l': "l' = set_world w l" and x: "x = (if r = Delivered then Inr () else Inl (exit_of r))"
    using assms(1) by (cases r; auto simp: publish_section_def)+
  show "stays hist good (\<lambda>_. False) l l'" using publish_all_any [OF p] assms(2) by (simp add: l' stays_def)
  show "x = Inr () \<Longrightarrow> hist (world l') = hist (world l) @ map (\<lambda>e. Accepted (en_message_id e)) es"
    using publish_all_done p x by (auto simp: l' split: if_splits)
qed

lemma save_section_stays:
  assumes "save_section pl st l = (l', x)" and "reg_inv (reg_of l)" and "P st"
  shows "stays hist good P l l'"
proof -
  obtain w er where p: "pl_save pl st (world l) = (w, er)" by (cases "pl_save pl st (world l)")
  then have l': "l' = set_world w l" using assms(1) by (cases er) (auto simp: save_section_def)
  have "emits hist good P (world l) w" by (rule emits_mono [OF save_any [OF p]]) (simp add: assms(3))
  with assms(2) show ?thesis by (simp add: l' stays_def)
qed

lemma state_section_stays:
  assumes "state_section pl cfg tu meta active l = (l', x)" and "reg_inv (reg_of l)"
  shows "stays hist good (\<lambda>_. False) l l'"
proof (cases "catching_up tu meta")
  case True
  with assms show ?thesis by (auto simp: state_section_def stays_def)
next
  case False
  obtain pending ids where d: "(if lp_pending l \<noteq> {} then drain_pending (lp_pending l) active else (lp_pending l, active)) = (pending, ids)"
    by fastforce
  let ?l1 = "l\<lparr>lp_pending := pending\<rparr>" and ?sv = "services_at pl cfg (lp_pool l)"
  obtain dt res where f: "fetch_states_all (sv_sdk ?sv) (sv_rpc ?sv) (reg_of ?l1) ids (lp_current ?l1) (time_unix (lm_close_time meta)) (pp_det (lp_pipe ?l1)) = (dt, res)"
    by fastforce
  let ?l2 = "?l1\<lparr>lp_pipe := (lp_pipe ?l1)\<lparr>pp_det := dt\<rparr>\<rparr>"
  have s: "stays hist good (\<lambda>_. False) l ?l2" using assms(2) by (simp add: stays_def)
  have e: "state_section pl cfg tu meta active l = (case res of Err e \<Rightarrow> (?l2, Inl (ReturnsErr e))
      | Ok states \<Rightarrow> then_do (publish_section pl (map (from_state_change (tu_now tu) (cg_network cfg)) states) ?l2) (\<lambda>_ l2. (l2, Inr (length states))))"
    unfolding state_section_def if_not_P [OF False] d Let_def split prod.case using f by (cases res) simp_all
  show ?thesis
  proof (cases res)
    case (Inl a)
    with assms(1) e s show ?thesis by auto
  next
    case (Inr states)
    obtain l3 y where p: "publish_section pl (map (from_state_change (tu_now tu) (cg_network cfg)) states) ?l2 = (l3, y)" by fastforce
    have "l' = l3" using assms(1) e Inr p by (cases y) (auto simp: then_do_def)
    with stays_trans [OF s publish_section_stays(1) [OF p stays_inv [OF s]]] show ?thesis by simp
  qed
qed

lemma sweep_section_stays:
  assumes "sweep_section pl cfg tu meta l = (l', x)" and "reg_inv (reg_of l)"
  shows "stays hist good (\<lambda>_. False) l l'"
proof (cases "cg_sweep cfg \<and> time_sub (tu_sweep_now tu) (time_unix (lm_close_time meta)) \<le> sweep_max_ledger_age")
  case False
  with assms show ?thesis by (auto simp: sweep_section_def stays_def)
next
  case True
  obtain s batch fin where n: "next_batch (reg_of l) (lp_current l) (key_cost (pp_det (lp_pipe l))) max_ledger_entry_keys (pp_sweeper (lp_pipe l)) = (s, batch, fin)"
    by (metis prod_cases3)
  let ?l1 = "l\<lparr>lp_pipe := (lp_pipe l)\<lparr>pp_sweeper := s\<rparr>\<rparr>" and ?sv = "services_at pl cfg (lp_pool l)"
  obtain dt res where f: "fetch_states (sv_sdk ?sv) (sv_rpc ?sv) (reg_of ?l1) batch (lp_current ?l1) (time_unix (lm_close_time meta))
      (modified_since s) (pp_det (lp_pipe ?l1)) = (dt, res)" by fastforce
  let ?l2 = "?l1\<lparr>lp_pipe := (lp_pipe ?l1)\<lparr>pp_det := dt\<rparr>\<rparr>"
  have s: "stays hist good (\<lambda>_. False) l ?l2" and s1: "stays hist good (\<lambda>_. False) l ?l1" using assms(2) by (simp_all add: stays_def)
  have e: "sweep_section pl cfg tu meta l = (if batch = [] then (?l1, Inr 0) else case res of Err e \<Rightarrow> (?l2, Inr 0)
      | Ok states \<Rightarrow> then_do (publish_section pl (map (from_state_change (tu_now tu) (cg_network cfg)) states) ?l2) (\<lambda>_ l2. (l2, Inr (length states))))"
    unfolding sweep_section_def if_P [OF True] n Let_def prod.case using f by (cases res) simp_all
  show ?thesis
  proof (cases "batch = []")
    case True
    with assms(1) e s1 show ?thesis by auto
  next
    case ne: False
    show ?thesis
    proof (cases res)
      case (Inl a)
      with assms(1) e s ne show ?thesis by auto
    next
      case (Inr states)
      obtain l3 y where p: "publish_section pl (map (from_state_change (tu_now tu) (cg_network cfg)) states) ?l2 = (l3, y)" by fastforce
      have "l' = l3" using assms(1) e Inr p ne by (cases y) (auto simp: then_do_def)
      with stays_trans [OF s publish_section_stays(1) [OF p stays_inv [OF s]]] show ?thesis by simp
    qed
  qed
qed

lemma checkpoint_section_stays:
  assumes "checkpoint_section pl cfg tu meta l = (l', x)" and "reg_inv (reg_of l)"
  shows "stays hist good (record_of cfg (lp_current l) (lp_gaps l)) l l'"
proof -
  let ?st = "snapshot_state cfg (reg_of l) (lp_current l) (hex_encode (lm_hash meta)) (lp_gaps l)"
  obtain l1 y where p: "save_section pl ?st l = (l1, y)" by fastforce
  have s: "stays hist good (record_of cfg (lp_current l) (lp_gaps l)) l l1"
    by (rule save_section_stays [OF p assms(2)]) (simp add: assms(2))
  show ?thesis using assms p s by (cases y) (auto simp: checkpoint_section_def then_do_def stays_def split: if_splits)
qed

lemma command_section_stays:
  assumes "command_section pl cfg tu meta l = (l', x)" and "reg_inv (reg_of l)"
  shows "stays hist good (record_of cfg (lp_current l) (lp_gaps l)) l l'"
proof -
  let ?sv = "services_at pl cfg (lp_pool l)" and ?P = "record_of cfg (lp_current l) (lp_gaps l)"
  obtain y m r where d: "drain_commands ?sv (tu_commands tu) (lp_current l) (time_unix (lm_close_time meta)) (lp_pipe l) False = (y, m, r)"
    by (metis prod_cases3)
  let ?l1 = "l\<lparr>lp_pipe := y\<rparr>"
  have i: "reg_inv (pp_reg y)" using drain_inv [OF d assms(2)] by simp
  have "emits hist good (\<lambda>_. False) (pp_sink (lp_pipe l)) (pp_sink y)" by (rule drain_emits [OF d]) (simp add: services_at_def)
  then have s: "stays hist good ?P l ?l1" using i by (auto simp: stays_def elim: emits_mono)
  obtain l2 z where p: "save_section pl (command_state cfg ?l1 y) ?l1 = (l2, z)" by fastforce
  have "stays hist good ?P ?l1 l2" by (rule save_section_stays [OF p]) (simp_all add: i command_state_def)
  with s have s2: "stays hist good ?P l l2" by (rule stays_trans)
  have "l' = ?l1 \<or> l' = l2" using assms(1) d p by (cases r) (auto simp: command_section_def Let_def split: if_splits)
  with s s2 show ?thesis by auto
qed

lemma hold_section_stays:
  assumes "hold_section pl cfg tu meta l = (l', x)" and "reg_inv (reg_of l)"
  shows "stays hist good (record_of cfg (lp_current l) (lp_gaps l)) l l'"
proof -
  let ?sv = "services_at pl cfg (lp_pool l)" and ?P = "record_of cfg (lp_current l) (lp_gaps l)"
  let ?hook = "\<lambda>x. pl_save pl (command_state cfg l x) (pp_sink x)"
  obtain y r where h: "hold_while_paused ?sv ?hook (tu_hold_now tu) (tu_hold tu) (lp_current l) (time_unix (lm_close_time meta)) (lp_pipe l) = (y, r)"
    by fastforce
  have hook: "emits hist good ?P (pp_sink y) s" if "?hook y = (s, er)" and "reg_inv (pp_reg y)" for y s er
    by (rule emits_mono [OF save_any [OF that(1)]]) (simp add: that(2) command_state_def)
  have "reg_inv (pp_reg y) \<and> emits hist good ?P (pp_sink (lp_pipe l)) (pp_sink y)"
  proof (cases "is_paused (tu_hold_now tu) (lp_pipe l)")
    case True
    with h have "hold_loop ?sv ?hook (tu_hold tu) (lp_current l) (time_unix (lm_close_time meta)) (lp_pipe l) = (y, r)"
      by (simp add: hold_while_paused_def)
    then show ?thesis by (rule hold_emits) (simp_all add: services_at_def assms(2) hook)
  next
    case False
    with h assms(2) show ?thesis by (simp add: hold_while_paused_def)
  qed
  moreover have "l' = l \<or> l' = l\<lparr>lp_pipe := y\<rparr>" using assms(1) h by (cases r) (auto simp: hold_section_def split: if_splits)
  ultimately show ?thesis using assms(2) by (auto simp: stays_def)
qed

end

section \<open>A turn that has its ledger\<close>

text \<open>The record with which this loop state's cursor may be saved, and a whole turn: on success the next ledger.\<close>

definition moves :: "('w \<Rightarrow> happening list) \<Rightarrow> ('w \<Rightarrow> bool) \<Rightarrow> ingest_config \<Rightarrow> 'w ingest \<Rightarrow> 'w ingest \<Rightarrow> exit + unit \<Rightarrow> bool" where
  "moves hist good cfg l l' x \<longleftrightarrow> lp_current l' = (case x of Inl _ \<Rightarrow> lp_current l | Inr _ \<Rightarrow> lp_current l + 1) \<and>
     lp_gaps l' = lp_gaps l \<and> reg_inv (reg_of l') \<and>
     emits hist good (record_of cfg (lp_current l) (lp_gaps l)) (world l) (world l')"

lemma stays_moves:
  "stays hist good (record_of cfg (lp_current l) (lp_gaps l)) l l1 \<Longrightarrow> moves hist good cfg l1 l' x \<Longrightarrow> moves hist good cfg l l' x"
  by (cases x) (auto simp: stays_def moves_def intro: emits_trans)

lemma stays_stops:
  "stays hist good (record_of cfg (lp_current l) (lp_gaps l)) l l' \<Longrightarrow> moves hist good cfg l l' (Inl e)"
  by (simp add: stays_def moves_def)

lemma then_do_moves:
  assumes "then_do (sec l) f = (l', x)" and "reg_inv (reg_of l)"
    and sec: "\<And>l1 y. sec l = (l1, y) \<Longrightarrow> stays hist good (record_of cfg (lp_current l) (lp_gaps l)) l l1"
    and rest: "\<And>a l1. f a l1 = (l', x) \<Longrightarrow> reg_inv (reg_of l1) \<Longrightarrow> moves hist good cfg l1 l' x"
  shows "moves hist good cfg l l' x"
  using assms(1)
proof (cases rule: then_doE)
  case (1 e)
  with stays_stops [OF sec] show ?thesis by simp
next
  case (2 a l1)
  note s = sec [OF 2(1)]
  show ?thesis by (rule stays_moves [OF s rest [OF 2(2) stays_inv [OF s]]])
qed

context outside begin

lemma after_publishing:
  assumes "then_do (state_section pl cfg tu meta active l) (\<lambda>states l.
     then_do (sweep_section pl cfg tu meta l) (\<lambda>swept l.
     then_do (checkpoint_section pl cfg tu meta l) (\<lambda>_ l.
     then_do (command_section pl cfg tu meta (report_section tu meta n (states + swept) l)) (\<lambda>_ l.
     then_do (hold_section pl cfg tu meta l) (\<lambda>_ l. (l\<lparr>lp_current := lp_current l + 1\<rparr>, Inr ())))))) = (l', x)"
    and "reg_inv (reg_of l)"
  shows "moves hist good cfg l l' x"
proof -
  have hold: "then_do (hold_section pl cfg tu meta l) (\<lambda>_ l. (l\<lparr>lp_current := lp_current l + 1\<rparr>, Inr ())) = (l', x) \<Longrightarrow>
      reg_inv (reg_of l) \<Longrightarrow> moves hist good cfg l l' x" for l
    by (rule then_do_moves) (auto dest: hold_section_stays simp: moves_def)
  have cmd: "then_do (command_section pl cfg tu meta l) (\<lambda>_ l.
      then_do (hold_section pl cfg tu meta l) (\<lambda>_ l. (l\<lparr>lp_current := lp_current l + 1\<rparr>, Inr ()))) = (l', x) \<Longrightarrow>
      reg_inv (reg_of l) \<Longrightarrow> moves hist good cfg l l' x" for l
    by (rule then_do_moves) (auto dest: command_section_stays hold)
  have report: "then_do (command_section pl cfg tu meta (report_section tu meta a b l)) (\<lambda>_ l.
      then_do (hold_section pl cfg tu meta l) (\<lambda>_ l. (l\<lparr>lp_current := lp_current l + 1\<rparr>, Inr ()))) = (l', x) \<Longrightarrow>
      reg_inv (reg_of l) \<Longrightarrow> moves hist good cfg l l' x" for l a b
    by (rule stays_moves [OF report_stays]) (auto intro: cmd stays_inv [OF report_stays])
  have check: "then_do (checkpoint_section pl cfg tu meta l) (\<lambda>_ l.
      then_do (command_section pl cfg tu meta (report_section tu meta a b l)) (\<lambda>_ l.
      then_do (hold_section pl cfg tu meta l) (\<lambda>_ l. (l\<lparr>lp_current := lp_current l + 1\<rparr>, Inr ())))) = (l', x) \<Longrightarrow>
      reg_inv (reg_of l) \<Longrightarrow> moves hist good cfg l l' x" for l a b
    by (rule then_do_moves) (auto dest: checkpoint_section_stays report)
  have sweep: "then_do (sweep_section pl cfg tu meta l) (\<lambda>swept l.
      then_do (checkpoint_section pl cfg tu meta l) (\<lambda>_ l.
      then_do (command_section pl cfg tu meta (report_section tu meta a (b + swept) l)) (\<lambda>_ l.
      then_do (hold_section pl cfg tu meta l) (\<lambda>_ l. (l\<lparr>lp_current := lp_current l + 1\<rparr>, Inr ()))))) = (l', x) \<Longrightarrow>
      reg_inv (reg_of l) \<Longrightarrow> moves hist good cfg l l' x" for l a b
    by (rule then_do_moves) (auto intro: stays_silent dest: sweep_section_stays check)
  show ?thesis using assms by (rule then_do_moves) (auto intro: stays_silent dest: state_section_stays [OF _ assms(2)] sweep)
qed

text \<open>
  The order of effects in a turn: nothing is saved before the facts of the ledger are with the broker.
\<close>

lemma ledger_turn_effect:
  assumes "ledger_turn pl cfg tu meta l = (l', x)" and "reg_inv (reg_of l)"
  shows "moves hist good cfg l l' x \<and>
    (emits hist good (\<lambda>_. False) (world l) (world l') \<and> x \<noteq> Inr () \<or>
     (\<exists>facts active l2 w. then_do (continuity_section meta l) (\<lambda>_. process_section pl tu meta) = (l2, Inr (facts, active)) \<and>
        hist w = hist (world l) @ map (\<lambda>e. Accepted (en_message_id e)) (fact_envelopes cfg tu facts) \<and>
        emits hist good (\<lambda>_. False) (world l) w \<and>
        emits hist good (record_of cfg (lp_current l) (lp_gaps l)) w (world l')))"
proof -
  let ?P = "record_of cfg (lp_current l) (lp_gaps l)"
  obtain l1 y where c: "continuity_section meta l = (l1, y)" by fastforce
  have s1: "stays hist good ?P l l1" "stays hist good (\<lambda>_. False) l l1" and w1: "world l1 = world l"
    using continuity_stays [OF c assms(2)] by auto
  show ?thesis
  proof (cases y)
    case (Inl e)
    then have "l' = l1" "x = Inl e" using assms(1) c by (auto simp: ledger_turn_def then_do_def)
    then show ?thesis using stays_stops [OF s1(1)] s1(2) by (simp add: stays_def)
  next
    case (Inr u)
    obtain l2 z where p: "process_section pl tu meta l1 = (l2, z)" by fastforce
    have s2: "stays hist good ?P l l2" "stays hist good (\<lambda>_. False) l l2" and w2: "world l2 = world l"
      using stays_trans [OF s1(1)] stays_trans [OF s1(2)] process_stays [OF p stays_inv [OF s1(1)]] w1 by auto
    show ?thesis
    proof (cases z)
      case (Inl e)
      then have "l' = l2" "x = Inl e" using assms(1) c p Inr by (auto simp: ledger_turn_def then_do_def)
      then show ?thesis using stays_stops [OF s2(1)] s2(2) by (simp add: stays_def)
    next
      case z: (Inr res)
      obtain facts active where res: "res = (facts, active)" by fastforce
      have d: "then_do (continuity_section meta l) (\<lambda>_. process_section pl tu meta) = (l2, Inr (facts, active))"
        using c p Inr z res by (simp add: then_do_def)
      obtain l3 v where b: "publish_section pl (fact_envelopes cfg tu facts) l2 = (l3, v)" by fastforce
      note B = publish_section_stays [OF b stays_inv [OF s2(1)]]
      have s3: "stays hist good ?P l l3" "stays hist good (\<lambda>_. False) l l3"
        using stays_trans [OF s2(2) B(1)] by (auto intro: stays_silent)
      show ?thesis
      proof (cases v)
        case (Inl e)
        then have "l' = l3" "x = Inl e" using assms(1) c p Inr z res b by (auto simp: ledger_turn_def then_do_def)
        then show ?thesis using stays_stops [OF s3(1)] s3(2) by (simp add: stays_def)
      next
        case v: (Inr u')
        have h3: "hist (world l3) = hist (world l) @ map (\<lambda>e. Accepted (en_message_id e)) (fact_envelopes cfg tu facts)"
          using B(2) v w2 by simp
        have "moves hist good cfg l3 l' x"
          by (rule after_publishing [OF _ stays_inv [OF s3(1)]])
            (use assms(1) c p Inr z res b v in \<open>simp add: ledger_turn_def then_do_def\<close>)
        moreover from this have "emits hist good ?P (world l3) (world l')" using s3(1) by (simp add: moves_def stays_def)
        moreover have "emits hist good (\<lambda>_. False) (world l) (world l3)" using s3(2) by (simp add: stays_def)
        ultimately show ?thesis using stays_moves [OF s3(1)] d h3 by blast
      qed
    qed
  qed
qed

end

section \<open>A rotation\<close>

text \<open>What one attempt and one cycle can do to the state of the gap hook, errors included.\<close>

definition one_gap :: "'g on_gap \<Rightarrow> u32 \<Rightarrow> 'g \<Rightarrow> 'g \<Rightarrow> err + u32 \<Rightarrow> bool" where
  "one_gap on_gap from g g' res \<longleftrightarrow>
     g' = g \<and> (\<forall>s. res = Ok s \<longrightarrow> from \<noteq> 0 \<longrightarrow> s = from) \<or>
     (\<exists>gp start er. on_gap gp start g = (g', er) \<and> (from \<noteq> 0 \<longrightarrow> gap_from gp = from) \<and> gap_from gp < start \<and>
        unat (gap_to gp) + 1 = unat start \<and> (\<forall>s. res = Ok s \<longrightarrow> s = start \<and> er = None))"

lemma connect_endpoint_gap:
  assumes "connect_endpoint on_gap net now i from end p g = (p', g', res)"
  shows "one_gap on_gap from g g' res \<and> (g' = g \<or> (\<exists>s. res = Ok s) \<or> (\<exists>e. res = Err (TerminalConnect e)))"
proof (cases "g' = g \<and> (\<forall>s. res \<noteq> Ok s)")
  case True
  then show ?thesis by (auto simp: one_gap_def)
next
  case False
  from False assms obtain f oldest latest s gap where
    r: "resolve_start (net (length (tried p)) i) from = Inr f" and
    c: "clamp_start_ledger f oldest latest now = Ok (s, gap)" and
    o: "(gap = None \<and> g' = g \<and> res = Ok s) \<or> (\<exists>gp er. gap = Some gp \<and> on_gap gp s g = (g', er) \<and>
        ((er = None \<and> res = Ok s) \<or> (\<exists>e. er = Some e \<and> res = Err (TerminalConnect e))))"
    by (auto simp: connect_endpoint_def Let_def split: sum.splits prod.splits if_splits option.splits)
  note C = clamp_cases [OF c]
  have f: "from \<noteq> 0 \<Longrightarrow> f = from" using r by (auto simp: resolve_start_def)
  from o show ?thesis
  proof (elim disjE exE conjE)
    assume "gap = None" "g' = g" "res = Ok s"
    then show ?thesis using C(3) f by (auto simp: one_gap_def)
  next
    fix gp er
    assume h: "gap = Some gp" "on_gap gp s g = (g', er)" and e: "er = None" "res = Ok s"
    from C(4) [OF h(1)] h e f show ?thesis unfolding one_gap_def by fastforce
  next
    fix gp er e
    assume h: "gap = Some gp" "on_gap gp s g = (g', er)" and e: "er = Some e" "res = Err (TerminalConnect e)"
    from C(4) [OF h(1)] h e f show ?thesis unfolding one_gap_def by fastforce
  qed
qed

lemma cycle_loop_gap:
  "cycle_loop on_gap net poll now first from end offs failures p g = (p', g', res) \<Longrightarrow> one_gap on_gap from g g' res"
proof (induction offs arbitrary: failures p)
  case Nil
  then show ?case by (auto simp: one_gap_def)
next
  case (Cons off offs)
  let ?i = "(first + off) mod length (urls p)"
  show ?case
  proof (cases "poll (length (tried p))")
    case True
    with Cons.prems show ?thesis by (auto simp: one_gap_def)
  next
    case np: False
    obtain p1 g1 r where c: "connect_endpoint on_gap net now ?i from end p g = (p1, g1, r)" by (metis prod_cases3)
    note E = connect_endpoint_gap [OF c]
    show ?thesis
    proof (cases r)
      case (Inr s)
      with Cons.prems c np E show ?thesis by auto
    next
      case (Inl e)
      show ?thesis
      proof (cases "\<exists>t. e = TerminalConnect t")
        case True
        with Cons.prems c np Inl obtain t where t: "g' = g1" "res = Err t" by auto
        from E Inl have "one_gap on_gap from g g1 (Err e)" by simp
        then show ?thesis unfolding one_gap_def t by simp
      next
        case False
        with E Inl have "g1 = g" by auto
        with Cons.prems c np Inl False
        have "cycle_loop on_gap net poll now first from end offs (failures @ [e]) p1 g = (p', g', res)" by (cases e) auto
        then show ?thesis by (rule Cons.IH)
      qed
    qed
  qed
qed

lemma rotate_gap: "rotate_pool on_gap net poll now from end p g = (p', g', res) \<Longrightarrow> one_gap on_gap from g g' res"
  unfolding rotate_pool_def cycle_def by (rule cycle_loop_gap)

lemma connect_gap: "connect on_gap net poll now from end p g = (p', g', res) \<Longrightarrow> one_gap on_gap from g g' res"
  unfolding connect_def cycle_def by (rule cycle_loop_gap)

text \<open>
  How the gaps grow when the start moves from \<open>a\<close> to \<open>b\<close>: not at all, or by the range that was skipped. The
  record that is saved then has its cursor right before the new start.
\<close>

definition skipped :: "u32 \<Rightarrow> u32 \<Rightarrow> gap list \<Rightarrow> gap list \<Rightarrow> bool" where
  "skipped a b gaps gaps' \<longleftrightarrow>
     (\<exists>gp. gaps' = gaps @ [gp] \<and> (a \<noteq> 0 \<longrightarrow> gap_from gp = a) \<and> gap_from gp < b \<and> unat (gap_to gp) + 1 = unat b)"

definition skip_record :: "ingest_config \<Rightarrow> u32 \<Rightarrow> gap list \<Rightarrow> istate \<Rightarrow> bool" where
  "skip_record cfg a gaps st \<longleftrightarrow> (\<exists>b gaps'. skipped a b gaps gaps' \<and> record_of cfg (b - 1) gaps' st)"

context outside begin

lemma hook_effect:
  assumes "one_gap (on_gap_hook pl cfg r) from (gaps, w) (gaps', w') res" and "reg_inv r"
  shows "emits hist good (\<lambda>st. skip_record cfg from gaps st \<and> st_gaps st = gaps') w w' \<and>
    (\<forall>s. res = Ok s \<longrightarrow> (gaps' = gaps \<and> (from \<noteq> 0 \<longrightarrow> s = from) \<or> skipped from s gaps gaps')) \<and> prefix gaps gaps'"
proof -
  from assms(1) consider (same) "gaps' = gaps" "w' = w" "\<forall>s. res = Ok s \<longrightarrow> from \<noteq> 0 \<longrightarrow> s = from"
    | (clamp) gp start er where "on_gap_hook pl cfg r gp start (gaps, w) = ((gaps', w'), er)"
        "from \<noteq> 0 \<longrightarrow> gap_from gp = from" "gap_from gp < start" "unat (gap_to gp) + 1 = unat start"
        "\<forall>s. res = Ok s \<longrightarrow> s = start \<and> er = None"
    unfolding one_gap_def by blast
  then show ?thesis
  proof cases
    case same
    then show ?thesis by auto
  next
    case clamp
    then have g: "gaps' = gaps @ [gp]" and s: "pl_save pl (snapshot_state cfg r (start - 1) [] (gaps @ [gp])) w = (w', er)"
      by (auto simp: on_gap_hook_def split: prod.splits)
    have k: "skipped from start gaps gaps'" unfolding skipped_def using clamp(2-4) g by blast
    have "emits hist good (\<lambda>st. skip_record cfg from gaps st \<and> st_gaps st = gaps') w w'"
    proof (rule emits_mono [OF save_any [OF s]])
      fix st
      assume "st = snapshot_state cfg r (start - 1) [] (gaps @ [gp])"
      with k g assms(2) show "skip_record cfg from gaps st \<and> st_gaps st = gaps'"
        unfolding skip_record_def by (auto simp: snapshot_state_def intro!: exI [of _ start] record_of_snapshot [unfolded snapshot_state_def])
    qed
    with k g clamp(5) show ?thesis by auto
  qed
qed

lemma rotate_effect:
  assumes "rotate_section pl cfg tu l = (l', x)" and "reg_inv (reg_of l)"
  shows "emits hist good (\<lambda>st. skip_record cfg (lp_current l) (lp_gaps l) st \<and> st_gaps st = lp_gaps l') (world l) (world l') \<and> reg_inv (reg_of l') \<and> prefix (lp_gaps l) (lp_gaps l') \<and>
    (x = Inr () \<longrightarrow> lp_gaps l' = lp_gaps l \<and> (lp_current l \<noteq> 0 \<longrightarrow> lp_current l' = lp_current l) \<or>
       skipped (lp_current l) (lp_current l') (lp_gaps l) (lp_gaps l'))"
proof -
  obtain p gaps w res where r: "rotate_pool (on_gap_hook pl cfg (reg_of l)) (tu_net tu) (tu_pool_poll tu) (tu_now tu) (lp_current l) (cg_end cfg)
      (lp_pool l) (lp_gaps l, world l) = (p, (gaps, w), res)" by (metis surj_pair)
  note H = hook_effect [OF rotate_gap [OF r] assms(2)]
  show ?thesis
  proof (cases res)
    case (Inl e)
    with assms r have "l' = set_world w (l\<lparr>lp_pool := p, lp_gaps := gaps\<rparr>)" "x = Inl (ReturnsErr e)" by (auto simp: rotate_section_def)
    with H assms(2) show ?thesis by simp
  next
    case (Inr s)
    let ?l1 = "set_world w (l\<lparr>lp_pool := p, lp_gaps := gaps\<rparr>)"
    let ?l2 = "?l1\<lparr>lp_pipe := (lp_pipe ?l1)\<lparr>pp_tracker := set_rpc_endpoint (current_host (pl_parse_url pl) p) (pp_tracker (lp_pipe ?l1))\<rparr>\<rparr>"
    let ?l3 = "if s = lp_current ?l2 then ?l2\<lparr>lp_expected := lp_last_hash ?l2\<rparr> else ?l2\<lparr>lp_current := s, lp_expected := []\<rparr>"
    have f: "world ?l3 = w" "reg_of ?l3 = reg_of l" "lp_gaps ?l3 = gaps" "lp_current ?l3 = s" by auto
    have b: "publish_section pl (map (gap_envelope (tu_now tu) (cg_network cfg)) (lp_gaps ?l3)) ?l3 = (l', x)"
      using assms(1) r Inr by (simp add: rotate_section_def Let_def)
    have "stays hist good (\<lambda>_. False) ?l3 l'" by (rule publish_section_stays(1) [OF b]) (simp only: f assms(2))
    then have s: "lp_current l' = s" "lp_gaps l' = gaps" "reg_inv (reg_of l')" "emits hist good (\<lambda>_. False) w (world l')"
      unfolding stays_def f by simp_all
    have "emits hist good (\<lambda>st. skip_record cfg (lp_current l) (lp_gaps l) st \<and> st_gaps st = gaps) (world l) (world l')"
      by (rule emits_trans [OF conjunct1 [OF H]]) (rule emits_mono [OF s(4)], simp)
    with H Inr s show ?thesis by auto
  qed
qed

end

section \<open>The loop\<close>

text \<open>
  Ledger \<open>q\<close> is accounted for in the history \<open>h\<close>: it was processed and all messages of its facts had been
  taken by the broker, or it lies in a recorded gap.
\<close>

type_synonym 'w journal = "('w \<times> u32 \<times> string list) list"

definition covered :: "('w \<Rightarrow> happening list) \<Rightarrow> happening list \<Rightarrow> 'w journal \<Rightarrow> gap list \<Rightarrow> nat \<Rightarrow> bool" where
  "covered hist h log gaps q \<longleftrightarrow>
     (\<exists>(w, seq, ids)\<in>set log. unat seq = q \<and> prefix (hist w) h \<and> Accepted ` set ids \<subseteq> set h) \<or>
     (\<exists>g\<in>set gaps. unat (gap_from g) \<le> q \<and> q \<le> unat (gap_to g))"

lemma covered_mono:
  assumes "covered hist h log gaps q" and "prefix h h'" and "set log \<subseteq> set log'" and "set gaps \<subseteq> set gaps'"
  shows "covered hist h' log' gaps' q"
proof (cases "\<exists>g\<in>set gaps. unat (gap_from g) \<le> q \<and> q \<le> unat (gap_to g)")
  case True
  with assms(4) show ?thesis unfolding covered_def by blast
next
  case False
  with assms(1) obtain w seq ids where e: "(w, seq, ids) \<in> set log" "unat seq = q" "prefix (hist w) h" "Accepted ` set ids \<subseteq> set h"
    unfolding covered_def by blast
  have "prefix (hist w) h'" using e(3) assms(2) by (rule prefix_order.trans)
  moreover have "Accepted ` set ids \<subseteq> set h'" using e(4) set_mono_prefix [OF assms(2)] by (rule subset_trans)
  ultimately show ?thesis unfolding covered_def using e(1,2) assms(3) by blast
qed

text \<open>
  What a saved record promises, at the moment of the save, to a process that later resumes from it: all
  ledgers from the first one up to its cursor are accounted for, no gap of before was dropped, the network
  is the configured one, and the two id lists are those of a consistent registry.
\<close>

definition sound_record :: "('w \<Rightarrow> happening list) \<Rightarrow> ingest_config \<Rightarrow> nat \<Rightarrow> gap list \<Rightarrow> happening list \<Rightarrow> 'w journal \<Rightarrow> istate \<Rightarrow> bool" where
  "sound_record hist cfg s0 gaps0 h log st \<longleftrightarrow>
     (\<forall>q. s0 \<le> q \<longrightarrow> q \<le> unat (st_last_seq st) \<longrightarrow> covered hist h log (st_gaps st) q) \<and>
     prefix gaps0 (st_gaps st) \<and> st_network st = cg_passphrase cfg \<and>
     (\<exists>r. reg_inv r \<and> st_escrows st = snapshot r \<and> st_removed st = removed_snapshot r)"

definition settled :: "('w \<Rightarrow> happening list) \<Rightarrow> ingest_config \<Rightarrow> nat \<Rightarrow> nat \<Rightarrow> gap list \<Rightarrow> gap list \<Rightarrow> 'w \<Rightarrow> 'w journal \<Rightarrow> bool" where
  "settled hist cfg n0 s0 gaps0 gaps w log \<longleftrightarrow> n0 \<le> length (hist w) \<and>
     (\<forall>m st. n0 \<le> m \<longrightarrow> m < length (hist w) \<longrightarrow> hist w ! m = Saved st \<longrightarrow>
        sound_record hist cfg s0 gaps0 (take m (hist w)) log st \<and> prefix (st_gaps st) gaps \<and>
        (\<forall>k st'. n0 \<le> k \<longrightarrow> k \<le> m \<longrightarrow> hist w ! k = Saved st' \<longrightarrow> prefix (st_gaps st') (st_gaps st)))"

lemma sound_record_mono: "sound_record hist cfg s0 gaps0 h log st \<Longrightarrow> set log \<subseteq> set log' \<Longrightarrow> sound_record hist cfg s0 gaps0 h log' st"
  unfolding sound_record_def using covered_mono by blast

lemma settled_extend:
  assumes S: "settled hist cfg n0 s0 gaps0 gaps w log" and E: "emits hist good P w w'" and sub: "set log \<subseteq> set log'" and G: "prefix gaps gaps'"
    and P: "\<And>h st. P st \<Longrightarrow> prefix (hist w) h \<Longrightarrow> sound_record hist cfg s0 gaps0 h log' st \<and> st_gaps st = gaps'"
  shows "settled hist cfg n0 s0 gaps0 gaps' w' log'"
  unfolding settled_def
proof (intro conjI allI impI)
  from E obtain evs where e: "hist w' = hist w @ evs" by (auto simp: emits_def)
  then show "n0 \<le> length (hist w')" using S by (simp add: settled_def)
  have old: "sound_record hist cfg s0 gaps0 (take m (hist w')) log' st \<and> prefix (st_gaps st) gaps'"
    if "n0 \<le> m" "m < length (hist w)" "hist w' ! m = Saved st" for m st
  proof -
    have "sound_record hist cfg s0 gaps0 (take m (hist w)) log st \<and> prefix (st_gaps st) gaps"
      using S that e by (auto simp: settled_def nth_append)
    then show ?thesis using that(2) e sound_record_mono [OF _ sub] prefix_order.trans [OF _ G] by auto
  qed
  have new: "sound_record hist cfg s0 gaps0 (take m (hist w')) log' st \<and> st_gaps st = gaps'"
    if "length (hist w) \<le> m" "m < length (hist w')" "hist w' ! m = Saved st" for m st
  proof (rule P)
    show "P st" by (rule emits_nth [OF E that])
    show "prefix (hist w) (take m (hist w'))" using that(1) e by simp
  qed
  fix m st
  assume m: "n0 \<le> m" "m < length (hist w')" "hist w' ! m = Saved st"
  show "sound_record hist cfg s0 gaps0 (take m (hist w')) log' st" and g: "prefix (st_gaps st) gaps'"
    using old [OF m(1) _ m(3)] new [OF _ m(2,3)] by (cases "m < length (hist w)"; auto)+
  fix k st'
  assume k: "n0 \<le> k" "k \<le> m" "hist w' ! k = Saved st'"
  show "prefix (st_gaps st') (st_gaps st)"
  proof (cases "m < length (hist w)")
    case True
    then have "hist w ! m = Saved st" "hist w ! k = Saved st'" using m k e by (simp_all add: nth_append)
    with S [unfolded settled_def, THEN conjunct2, rule_format, OF m(1) True] k(1,2) show ?thesis by blast
  next
    case False
    then have "st_gaps st = gaps'" using new [OF _ m(2,3)] by simp
    then show ?thesis using old [OF k(1) _ k(3)] new [of k st'] k m(2) by (cases "k < length (hist w)") auto
  qed
qed

text \<open>All ledgers from \<open>s0\<close> up to the current one are accounted for; after the last 32-bit number, all of them.\<close>

definition caught_up :: "('w \<Rightarrow> happening list) \<Rightarrow> nat \<Rightarrow> 'w ingest \<Rightarrow> 'w journal \<Rightarrow> bool" where
  "caught_up hist s0 l log \<longleftrightarrow>
     (\<exists>b. (b = unat (lp_current l) \<and> s0 \<le> b \<or> b = 2 ^ 32) \<and> (\<forall>q. s0 \<le> q \<longrightarrow> q < b \<longrightarrow> covered hist (hist (world l)) log (lp_gaps l) q))"

definition loop_inv :: "('w \<Rightarrow> happening list) \<Rightarrow> ingest_config \<Rightarrow> nat \<Rightarrow> nat \<Rightarrow> gap list \<Rightarrow> 'w ingest \<Rightarrow> 'w journal \<Rightarrow> bool" where
  "loop_inv hist cfg n0 s0 gaps0 l log \<longleftrightarrow> reg_inv (reg_of l) \<and> prefix gaps0 (lp_gaps l) \<and> caught_up hist s0 l log \<and>
     settled hist cfg n0 s0 gaps0 (lp_gaps l) (world l) log"

lemma u32_less: "unat (x :: u32) < 2 ^ 32"
  using unsigned_less [of x] by simp

lemma unat_pred: "unat (g :: u32) + 1 = unat b \<Longrightarrow> unat (b - 1) = unat g"
  by (subst unat_minus_one) auto

lemma covered_skip:
  assumes "skipped a b gaps gaps'" and "a \<noteq> 0" and "unat a \<le> q" and "q \<le> unat (b - 1)"
  shows "covered hist h log gaps' q"
proof -
  from assms(1,2) obtain gp where g: "gaps' = gaps @ [gp]" "gap_from gp = a" "unat (gap_to gp) + 1 = unat b"
    by (auto simp: skipped_def)
  have "q \<le> unat (gap_to gp)" using assms(4) unat_pred [OF g(3)] by simp
  with assms(3) g(1,2) show ?thesis unfolding covered_def by auto
qed

lemma caught_up_rotate:
  assumes "caught_up hist s0 l log" and "0 < s0" and "prefix (hist (world l)) (hist (world l'))"
    and "lp_gaps l' = lp_gaps l \<and> (lp_current l \<noteq> 0 \<longrightarrow> lp_current l' = lp_current l) \<or>
       skipped (lp_current l) (lp_current l') (lp_gaps l) (lp_gaps l')"
  shows "caught_up hist s0 l' log"
proof -
  from assms(1) obtain b where b: "b = unat (lp_current l) \<and> s0 \<le> b \<or> b = 2 ^ 32"
    and c: "\<And>q. s0 \<le> q \<Longrightarrow> q < b \<Longrightarrow> covered hist (hist (world l)) log (lp_gaps l) q" by (auto simp: caught_up_def)
  have sub: "set (lp_gaps l) \<subseteq> set (lp_gaps l')" using assms(4) by (auto simp: skipped_def)
  have c': "s0 \<le> q \<Longrightarrow> q < b \<Longrightarrow> covered hist (hist (world l')) log (lp_gaps l') q" for q
    by (rule covered_mono [OF c assms(3) subset_refl sub])
  show ?thesis
  proof (cases "b = 2 ^ 32")
    case True
    with c' show ?thesis unfolding caught_up_def by blast
  next
    case False
    with b have bu: "b = unat (lp_current l)" "s0 \<le> b" by auto
    then have nz: "lp_current l \<noteq> 0" using assms(2) by auto
    show ?thesis
    proof (cases "lp_current l' = lp_current l")
      case True
      with c' bu show ?thesis unfolding caught_up_def by auto
    next
      case False
      with assms(4) nz have k: "skipped (lp_current l) (lp_current l') (lp_gaps l) (lp_gaps l')" by auto
      then have lt: "lp_current l < lp_current l'" and nz': "lp_current l' \<noteq> 0" using nz by (auto simp: skipped_def)
      have "covered hist (hist (world l')) log (lp_gaps l') q" if "s0 \<le> q" "q < unat (lp_current l')" for q
      proof (cases "q < b")
        case True
        with that c' show ?thesis by simp
      next
        case False
        show ?thesis by (rule covered_skip [OF k nz]) (use False bu that nz' in \<open>auto simp: unat_minus_one\<close>)
      qed
      with lt bu show ?thesis unfolding caught_up_def by (intro exI [of _ "unat (lp_current l')"]) (auto simp: word_less_nat_alt)
    qed
  qed
qed

text \<open>Saving with the cursor on a ledger just published, or right before a new start after a gap, is sound.\<close>

lemma sound_skip:
  assumes "loop_inv hist cfg n0 s0 gaps0 l log" and "0 < s0" and "skip_record cfg (lp_current l) (lp_gaps l) st" and "prefix (hist (world l)) h"
  shows "sound_record hist cfg s0 gaps0 h log st"
proof -
  from assms(3) obtain b gaps' where k: "skipped (lp_current l) b (lp_gaps l) gaps'" and r: "record_of cfg (b - 1) gaps' st"
    by (auto simp: skip_record_def)
  let ?l = "l\<lparr>lp_current := b, lp_gaps := gaps'\<rparr>"
  have cu: "caught_up hist s0 ?l log"
    by (rule caught_up_rotate [OF _ assms(2)]) (use assms(1) k in \<open>auto simp: loop_inv_def\<close>)
  have nz: "b \<noteq> 0" using k by (auto simp: skipped_def)
  have "covered hist h log gaps' q" if q: "s0 \<le> q" "q \<le> unat (b - 1)" for q
  proof -
    have "0 < unat b" using nz by (simp add: unat_gt_0)
    then have "q < unat b" using q(2) nz by (simp add: unat_minus_one)
    moreover have "unat b < 2 ^ 32" by (rule u32_less)
    ultimately have "covered hist (hist (world l)) log gaps' q" using cu q(1) by (auto simp: caught_up_def)
    then show ?thesis by (rule covered_mono [OF _ assms(4)]) simp_all
  qed
  moreover have "prefix gaps0 gaps'" using assms(1) k by (auto simp: loop_inv_def skipped_def)
  ultimately show ?thesis using r by (simp add: sound_record_def record_of_def)
qed

lemma covered_now:
  assumes "caught_up hist s0 l log" and "prefix (hist (world l)) h" and "Accepted ` set ids \<subseteq> set h"
    and "s0 \<le> q" and "q \<le> unat (lp_current l)"
  shows "covered hist h (log @ [(world l, lp_current l, ids)]) (lp_gaps l) q"
proof -
  from assms(1) obtain b where b: "b = unat (lp_current l) \<and> s0 \<le> b \<or> b = 2 ^ 32"
    and c: "\<And>q. s0 \<le> q \<Longrightarrow> q < b \<Longrightarrow> covered hist (hist (world l)) log (lp_gaps l) q" by (auto simp: caught_up_def)
  show ?thesis
  proof (cases "q < b")
    case True
    show ?thesis by (rule covered_mono [OF c [OF assms(4) True] assms(2)]) auto
  next
    case False
    then have "q = unat (lp_current l)" using b assms(5) u32_less [of "lp_current l"] by auto
    with assms(2,3) show ?thesis unfolding covered_def by auto
  qed
qed

context outside begin

lemma ledger_turn_inv:
  assumes "ledger_turn pl cfg tu meta l = (l', x)" and I: "loop_inv hist cfg n0 s0 gaps0 l log"
    and j: "\<And>facts active l2. then_do (continuity_section meta l) (\<lambda>_. process_section pl tu meta) = (l2, Inr (facts, active)) \<Longrightarrow>
      log' = log @ [(world l, lp_current l, map en_message_id (fact_envelopes cfg tu facts))]"
    and sub: "set log \<subseteq> set log'"
  shows "settled hist cfg n0 s0 gaps0 (lp_gaps l') (world l') log' \<and> (x = Inr () \<longrightarrow> loop_inv hist cfg n0 s0 gaps0 l' log')"
proof -
  have ri: "reg_inv (reg_of l)" and st: "settled hist cfg n0 s0 gaps0 (lp_gaps l) (world l) log" and pg: "prefix gaps0 (lp_gaps l)"
    and cu: "caught_up hist s0 l log" using I by (auto simp: loop_inv_def)
  note T = ledger_turn_effect [OF assms(1) ri]
  then have mv: "moves hist good cfg l l' x" by blast
  from T show ?thesis
  proof (elim conjE disjE exE)
    assume "emits hist good (\<lambda>_. False) (world l) (world l')" "x \<noteq> Inr ()"
    then show ?thesis using settled_extend [OF st _ sub] mv by (auto simp: moves_def)
  next
    fix facts active l2 w
    let ?ids = "map en_message_id (fact_envelopes cfg tu facts)"
    assume d: "then_do (continuity_section meta l) (\<lambda>_. process_section pl tu meta) = (l2, Inr (facts, active))"
      and h: "hist w = hist (world l) @ map (\<lambda>e. Accepted (en_message_id e)) (fact_envelopes cfg tu facts)"
      and ew: "emits hist good (\<lambda>_. False) (world l) w"
      and e: "emits hist good (record_of cfg (lp_current l) (lp_gaps l)) w (world l')"
    have log': "log' = log @ [(world l, lp_current l, ?ids)]" by (rule j [OF d])
    have acc: "Accepted ` set ?ids \<subseteq> set (hist w)" by (auto simp: h)
    have sw: "settled hist cfg n0 s0 gaps0 (lp_gaps l) w log'" by (rule settled_extend [OF st ew sub]) simp_all
    have now: "covered hist h log' (lp_gaps l) q" if "prefix (hist w) h" "s0 \<le> q" "q \<le> unat (lp_current l)" for h q
      unfolding log'
    proof (rule covered_now [OF cu _ _ that(2,3)])
      show "prefix (hist (world l)) h" using prefix_order.trans [OF emits_prefix [OF ew] that(1)] .
      show "Accepted ` set ?ids \<subseteq> set h" using acc set_mono_prefix [OF that(1)] by (rule subset_trans)
    qed
    have "settled hist cfg n0 s0 gaps0 (lp_gaps l') (world l') log'"
    proof (rule settled_extend [OF sw e subset_refl])
      show "prefix (lp_gaps l) (lp_gaps l')" using mv by (simp add: moves_def)
      fix h st
      assume "record_of cfg (lp_current l) (lp_gaps l) st" "prefix (hist w) h"
      with now pg mv show "sound_record hist cfg s0 gaps0 h log' st \<and> st_gaps st = lp_gaps l'"
        by (simp add: record_of_def sound_record_def moves_def)
    qed
    moreover have "loop_inv hist cfg n0 s0 gaps0 l' log'" if x: "x = Inr ()"
    proof -
      from mv x have c: "lp_current l' = lp_current l + 1" "lp_gaps l' = lp_gaps l" "reg_inv (reg_of l')" by (auto simp: moves_def)
      have up: "covered hist (hist (world l')) log' (lp_gaps l') q" if "s0 \<le> q" "q \<le> unat (lp_current l)" for q
        unfolding c(2) by (rule now [OF emits_prefix [OF e] that])
      from cu obtain b where b: "b = unat (lp_current l) \<and> s0 \<le> b \<or> b = 2 ^ 32"
        and cb: "\<And>q. s0 \<le> q \<Longrightarrow> q < b \<Longrightarrow> covered hist (hist (world l)) log (lp_gaps l) q" by (auto simp: caught_up_def)
      have up': "covered hist (hist (world l')) log' (lp_gaps l') q" if "s0 \<le> q" "q < b" for q
        unfolding c(2) by (rule covered_mono [OF cb [OF that] _ sub subset_refl])
          (rule prefix_order.trans [OF emits_prefix [OF ew] emits_prefix [OF e]])
      have "caught_up hist s0 l' log'"
      proof (cases "b = 2 ^ 32 \<or> lp_current l + 1 = 0")
        case True
        have "unat (lp_current l) = 2 ^ 32 - 1" if "lp_current l + 1 = 0"
        proof -
          have "lp_current l = - 1" using that by (simp add: eq_neg_iff_add_eq_0)
          then show ?thesis by (simp add: unsigned_minus_1_eq_mask mask_eq_exp_minus_1)
        qed
        with True up up' show ?thesis unfolding caught_up_def by (intro exI [of _ "2 ^ 32"]) auto
      next
        case False
        then have "unat (lp_current l') = unat (lp_current l) + 1" using unatSuc [of "lp_current l"] by (simp add: c(1) add.commute)
        with False b up show ?thesis unfolding caught_up_def by (intro exI [of _ "unat (lp_current l')"]) auto
      qed
      with c pg \<open>settled hist cfg n0 s0 gaps0 (lp_gaps l') (world l') log'\<close> show ?thesis by (simp add: loop_inv_def)
    qed
    ultimately show ?thesis by blast
  qed
qed

lemma turn_step_inv:
  assumes "turn_step pl cfg tu l = (l', x)" and I: "loop_inv hist cfg n0 s0 gaps0 l log" and "0 < s0"
  shows "settled hist cfg n0 s0 gaps0 (lp_gaps l') (world l') (log @ journal_entry pl cfg tu l) \<and>
    (x = Inr () \<longrightarrow> loop_inv hist cfg n0 s0 gaps0 l' (log @ journal_entry pl cfg tu l))"
proof (cases "tu_cancelled tu")
  case True
  with assms show ?thesis by (auto simp: turn_step_def journal_entry_def loop_inv_def)
next
  case nc: False
  show ?thesis
  proof (cases "fetch_section cfg tu l")
    case (Inr meta)
    with assms(1) nc have t: "ledger_turn pl cfg tu meta l = (l', x)" by (simp add: turn_step_def)
    show ?thesis
      by (rule ledger_turn_inv [OF t I]) (simp_all add: journal_entry_def nc Inr)
  next
    case (Inl e)
    have log: "log @ journal_entry pl cfg tu l = log" by (simp add: journal_entry_def nc Inl)
    show ?thesis
    proof (cases "tu_cancelled_after tu")
      case True
      with assms nc Inl log show ?thesis by (auto simp: turn_step_def loop_inv_def)
    next
      case False
      with assms(1) nc Inl have r: "rotate_section pl cfg tu l = (l', x)" by (simp add: turn_step_def)
      have ri: "reg_inv (reg_of l)" and st: "settled hist cfg n0 s0 gaps0 (lp_gaps l) (world l) log" and pg: "prefix gaps0 (lp_gaps l)"
        and cu: "caught_up hist s0 l log" using I by (auto simp: loop_inv_def)
      note R = rotate_effect [OF r ri]
      have s': "settled hist cfg n0 s0 gaps0 (lp_gaps l') (world l') log"
        by (rule settled_extend [OF st conjunct1 [OF R] subset_refl]) (use R sound_skip [OF I assms(3)] in auto)
      have "loop_inv hist cfg n0 s0 gaps0 l' log" if "x = Inr ()"
        using R s' that caught_up_rotate [OF cu assms(3) emits_prefix [OF conjunct1 [OF R]]] prefix_order.trans [OF pg]
        by (auto simp: loop_inv_def)
      with s' show ?thesis by (simp add: log)
    qed
  qed
qed

lemma ingest_loop_settled:
  "ingest_loop pl cfg tus l log = (l', x, log') \<Longrightarrow> loop_inv hist cfg n0 s0 gaps0 l log \<Longrightarrow> 0 < s0 \<Longrightarrow>
     settled hist cfg n0 s0 gaps0 (lp_gaps l') (world l') log'"
proof (induction tus arbitrary: l log)
  case Nil
  then show ?case by (auto simp: ingest_loop.simps loop_inv_def split: if_splits)
next
  case (Cons tu tus)
  show ?case
  proof (cases "cg_end cfg \<noteq> 0 \<and> lp_current l > cg_end cfg")
    case True
    with Cons.prems show ?thesis by (auto simp: ingest_loop.simps [of pl cfg "tu # tus"] loop_inv_def)
  next
    case go: False
    obtain l1 y where t: "turn_step pl cfg tu l = (l1, y)" by fastforce
    note T = turn_step_inv [OF t Cons.prems(2,3)]
    show ?thesis
    proof (cases y)
      case (Inl e)
      with Cons.prems(1) go t T show ?thesis by (simp add: ingest_loop.simps [of pl cfg "tu # tus"])
    next
      case (Inr u)
      with Cons.prems(1) go t have "ingest_loop pl cfg tus l1 (log @ journal_entry pl cfg tu l) = (l', x, log')"
        by (simp add: ingest_loop.simps [of pl cfg "tu # tus"] if_not_P [OF go])
      from Cons.IH [OF this _ Cons.prems(3)] T Inr show ?thesis by simp
    qed
  qed
qed

end

section \<open>Boot and the whole process\<close>

lemma boot_registry_inv:
  assumes "boot_registry cfg bi rs = Ok reg"
  shows "reg_inv reg"
proof -
  from assms obtain r0 where r0: "new_registry (cg_hashes cfg) = Ok r0"
    by (cases "new_registry (cg_hashes cfg)") (auto simp: boot_registry_def)
  have i0: "reg_inv r0" by (rule new_registry_inv [OF r0])
  let ?step = "if rs_resumed rs \<or> rs_recovered rs then Ok (seed (rs_escrows rs) (seed_removed (rs_removed rs) r0))
      else case bi_seed bi of Err e \<Rightarrow> Err e | Ok ids \<Rightarrow> Ok (if ids = [] then r0 else seed ids r0)"
  from assms r0 obtain r1 where r1: "?step = Ok r1" by (cases ?step) (auto simp: boot_registry_def)
  have i1: "reg_inv r1"
  proof (cases "rs_resumed rs \<or> rs_recovered rs")
    case True
    with r1 i0 show ?thesis by (auto intro: seed_inv seed_removed_inv)
  next
    case False
    with r1 i0 show ?thesis by (cases "bi_seed bi") (auto intro: seed_inv split: if_splits)
  qed
  obtain ids gone er where w: "bi_watchlist bi = ((ids, gone), er)" by (metis surj_pair)
  have "boot_registry cfg bi rs = (if cg_replay cfg then (case er of Some e \<Rightarrow> Err e | None \<Rightarrow> Ok (seed ids (seed_removed gone r1))) else Ok r1)"
    unfolding boot_registry_def r0 sum.case r1 w by (cases er) simp_all
  with assms i1 show ?thesis by (cases er) (auto intro: seed_inv seed_removed_inv split: if_splits)
qed

lemma loop_inv_start:
  assumes "reg_inv (reg_of l)"
  shows "loop_inv hist cfg (length (hist (world l))) (unat (lp_current l)) (lp_gaps l) l []"
  using assms by (auto simp: loop_inv_def caught_up_def settled_def)

context outside begin

lemma turn_step_good:
  assumes "turn_step pl cfg tu l = (l', x)" and "reg_inv (reg_of l)"
  shows "reg_inv (reg_of l') \<and> (good (world l) \<longrightarrow> good (world l'))"
proof (cases "l' = l")
  case True
  with assms show ?thesis by simp
next
  case False
  then consider meta where "ledger_turn pl cfg tu meta l = (l', x)" | "rotate_section pl cfg tu l = (l', x)"
    using assms(1) by (auto simp: turn_step_def split: if_splits sum.splits)
  then show ?thesis
  proof cases
    case (1 meta)
    have "moves hist good cfg l l' x" using ledger_turn_effect [OF 1 assms(2)] by blast
    then show ?thesis using emits_good by (auto simp: moves_def)
  next
    case 2
    note R = rotate_effect [OF 2 assms(2)]
    show ?thesis using R emits_good [OF conjunct1 [OF R]] by simp
  qed
qed

lemma ingest_loop_good:
  "ingest_loop pl cfg tus l log = (l', x, log') \<Longrightarrow> reg_inv (reg_of l) \<Longrightarrow> good (world l) \<Longrightarrow> good (world l')"
proof (induction tus arbitrary: l log)
  case Nil
  then show ?case by (auto simp: ingest_loop.simps split: if_splits)
next
  case (Cons tu tus)
  show ?case
  proof (cases "cg_end cfg \<noteq> 0 \<and> lp_current l > cg_end cfg")
    case True
    with Cons.prems show ?thesis by (auto simp: ingest_loop.simps [of pl cfg "tu # tus"])
  next
    case go: False
    obtain l1 y where t: "turn_step pl cfg tu l = (l1, y)" by fastforce
    note T = turn_step_good [OF t Cons.prems(2)]
    show ?thesis
    proof (cases y)
      case (Inl e)
      with Cons.prems(1,3) go t T show ?thesis by (simp add: ingest_loop.simps [of pl cfg "tu # tus"])
    next
      case (Inr u)
      with Cons.prems(1) go t have "ingest_loop pl cfg tus l1 (log @ journal_entry pl cfg tu l) = (l', x, log')"
        by (simp add: ingest_loop.simps [of pl cfg "tu # tus"] if_not_P [OF go])
      from Cons.IH [OF this] T Cons.prems(3) show ?thesis by simp
    qed
  qed
qed

text \<open>Boot either ends the process, having saved at most the record of a clamp, or starts the loop.\<close>

lemma boot_effect:
  assumes "boot pl cfg bi w = (w', y)" and "pl_load pl w = (w1, st, lerr)" and "resume_decision cfg st lerr = Ok rs"
    and "rs_start rs \<noteq> 0"
  shows "(good w \<longrightarrow> good w') \<and>
    (case y of Inl x \<Rightarrow> \<exists>gaps. settled hist cfg (length (hist w)) (unat (rs_start rs)) (rs_gaps rs) gaps w' []
     | Inr l \<Rightarrow> world l = w' \<and> loop_inv hist cfg (length (hist w)) (unat (rs_start rs)) (rs_gaps rs) l [])"
proof -
  note L = load_any [OF assms(2)]
  have none: "settled hist cfg (length (hist w)) (unat (rs_start rs)) (rs_gaps rs) (rs_gaps rs) w1 []"
    using L by (simp add: settled_def)
  show ?thesis
  proof (cases "\<exists>e. y = Inl e \<and> w' = w1")
    case True
    with none L show ?thesis by auto
  next
    case False
    with assms(1-3) obtain reg where reg: "boot_registry cfg bi rs = Ok reg" and s: "bi_sink bi = None"
      by (auto simp: boot_def split: sum.splits option.splits)
    note ri = boot_registry_inv [OF reg]
    obtain p gaps w2 res where c: "connect (on_gap_hook pl cfg reg) (bi_net bi) (bi_poll bi) (bi_now bi) (rs_start rs) (cg_end cfg)
        (bi_pool bi) (rs_gaps rs, w1) = (p, (gaps, w2), res)" by (metis surj_pair)
    note H = hook_effect [OF connect_gap [OF c] ri]
    let ?init = "boot_state pl cfg bi rs reg p (rs_gaps rs) (rs_start rs) w1"
    have f0: "world ?init = w1" "reg_of ?init = reg" "lp_gaps ?init = rs_gaps rs" "lp_current ?init = rs_start rs"
      by (simp_all add: boot_state_def Let_def)
    have pos: "0 < unat (rs_start rs)" using assms(4) by (simp add: unat_gt_0)
    have I0: "loop_inv hist cfg (length (hist w)) (unat (rs_start rs)) (rs_gaps rs) ?init []"
      using loop_inv_start [of ?init hist cfg] ri L by (simp add: f0)
    have s2: "settled hist cfg (length (hist w)) (unat (rs_start rs)) (rs_gaps rs) gaps w2 []"
      by (rule settled_extend [OF none conjunct1 [OF H] subset_refl]) (use H sound_skip [OF I0 pos] f0 in auto)
    have g2: "good w \<longrightarrow> good w2" using L emits_good [OF conjunct1 [OF H]] by blast
    show ?thesis
    proof (cases res)
      case (Inl e)
      then have "w' = w2 \<and> (\<exists>x. y = Inl x)" using assms(1-3) reg s c by (auto simp: boot_def)
      with s2 g2 show ?thesis by auto
    next
      case (Inr start)
      obtain w3 r where b: "publish_gaps (pl_publish pl) (bi_now bi) (cg_network cfg) gaps w2 = (w3, r)" by fastforce
      have e3: "emits hist good (\<lambda>_. False) w2 w3" using publish_all_any b by (simp add: publish_gaps_def)
      have s3: "settled hist cfg (length (hist w)) (unat (rs_start rs)) (rs_gaps rs) gaps w3 []"
        by (rule settled_extend [OF s2 e3 subset_refl]) simp_all
      have g3: "good w \<longrightarrow> good w3" using g2 emits_good [OF e3] by blast
      let ?l = "boot_state pl cfg bi rs reg p gaps start w3"
      have f: "world ?l = w3" "reg_of ?l = reg" "lp_gaps ?l = gaps" "lp_current ?l = start"
        by (simp_all add: boot_state_def Let_def)
      have "caught_up hist (unat (rs_start rs)) ?l []"
      proof (rule caught_up_rotate [where l = ?init, OF _ pos])
        show "caught_up hist (unat (rs_start rs)) ?init []" using I0 by (simp add: loop_inv_def)
        show "prefix (hist (world ?init)) (hist (world ?l))"
          unfolding f f0 by (rule prefix_order.trans [OF emits_prefix [OF conjunct1 [OF H]] emits_prefix [OF e3]])
      qed (use H Inr f f0 in auto)
      then have l: "loop_inv hist cfg (length (hist w)) (unat (rs_start rs)) (rs_gaps rs) ?l []"
        using s3 ri H by (simp add: loop_inv_def f)
      have "w' = w3 \<and> (y = Inr ?l \<or> (\<exists>x. y = Inl x))" using assms(1-3) reg s c Inr b by (cases r) (auto simp: boot_def)
      with l s3 g3 f show ?thesis by auto
    qed
  qed
qed

text \<open>The whole process, whenever and however it ends.\<close>

lemma ingest_process_settled:
  assumes "ingest_process pl cfg bi tus w = (w', x, log)" and "pl_load pl w = (w1, st, lerr)"
    and "resume_decision cfg st lerr = Ok rs" and "rs_start rs \<noteq> 0"
  shows "(\<exists>gaps. settled hist cfg (length (hist w)) (unat (rs_start rs)) (rs_gaps rs) gaps w' log) \<and> (good w \<longrightarrow> good w')"
proof -
  obtain wb y where b: "boot pl cfg bi w = (wb, y)" by fastforce
  note B = boot_effect [OF b assms(2-4)]
  show ?thesis
  proof (cases y)
    case (Inl e)
    with assms(1) b B show ?thesis by (auto simp: ingest_process_def)
  next
    case (Inr l)
    obtain l' z log1 where g: "ingest_loop pl cfg tus l [] = (l', z, log1)" by (metis prod_cases3)
    have w': "w' = world l'" "log = log1" using assms(1) b Inr g by (auto simp: ingest_process_def)
    have I: "loop_inv hist cfg (length (hist w)) (unat (rs_start rs)) (rs_gaps rs) l []" and "world l = wb" using B Inr by auto
    have "0 < unat (rs_start rs)" using assms(4) by (simp add: unat_gt_0)
    from ingest_loop_settled [OF g I this] ingest_loop_good [OF g] I B \<open>world l = wb\<close> show ?thesis
      unfolding w' by (auto simp: loop_inv_def)
  qed
qed

end

end
