(* ===== verification/Station.thy ===== *)
theory Station
  imports Loop
begin

text \<open>
  The ingest process on its actual outside: RabbitMQ behind the retry policy, and the file store on a disk
  that can fail and cut a save short. The history of this world is what the broker took and what the store
  was given to save; the contract of \<open>Loop\<close> holds for it, and with it the end-to-end properties.
\<close>

section \<open>The world\<close>

record station =
  sn_rabbit :: rabbit
  sn_store :: file_store
  sn_disk :: disk
  sn_hist :: "happening list"

definition station_publish :: "codec \<Rightarrow> broker \<Rightarrow> (nat \<Rightarrow> nat \<Rightarrow> duration \<Rightarrow> err option) \<Rightarrow> station publisher" where
  "station_publish k broker wait e s =
     (let r = sn_rabbit s in
      case pipeline_publish k broker (wait (length (rb_sent r))) e r of
        (r', res) \<Rightarrow>
          (s\<lparr>sn_rabbit := r', sn_hist := sn_hist s @ map Accepted (drop (length (accepted broker r)) (accepted broker r'))\<rparr>, res))"

text \<open>A save in which the process dies loses the memory of the store; the error then ends the run of the model.\<close>

definition station_save :: "(nat \<Rightarrow> fault) \<Rightarrow> istate \<Rightarrow> station \<Rightarrow> station \<times> err option" where
  "station_save flt st s =
     (case save flt st (sn_store s) (sn_disk s) of
        (store, disk, r) \<Rightarrow>
          (s\<lparr>sn_store := (if r = Dead then fst (load disk (fresh (fs_path store))) else store), sn_disk := disk, sn_hist := sn_hist s @ [Saved st]\<rparr>,
           case r of Done \<Rightarrow> None | IoErr e \<Rightarrow> Some e | Dead \<Rightarrow> Some (ErrOther ''died in a save'')))"

definition station_load :: "station \<Rightarrow> station \<times> istate \<times> err option" where
  "station_load s = (case load (sn_disk s) (sn_store s) of (store, st, er) \<Rightarrow> (s\<lparr>sn_store := store\<rparr>, st, er))"

definition station_plant :: "sdk \<Rightarrow> (nat \<Rightarrow> rpc) \<Rightarrow> (string \<Rightarrow> string option) \<Rightarrow> codec \<Rightarrow> broker \<Rightarrow> (nat \<Rightarrow> nat \<Rightarrow> duration \<Rightarrow> err option)
    \<Rightarrow> (nat \<Rightarrow> fault) \<Rightarrow> station plant" where
  "station_plant sdk rpc parse k broker wait flt =
     \<lparr>pl_sdk = sdk, pl_entries = rpc, pl_publish = station_publish k broker wait, pl_load = station_load, pl_save = station_save flt,
      pl_parse_url = parse\<rparr>"

section \<open>What the disk keeps of itself\<close>

fun saves :: "happening list \<Rightarrow> istate list" where
  "saves [] = []"
| "saves (Saved st # h) = st # saves h"
| "saves (Accepted i # h) = saves h"

lemma saves_append [simp]: "saves (h @ h') = saves h @ saves h'"
  by (induction h rule: saves.induct) auto

lemma saves_accepted [simp]: "saves (map Accepted ids) = []"
  by (induction ids) auto

lemma saves_nth:
  "a \<le> b \<Longrightarrow> b < length (saves h) \<Longrightarrow> \<exists>i j. i \<le> j \<and> j < length h \<and> h ! i = Saved (saves h ! a) \<and> h ! j = Saved (saves h ! b)"
proof (induction h arbitrary: a b rule: saves.induct)
  case (2 st h)
  show ?case
  proof (cases b)
    case 0
    with 2 show ?thesis by (intro exI [of _ 0]) simp
  next
    case (Suc b')
    with "2.prems"(2) have b': "b' < length (saves h)" by simp
    show ?thesis
    proof (cases a)
      case 0
      from "2.IH" [OF order_refl b'] obtain j where "j < length h" "h ! j = Saved (saves h ! b')" by auto
      with 0 Suc show ?thesis by (intro exI [of _ 0] exI [of _ "Suc j"]) simp
    next
      case (Suc a')
      with \<open>b = Suc b'\<close> "2.prems"(1) have "a' \<le> b'" by simp
      from "2.IH" [OF this b'] obtain i j where "i \<le> j" "j < length h" "h ! i = Saved (saves h ! a')" "h ! j = Saved (saves h ! b')" by auto
      with Suc \<open>b = Suc b'\<close> show ?thesis by (intro exI [of _ "Suc i"] exI [of _ "Suc j"]) simp
    qed
  qed
next
  case (3 x h)
  from "3.prems" have "a \<le> b" "b < length (saves h)" by simp_all
  from "3.IH" [OF this] obtain i j where "i \<le> j" "j < length h" "h ! i = Saved (saves h ! a)" "h ! j = Saved (saves h ! b)" by blast
  then show ?case by (intro exI [of _ "Suc i"] exI [of _ "Suc j"]) simp
qed simp

text \<open>
  The disk holds the cursor of one and the watchlist of a later or the same one of: the records it held
  before, and those given to save since the history had \<open>n0\<close> entries. With \<open>cur\<close> there is a cursor.
\<close>

definition station_ok :: "bool \<Rightarrow> string \<Rightarrow> istate list \<Rightarrow> nat \<Rightarrow> station \<Rightarrow> bool" where
  "station_ok cur p before n0 s \<longleftrightarrow> n0 \<le> length (sn_hist s) \<and> (cur \<longrightarrow> files (sn_disk s) p \<noteq> None) \<and>
     life_ok p (sn_store s, sn_disk s, before @ saves (drop n0 (sn_hist s)))"

lemma station_ok_publish:
  assumes "station_publish k broker wait e s = (s', r)" and "station_ok cur p before n0 s"
  shows "station_ok cur p before n0 s'"
  using assms by (auto simp: station_publish_def station_ok_def Let_def split: prod.splits)

lemma load_keeps:
  "load w s = (s', st, er) \<Longrightarrow> cache_ok s w \<Longrightarrow> cache_ok s' w \<and> fs_path s' = fs_path s"
  by (auto simp: load_def load_orphan_watchlist_def read_file_def cache_ok_def split: option.splits read_result.splits if_splits)

lemma station_ok_load:
  assumes "station_load s = (s', st, er)" and "station_ok cur p before n0 s"
  shows "station_ok cur p before n0 s'"
proof -
  obtain store where l: "load (sn_disk s) (sn_store s) = (store, st, er)" and s': "s' = s\<lparr>sn_store := store\<rparr>"
    using assms(1) by (auto simp: station_load_def split: prod.splits)
  from assms(2) have "fs_path (sn_store s) = p" "cache_ok (sn_store s) (sn_disk s)" by (simp_all add: station_ok_def life_ok_def)
  with load_keeps [OF l] have "cache_ok store (sn_disk s)" "fs_path store = p" by simp_all
  with assms(2) show ?thesis by (simp add: station_ok_def life_ok_def s')
qed

lemma station_ok_save:
  assumes "station_save flt st s = (s', er)" and "station_ok cur p before n0 s"
  shows "station_ok cur p before n0 s'"
proof -
  obtain store disk r where v: "save flt st (sn_store s) (sn_disk s) = (store, disk, r)" by (metis prod_cases3)
  from assms(2) have l: "life_ok p (sn_store s, sn_disk s, before @ saves (drop n0 (sn_hist s)))" and n: "n0 \<le> length (sn_hist s)"
    by (simp_all add: station_ok_def)
  from l have c: "fs_path (sn_store s) = p" "cache_ok (sn_store s) (sn_disk s)" by (simp_all add: life_ok_def)
  note S = save_files [OF v c(2), unfolded c(1)]
  have s': "s' = s\<lparr>sn_store := (if r = Dead then fst (load disk (fresh p)) else store), sn_disk := disk, sn_hist := sn_hist s @ [Saved st]\<rparr>"
    using assms(1) v S(4) by (cases r) (auto simp: station_save_def)
  have "files (sn_disk s) p \<noteq> None \<longrightarrow> files disk p \<noteq> None" using S(1) by auto
  with assms(2) life_ok_save [OF l v] n show ?thesis by (auto simp: station_ok_def s')
qed

section \<open>The contract of the loop holds\<close>

lemma station_publish_hist:
  assumes "station_publish k broker wait e s = (s', r)"
  shows "\<exists>ids. sn_hist s' = sn_hist s @ map Accepted ids \<and> (r = Delivered \<longrightarrow> ids = [en_message_id e])"
proof -
  let ?w = "wait (length (rb_sent (sn_rabbit s)))"
  obtain r' res where p: "pipeline_publish k broker ?w e (sn_rabbit s) = (r', res)" by fastforce
  then have "r = res" "sn_hist s' = sn_hist s @ map Accepted (drop (length (accepted broker (sn_rabbit s))) (accepted broker r'))"
    using assms by (auto simp: station_publish_def Let_def)
  with pipeline.delivered [of k broker ?w e "sn_rabbit s" r'] p show ?thesis by auto
qed

lemma station_fields [simp]:
  "pl_publish (station_plant sdk rpc parse k broker wait flt) = station_publish k broker wait"
  "pl_save (station_plant sdk rpc parse k broker wait flt) = station_save flt"
  "pl_load (station_plant sdk rpc parse k broker wait flt) = station_load"
  "pl_sdk (station_plant sdk rpc parse k broker wait flt) = sdk"
  by (simp_all add: station_plant_def)

lemma no_saved_in_accepted: "Saved st \<notin> Accepted ` A"
  by auto

interpretation station: outside "station_plant sdk rpc parse k broker wait flt" sn_hist "station_ok cur p before n0"
  for sdk rpc parse k broker wait flt cur p before n0
proof
  fix e s s' r
  assume "pl_publish (station_plant sdk rpc parse k broker wait flt) e s = (s', Delivered)"
  then show "sn_hist s' = sn_hist s @ [Accepted (en_message_id e)]" using station_publish_hist by fastforce
next
  fix e s s' r
  assume "pl_publish (station_plant sdk rpc parse k broker wait flt) e s = (s', r)"
  then have p: "station_publish k broker wait e s = (s', r)" by simp
  from station_publish_hist [OF p] station_ok_publish [OF p]
  show "emits sn_hist (station_ok cur p before n0) (\<lambda>_. False) s s'" unfolding emits_def by auto
next
  fix st s s' er
  assume "pl_save (station_plant sdk rpc parse k broker wait flt) st s = (s', er)"
  then have v: "station_save flt st s = (s', er)" by simp
  then have "sn_hist s' = sn_hist s @ [Saved st]" by (auto simp: station_save_def split: prod.splits)
  with station_ok_save [OF v] show "emits sn_hist (station_ok cur p before n0) (\<lambda>st'. st' = st) s s'" unfolding emits_def by auto
next
  fix st s s'
  assume "pl_save (station_plant sdk rpc parse k broker wait flt) st s = (s', None)"
  then show "sn_hist s' = sn_hist s @ [Saved st]" by (auto simp: station_save_def split: prod.splits)
next
  fix s s' st er
  assume "pl_load (station_plant sdk rpc parse k broker wait flt) s = (s', st, er)"
  then have "station_load s = (s', st, er)" by simp
  then show "sn_hist s' = sn_hist s \<and> (station_ok cur p before n0 s \<longrightarrow> station_ok cur p before n0 s')"
    using station_ok_load by (auto simp: station_load_def split: prod.splits)
qed

section \<open>Restarts lose nothing\<close>

text \<open>A disk that is in order: intact files, a cursor of one record and the watchlist of another.\<close>

definition holds_pair :: "disk \<Rightarrow> string \<Rightarrow> istate \<Rightarrow> istate \<Rightarrow> bool" where
  "holds_pair w p a b \<longleftrightarrow> readable w p \<and> files w p = Some (cursor_of a) \<and> files w (watchlist_path p) = Some (watchlist_of b)"

text \<open>A disk without a cursor: no files, or a watchlist left over.\<close>

definition holds_orphan :: "disk \<Rightarrow> string \<Rightarrow> bool" where
  "holds_orphan w p \<longleftrightarrow> readable w p \<and> files w p = None \<and>
     (files w (watchlist_path p) = None \<or> (\<exists>b. files w (watchlist_path p) = Some (watchlist_of b)))"

lemma holds_pair_same [simp]: "holds_pair w p st st = holds w p st"
  by (simp add: holds_pair_def holds_def)

lemma holds_pair_loaded: "holds_pair w p a b \<Longrightarrow> loaded w p = (mixed a b, None)"
  by (simp add: holds_pair_def loaded_mixed)

lemma holds_orphan_loaded: "holds_orphan w p \<Longrightarrow> \<exists>st. loaded w p = (st, Some ErrStateNotFound) \<and> st_last_seq st = 0"
  using loaded_orphaned loaded_nothing by (auto simp: holds_orphan_def orphaned_def zero_state_def)

text \<open>
  The contract of the loop speaks of records, so the two files count as two records of which the second has the
  cursor of the first; and a watchlist without a cursor as a record with the cursor zero.
\<close>

definition with_cursor :: "u32 \<Rightarrow> string \<Rightarrow> istate \<Rightarrow> istate" where
  "with_cursor q hash st = st\<lparr>st_last_seq := q, st_last_hash := hash\<rparr>"

lemma with_cursor_watchlist [simp]:
  "watchlist_of (with_cursor q hash st) = watchlist_of st" "st_gaps (with_cursor q hash st) = st_gaps st"
  "st_last_seq (with_cursor q hash st) = q"
  by (simp_all add: watchlist_of_def with_cursor_def)

definition as_records :: "istate \<Rightarrow> istate \<Rightarrow> istate list" where
  "as_records a b = [mixed a b, with_cursor (st_last_seq a) (st_last_hash a) (as_text b)]"

lemma as_records_fields: "c \<in> set (as_records a b) \<Longrightarrow> st_last_seq c = st_last_seq a \<and> st_gaps c = map gap_text (st_gaps b)"
  by (auto simp: as_records_def mixed_def stamped_def)

lemma mixed_fields [simp]: "st_last_seq (mixed a b) = st_last_seq a" "st_gaps (mixed a b) = map gap_text (st_gaps b)"
  by (simp_all add: mixed_def stamped_def)

lemma covered_gap_text [simp]: "covered hist h log (map gap_text gaps) q = covered hist h log gaps q"
  by (simp add: covered_def)

lemma station_ok_pair:
  assumes "holds_pair (sn_disk s) p a b" and "sn_store s = fresh p"
  shows "station_ok True p (as_records a b) (length (sn_hist s)) s"
proof -
  from assms have "files (sn_disk s) p = Some (cursor_of (as_records a b ! 0))" "files (sn_disk s) (watchlist_path p) = Some (watchlist_of (as_records a b ! 1))"
    by (simp_all add: holds_pair_def as_records_def cursor_of_def marshal_cursor_def mixed_def stamped_def)
  moreover have "(1::nat) < length (as_records a b)" by (simp add: as_records_def)
  ultimately have "\<exists>j < length (as_records a b). files (sn_disk s) (watchlist_path p) = Some (watchlist_of (as_records a b ! j)) \<and>
      (files (sn_disk s) p = None \<or> (\<exists>i \<le> j. files (sn_disk s) p = Some (cursor_of (as_records a b ! i))))"
    by (meson zero_le)
  with assms show ?thesis by (simp add: station_ok_def life_ok_def holds_pair_def cache_ok_def fresh_def)
qed

lemma station_ok_orphan:
  assumes "holds_orphan (sn_disk s) p" and "sn_store s = fresh p"
  shows "\<exists>before. length before \<le> 1 \<and> (\<forall>b\<in>set before. st_last_seq b = 0) \<and> station_ok False p before (length (sn_hist s)) s"
proof (cases "files (sn_disk s) (watchlist_path p)")
  case None
  with assms have "station_ok False p [] (length (sn_hist s)) s" by (simp add: station_ok_def life_ok_def holds_orphan_def cache_ok_def fresh_def)
  then show ?thesis by (intro exI [of _ "[]"]) simp
next
  case (Some c)
  with assms obtain b where "files (sn_disk s) (watchlist_path p) = Some (watchlist_of b)" by (auto simp: holds_orphan_def)
  with assms have "station_ok False p [with_cursor 0 [] b] (length (sn_hist s)) s"
    by (simp add: station_ok_def life_ok_def holds_orphan_def cache_ok_def fresh_def)
  then show ?thesis by (intro exI [of _ "[with_cursor 0 [] b]"]) simp
qed

text \<open>What the disk is like at any later moment.\<close>

lemma station_ok_files:
  assumes "station_ok cur p before n0 s"
  shows "\<not> cur \<and> holds_orphan (sn_disk s) p \<or>
    (\<exists>i j. i \<le> j \<and> j < length (before @ saves (drop n0 (sn_hist s))) \<and>
       holds_pair (sn_disk s) p ((before @ saves (drop n0 (sn_hist s))) ! i) ((before @ saves (drop n0 (sn_hist s))) ! j))"
proof -
  let ?L = "before @ saves (drop n0 (sn_hist s))"
  from assms have c: "cur \<Longrightarrow> files (sn_disk s) p \<noteq> None" and l: "life_ok p (sn_store s, sn_disk s, ?L)" by (simp_all add: station_ok_def)
  from l have rd: "readable (sn_disk s) p" by (simp add: life_ok_def)
  show ?thesis
  proof (cases "files (sn_disk s) p")
    case None
    with l c rd show ?thesis by (auto simp: life_ok_def holds_orphan_def)
  next
    case (Some x)
    with l obtain i j where "i \<le> j" "j < length ?L" "files (sn_disk s) (watchlist_path p) = Some (watchlist_of (?L ! j))"
      "files (sn_disk s) p = Some (cursor_of (?L ! i))" unfolding life_ok_def by auto
    with rd show ?thesis unfolding holds_pair_def by blast
  qed
qed

lemma boot_fails_early:
  assumes "ingest_process pl cfg bi tus w = (w', x, log)" and "pl_load pl w = (w1, st, lerr)" and "resume_decision cfg st lerr = Err e"
  shows "w' = w1 \<and> log = []"
  using assms by (simp add: ingest_process_def boot_def)

lemma station_load_fresh:
  assumes "sn_store s = fresh p" and "loaded (sn_disk s) p = (st, er)"
  shows "\<exists>store. station_load s = (s\<lparr>sn_store := store\<rparr>, st, er)"
  using assms by (auto simp: station_load_def loaded_def split: prod.splits)

lemma resume_start:
  assumes "resume_decision cfg st None = Ok rs"
  shows "rs_start rs = st_last_seq st + 1 \<and> rs_gaps rs = st_gaps st"
  using assms by (auto simp: resume_decision_def Let_def split: if_splits)

lemma fresh_start:
  assumes "resume_decision cfg st (Some ErrStateNotFound) = Ok rs"
  shows "rs_start rs = cg_start cfg"
  using assms by (auto simp: resume_decision_def Let_def split: if_splits)

lemma settled_saves:
  assumes "settled sn_hist cfg n0 s0 gaps0 gaps s log" and "i \<le> j" and "j < length (saves (drop n0 (sn_hist s)))"
  shows "prefix gaps0 (st_gaps (saves (drop n0 (sn_hist s)) ! j)) \<and>
    (\<forall>q. s0 \<le> q \<longrightarrow> q \<le> unat (st_last_seq (saves (drop n0 (sn_hist s)) ! i)) \<longrightarrow>
       covered sn_hist (sn_hist s) log (st_gaps (saves (drop n0 (sn_hist s)) ! j)) q)"
proof -
  let ?S = "saves (drop n0 (sn_hist s))"
  have n: "n0 \<le> length (sn_hist s)" using assms(1) by (simp add: settled_def)
  from saves_nth [OF assms(2,3)] obtain a b where ab: "a \<le> b" "b < length (drop n0 (sn_hist s))"
    "drop n0 (sn_hist s) ! a = Saved (?S ! i)" "drop n0 (sn_hist s) ! b = Saved (?S ! j)" by blast
  have A: "sn_hist s ! (n0 + a) = Saved (?S ! i)" "n0 + a < length (sn_hist s)" and
    B: "sn_hist s ! (n0 + b) = Saved (?S ! j)" "n0 + b < length (sn_hist s)" using ab n by auto
  note R = assms(1) [unfolded settled_def, THEN conjunct2, rule_format]
  have ra: "sound_record sn_hist cfg s0 gaps0 (take (n0 + a) (sn_hist s)) log (?S ! i)" using R [OF _ A(2,1)] by simp
  have rb: "sound_record sn_hist cfg s0 gaps0 (take (n0 + b) (sn_hist s)) log (?S ! j)" using R [OF _ B(2,1)] by simp
  have g: "set (st_gaps (?S ! i)) \<subseteq> set (st_gaps (?S ! j))" using R [OF _ B(2,1)] A(1) ab(1) by (metis add_left_mono le_add1 set_mono_prefix)
  have "covered sn_hist (sn_hist s) log (st_gaps (?S ! j)) q" if "s0 \<le> q" "q \<le> unat (st_last_seq (?S ! i))" for q
  proof (rule covered_mono [OF _ take_is_prefix subset_refl g])
    show "covered sn_hist (take (n0 + a) (sn_hist s)) log (st_gaps (?S ! i)) q" using ra that by (simp add: sound_record_def)
  qed
  with rb show ?thesis by (simp add: sound_record_def)
qed

text \<open>The same for the records that the disk held before and those saved since.\<close>

lemma settled_records:
  assumes "settled sn_hist cfg n0 s0 gaps0 gaps s log" and "i \<le> j" and "j < length (before @ saves (drop n0 (sn_hist s)))"
    and "\<forall>b\<in>set before. unat (st_last_seq b) < s0"
  shows "((\<forall>b\<in>set before. prefix gaps0 (st_gaps b)) \<longrightarrow> prefix gaps0 (st_gaps ((before @ saves (drop n0 (sn_hist s))) ! j))) \<and>
    (\<forall>q. s0 \<le> q \<longrightarrow> q \<le> unat (st_last_seq ((before @ saves (drop n0 (sn_hist s))) ! i)) \<longrightarrow>
       covered sn_hist (sn_hist s) log (st_gaps ((before @ saves (drop n0 (sn_hist s))) ! j)) q)"
proof (cases "i < length before")
  case True
  with assms(4) have "unat (st_last_seq (before ! i)) < s0" by simp
  with True settled_saves [OF assms(1) order_refl, of "j - length before"] assms(3) show ?thesis by (auto simp: nth_append)
next
  case False
  with settled_saves [OF assms(1), of "i - length before" "j - length before"] assms(2,3) show ?thesis by (auto simp: nth_append)
qed

text \<open>
  A world that keeps its records with \<open>station_load\<close>, whatever its sink: one process, on a disk with and
  without a cursor.
\<close>

locale stored =
  fixes pl :: "station plant"
  assumes contract: "outside pl sn_hist (station_ok cur p before n0)"
    and loads: "pl_load pl = station_load"
begin

lemma process_with_cursor:
  assumes "ingest_process pl cfg bi tus s = (s', x, log)" and "sn_store s = fresh p" and "holds_pair (sn_disk s) p a b" and "st_last_seq a \<noteq> - 1"
  shows "\<exists>a' b'. holds_pair (sn_disk s') p a' b' \<and> prefix (map gap_text (st_gaps b)) (map gap_text (st_gaps b')) \<and>
    (\<forall>q. unat (st_last_seq a) < q \<longrightarrow> q \<le> unat (st_last_seq a') \<longrightarrow> covered sn_hist (sn_hist s') log (st_gaps b') q)"
proof -
  let ?n = "length (sn_hist s)" and ?before = "as_records a b"
  from station_load_fresh [OF assms(2) holds_pair_loaded [OF assms(3)]] obtain store where
    l1: "pl_load pl s = (s\<lparr>sn_store := store\<rparr>, mixed a b, None)" by (auto simp: loads)
  show ?thesis
  proof (cases "resume_decision cfg (mixed a b) None")
    case (Inl e)
    with boot_fails_early [OF assms(1) l1] have "sn_disk s' = sn_disk s" by simp
    with assms(3) show ?thesis by (intro exI [of _ a] exI [of _ b]) simp
  next
    case (Inr rs)
    have rs: "rs_start rs = st_last_seq a + 1" "rs_gaps rs = map gap_text (st_gaps b)"
      using resume_start [OF Inr] by simp_all
    have nz: "rs_start rs \<noteq> 0" using rs assms(4) by (simp add: eq_neg_iff_add_eq_0)
    have u: "unat (rs_start rs) = Suc (unat (st_last_seq a))" using rs nz by (simp add: unatSuc add.commute)
    from outside.ingest_process_settled [OF contract assms(1) l1 Inr nz] station_ok_pair [OF assms(3,2)] obtain gaps where
      S: "settled sn_hist cfg ?n (unat (rs_start rs)) (map gap_text (st_gaps b)) gaps s' log" and ok: "station_ok True p ?before ?n s'"
      unfolding rs(2) by blast
    from station_ok_files [OF ok] obtain i j where ij: "i \<le> j" "j < length (?before @ saves (drop ?n (sn_hist s')))" and
      h: "holds_pair (sn_disk s') p ((?before @ saves (drop ?n (sn_hist s'))) ! i) ((?before @ saves (drop ?n (sn_hist s'))) ! j)" by blast
    have b: "\<forall>c\<in>set ?before. unat (st_last_seq c) < unat (rs_start rs)" "\<forall>c\<in>set ?before. prefix (map gap_text (st_gaps b)) (st_gaps c)"
      using as_records_fields u by auto
    let ?a = "(?before @ saves (drop ?n (sn_hist s'))) ! i" and ?b = "(?before @ saves (drop ?n (sn_hist s'))) ! j"
    from settled_records [OF S ij b(1)] b(2) have R: "prefix (map gap_text (st_gaps b)) (st_gaps ?b)"
      "\<forall>q. unat (rs_start rs) \<le> q \<longrightarrow> q \<le> unat (st_last_seq ?a) \<longrightarrow> covered sn_hist (sn_hist s') log (st_gaps ?b) q" by blast+
    from map_mono_prefix [OF R(1), of gap_text] have "prefix (map gap_text (st_gaps b)) (map gap_text (st_gaps ?b))" by simp
    with R(2) h u show ?thesis by (intro exI [of _ ?a] exI [of _ ?b]) (simp add: Suc_le_eq)
  qed
qed

lemma process_without_cursor:
  assumes "ingest_process pl cfg bi tus s = (s', x, log)" and "sn_store s = fresh p" and "holds_orphan (sn_disk s) p" and "cg_start cfg \<noteq> 0"
  shows "holds_orphan (sn_disk s') p \<or> (\<exists>a b. holds_pair (sn_disk s') p a b \<and>
    (\<forall>q. unat (cg_start cfg) \<le> q \<longrightarrow> q \<le> unat (st_last_seq a) \<longrightarrow> covered sn_hist (sn_hist s') log (st_gaps b) q))"
proof -
  let ?n = "length (sn_hist s)"
  from holds_orphan_loaded [OF assms(3)] obtain st where "loaded (sn_disk s) p = (st, Some ErrStateNotFound)" by blast
  from station_load_fresh [OF assms(2) this] obtain store where
    l1: "pl_load pl s = (s\<lparr>sn_store := store\<rparr>, st, Some ErrStateNotFound)" by (auto simp: loads)
  show ?thesis
  proof (cases "resume_decision cfg st (Some ErrStateNotFound)")
    case (Inl e)
    with boot_fails_early [OF assms(1) l1] assms(3) show ?thesis by simp
  next
    case (Inr rs)
    from station_ok_orphan [OF assms(3,2)] obtain before where
      b: "\<forall>c\<in>set before. st_last_seq c = 0" "station_ok False p before ?n s" by blast
    have nz: "rs_start rs \<noteq> 0" using fresh_start [OF Inr] assms(4) by simp
    from outside.ingest_process_settled [OF contract assms(1) l1 Inr nz] b(2) obtain gaps where
      S: "settled sn_hist cfg ?n (unat (cg_start cfg)) (rs_gaps rs) gaps s' log" and ok: "station_ok False p before ?n s'"
      unfolding fresh_start [OF Inr] by blast
    have "\<forall>c\<in>set before. unat (st_last_seq c) < unat (cg_start cfg)" using b(1) assms(4) by (simp add: unat_gt_0)
    from station_ok_files [OF ok] settled_records [OF S _ _ this] show ?thesis by (metis (no_types, lifting))
  qed
qed

end

interpretation stored_station: stored "station_plant sdk rpc parse k broker wait flt" for sdk rpc parse k broker wait flt
  by unfold_locales (simp_all add: station.outside_axioms)

text \<open>
  C4. Restarts lose nothing. A process starts on a disk in order, be it after a clean stop or after a death
  between the two files of a save, and runs for as long as it does: whatever the ledgers hold, whatever the
  endpoints, the broker, the clock and the disk do, whatever commands arrive, and however it ends, in the
  middle of a save included. The next process then reads an intact record whose gaps extend the old ones, and
  every ledger after the old cursor and up to the new one was processed, with every message of its facts taken
  (the library reported no error and, in confirm mode, the broker acked it and had not returned it), or lies in
  a recorded gap.
\<close>

theorem restart_loses_nothing:
  assumes "ingest_process (station_plant sdk rpc parse k broker wait flt) cfg bi tus s = (s', x, log)"
    and "holds_pair (sn_disk s) p a b" and "loaded (sn_disk s) p = (old, None)" and "sn_store s = fresh p" and "st_last_seq old \<noteq> - 1"
  shows "\<exists>st. loaded (sn_disk s') p = (st, None) \<and> prefix (st_gaps old) (st_gaps st) \<and>
    (\<forall>q. unat (st_last_seq old) < q \<longrightarrow> q \<le> unat (st_last_seq st) \<longrightarrow> covered sn_hist (sn_hist s') log (st_gaps st) q)"
proof -
  have old: "old = mixed a b" using holds_pair_loaded [OF assms(2)] assms(3) by simp
  with stored_station.process_with_cursor [OF assms(1,4,2)] assms(5) obtain a' b' where
    h: "holds_pair (sn_disk s') p a' b'" "prefix (map gap_text (st_gaps b)) (map gap_text (st_gaps b'))"
    "\<forall>q. unat (st_last_seq a) < q \<longrightarrow> q \<le> unat (st_last_seq a') \<longrightarrow> covered sn_hist (sn_hist s') log (st_gaps b') q" by auto
  with holds_pair_loaded [OF h(1)] old show ?thesis by (intro exI [of _ "mixed a' b'"]) simp
qed

text \<open>
  The first start loses nothing either. On a disk without a cursor, whether or not a watchlist survives, and
  with a configured start ledger, the process that follows finds no cursor, or one for which every ledger from
  the configured start on was processed and its messages taken, or lies in a recorded gap.
\<close>

theorem first_start_loses_nothing:
  assumes "ingest_process (station_plant sdk rpc parse k broker wait flt) cfg bi tus s = (s', x, log)"
    and "holds_orphan (sn_disk s) p" and "sn_store s = fresh p" and "cg_start cfg \<noteq> 0"
  shows "snd (loaded (sn_disk s') p) = Some ErrStateNotFound \<or>
    (\<exists>st. loaded (sn_disk s') p = (st, None) \<and>
      (\<forall>q. unat (cg_start cfg) \<le> q \<longrightarrow> q \<le> unat (st_last_seq st) \<longrightarrow> covered sn_hist (sn_hist s') log (st_gaps st) q))"
proof -
  from stored_station.process_without_cursor [OF assms(1,3,2,4)] show ?thesis
  proof (elim disjE exE conjE)
    fix a b
    assume h: "holds_pair (sn_disk s') p a b"
      "\<forall>q. unat (cg_start cfg) \<le> q \<longrightarrow> q \<le> unat (st_last_seq a) \<longrightarrow> covered sn_hist (sn_hist s') log (st_gaps b) q"
    with holds_pair_loaded [OF h(1)] show ?thesis by (intro disjI2 exI [of _ "mixed a b"]) simp
  next
    assume "holds_orphan (sn_disk s') p"
    from holds_orphan_loaded [OF this] show ?thesis by auto
  qed
qed

section \<open>A station for the examples\<close>

text \<open>
  A resumed process that processes ledger 101, which descends from the stored hash and holds the transactions
  of the example of \<open>Detection\<close>, at the tip of the chain, and is then stopped.
\<close>

definition tip_meta :: ledger_meta where
  "tip_meta = \<lparr>lm_seq = 101, lm_hash = [2], lm_prev_hash = Some [1], lm_close_time = 1000, lm_reader = Ret (), lm_reads = map Ret sample_txs\<rparr>"

definition sample_config :: ingest_config where
  "sample_config = \<lparr>cg_network = ''testnet'', cg_passphrase = ''Test'', cg_start = 50, cg_end = 0, cg_sweep = False, cg_replay = False,
     cg_hashes = [hex_encode sample_hash], cg_fetch_timeout = 30 * second, cg_heartbeat = []\<rparr>"

definition sample_boot :: boot_inputs where
  "sample_boot = \<lparr>bi_seed = Ok [], bi_watchlist = (([], []), None), bi_sink = None, bi_pool = two_pool, bi_net = (\<lambda>_ _. endpoint 2),
     bi_poll = (\<lambda>_. False), bi_now = 0, bi_version = ''dev''\<rparr>"

definition tip_turn :: turn where
  "tip_turn = \<lparr>tu_cancelled = False, tu_get = (\<lambda>_. Got tip_meta), tu_fetch_top = (\<lambda>_. None), tu_fetch_wait = (\<lambda>_. None),
     tu_cancelled_after = False, tu_net = (\<lambda>_ _. endpoint 2), tu_pool_poll = (\<lambda>_. False), tu_process_poll = (\<lambda>_. False),
     tu_now = time_unix 1001, tu_sweep_now = time_unix 1001, tu_end_now = time_unix 1001, tu_commands = [], tu_hold_now = time_unix 1001,
     tu_hold = [], tu_hold_cancelled = False\<rparr>"

definition stop_turn :: turn where
  "stop_turn = tip_turn\<lparr>tu_cancelled := True\<rparr>"

definition sample_record :: istate where
  "sample_record = \<lparr>st_version = 1, st_network = ''Test'', st_last_seq = 100, st_last_hash = ''01'', st_escrows = [], st_removed = [], st_gaps = []\<rparr>"

definition sample_station :: station where
  "sample_station = \<lparr>sn_rabbit = sample_rabbit, sn_store = fresh ''s.json'', sn_disk = disk_of sample_record, sn_hist = []\<rparr>"

lemma sample_loaded: "loaded (sn_disk sample_station) ''s.json'' = (sample_record, None)"
proof -
  have "holds_pair (sn_disk sample_station) ''s.json'' sample_record sample_record" by (simp add: sample_station_def disk_of_holds)
  from holds_pair_loaded [OF this] show ?thesis
    by (simp add: stamped_def as_text_def sample_record_def json_text_ascii current_version_def)
qed

definition sample_plant :: "station plant" where
  "sample_plant = station_plant sample_sdk (\<lambda>_. no_entries) (\<lambda>_. None) sample_codec (\<lambda>n. sample_broker (n + 2)) (\<lambda>_ _ _. None) (\<lambda>_. Fine)"

lemma restart_loses_nothing_witness:
  "\<exists>s' x log st. ingest_process sample_plant sample_config sample_boot [tip_turn, stop_turn] sample_station = (s', x, log) \<and>
     loaded (sn_disk s') ''s.json'' = (st, None) \<and>
     (\<forall>q. 100 < q \<longrightarrow> q \<le> unat (st_last_seq st) \<longrightarrow> covered sn_hist (sn_hist s') log (st_gaps st) q)"
proof -
  obtain s' x log where r: "ingest_process sample_plant sample_config sample_boot [tip_turn, stop_turn] sample_station = (s', x, log)"
    by (metis prod_cases3)
  have h: "holds_pair (sn_disk sample_station) ''s.json'' sample_record sample_record" by (simp add: sample_station_def disk_of_holds)
  from restart_loses_nothing [OF r [unfolded sample_plant_def] h sample_loaded] r show ?thesis
    by (simp add: sample_station_def sample_record_def)
qed

lemma first_start_loses_nothing_witness:
  "\<exists>s' x log. ingest_process sample_plant sample_config sample_boot [tip_turn, stop_turn] (sample_station\<lparr>sn_disk := empty_disk\<rparr>) = (s', x, log) \<and>
     (snd (loaded (sn_disk s') ''s.json'') = Some ErrStateNotFound \<or>
      (\<exists>st. loaded (sn_disk s') ''s.json'' = (st, None) \<and>
        (\<forall>q. 50 \<le> q \<longrightarrow> q \<le> unat (st_last_seq st) \<longrightarrow> covered sn_hist (sn_hist s') log (st_gaps st) q)))"
proof -
  let ?s = "sample_station\<lparr>sn_disk := empty_disk\<rparr>"
  obtain s' x log where r: "ingest_process sample_plant sample_config sample_boot [tip_turn, stop_turn] ?s = (s', x, log)"
    by (metis prod_cases3)
  have "snd (loaded (sn_disk s') ''s.json'') = Some ErrStateNotFound \<or>
    (\<exists>st. loaded (sn_disk s') ''s.json'' = (st, None) \<and>
      (\<forall>q. unat (cg_start sample_config) \<le> q \<longrightarrow> q \<le> unat (st_last_seq st) \<longrightarrow> covered sn_hist (sn_hist s') log (st_gaps st) q))"
    by (rule first_start_loses_nothing [OF r [unfolded sample_plant_def]])
      (simp_all add: sample_station_def sample_config_def holds_orphan_def readable_def empty_disk_def)
  with r show ?thesis by (simp add: sample_config_def)
qed

end
