(* ===== verification/Resume.thy ===== *)
theory Resume
  imports Station
begin

text \<open>
  What a resumed process checks and restores: the chain that it continues, the network of the record, and the
  watchlist.
\<close>

section \<open>The chain is checked\<close>

text \<open>The divergence check is armed with hash \<open>h\<close>, and an endpoint rotation would arm it again.\<close>

definition armed :: "string \<Rightarrow> 'w ingest \<Rightarrow> bool" where
  "armed h l \<longleftrightarrow> h \<noteq> [] \<and> lp_expected l = h \<and> lp_last_hash l = h"

text \<open>The ledger that a turn fetches as number \<open>seq\<close> descends from the ledger with hash \<open>h\<close>.\<close>

definition descends :: "ingest_config \<Rightarrow> turn \<Rightarrow> u32 \<Rightarrow> string \<Rightarrow> bool" where
  "descends cfg tu seq h \<longleftrightarrow>
     (\<exists>meta prev. fst (snd (fetch_ledger_with_retry (tu_get tu) (tu_fetch_top tu) (tu_fetch_wait tu) seq (stall_budget cfg))) = Ok meta \<and>
        lm_prev_hash meta = Some prev \<and> equal_fold (hex_encode prev) h)"

lemma continuity_armed:
  assumes "continuity_section meta l = (l', Inr u)" and "armed h l"
  shows "\<exists>prev. lm_prev_hash meta = Some prev \<and> equal_fold (hex_encode prev) h"
  using assms by (auto simp: continuity_section_def armed_def verify_chain_continuity_def split: if_splits option.splits)

lemma journal_descends:
  assumes "journal_entry pl cfg tu l \<noteq> []" and "armed h l"
  shows "descends cfg tu (lp_current l) h"
proof -
  from assms(1) obtain meta l2 facts active where f: "fetch_section cfg tu l = Ok meta" "\<not> tu_cancelled tu" and
    d: "then_do (continuity_section meta l) (\<lambda>_. process_section pl tu meta) = (l2, Inr (facts, active))"
    by (auto simp: journal_entry_def split: if_splits sum.splits prod.splits)
  from d obtain u l1 where "continuity_section meta l = (l1, Inr u)" by (auto elim: then_doE)
  from continuity_armed [OF this assms(2)] f show ?thesis unfolding descends_def fetch_section_def by blast
qed

lemma journal_entry_cases: "journal_entry pl cfg tu l = [] \<or> (\<exists>ids. journal_entry pl cfg tu l = [(world l, lp_current l, ids)])"
  by (auto simp: journal_entry_def split: sum.splits prod.splits)

lemma publish_section_keeps:
  assumes "publish_section pl es l = (l', x)"
  shows "lp_expected l' = lp_expected l" "lp_last_hash l' = lp_last_hash l" "lp_current l' = lp_current l"
proof -
  obtain w r where "publish_all (pl_publish pl) es (world l) = (w, r)" by fastforce
  with assms have "l' = set_world w l" by (cases r) (auto simp: publish_section_def)
  then show "lp_expected l' = lp_expected l" "lp_last_hash l' = lp_last_hash l" "lp_current l' = lp_current l"
    by (simp_all add: set_world_def)
qed

text \<open>A turn that processed nothing but goes on has rotated: the check stays armed, or the ledger has changed.\<close>

lemma rotate_armed:
  assumes "rotate_section pl cfg tu l = (l', Inr u)" and "armed h l" and "lp_current l' = lp_current l"
  shows "armed h l'"
proof -
  obtain p gaps w res where r: "rotate_pool (on_gap_hook pl cfg (reg_of l)) (tu_net tu) (tu_pool_poll tu) (tu_now tu) (lp_current l) (cg_end cfg)
      (lp_pool l) (lp_gaps l, world l) = (p, (gaps, w), res)" by (metis surj_pair)
  with assms(1) obtain s where s: "res = Ok s" by (cases res) (auto simp: rotate_section_def)
  from assms(1) r s obtain m where
    p: "publish_section pl (map (gap_envelope (tu_now tu) (cg_network cfg)) (lp_gaps m)) m = (l', Inr u)" and
    c: "lp_current m = s" and e: "s = lp_current l \<Longrightarrow> lp_expected m = lp_last_hash l \<and> lp_last_hash m = lp_last_hash l"
    by (fastforce simp: rotate_section_def Let_def set_world_def)
  from publish_section_keeps [OF p] assms(2,3) c e show ?thesis by (simp add: armed_def)
qed

lemma ledger_turn_goes_on:
  assumes "ledger_turn pl cfg tu meta l = (l', Inr u)" and "fetch_section cfg tu l = Ok meta" and "\<not> tu_cancelled tu"
  shows "journal_entry pl cfg tu l \<noteq> []"
proof -
  from assms(1) obtain a l1 b l2 where "continuity_section meta l = (l1, Inr a)" "process_section pl tu meta l1 = (l2, Inr b)"
    unfolding ledger_turn_def by (auto elim!: then_doE)
  then have "then_do (continuity_section meta l) (\<lambda>_. process_section pl tu meta) = (l2, Inr b)" by (simp add: then_do_def)
  with assms(2,3) show ?thesis by (cases b) (simp add: journal_entry_def)
qed

lemma turn_without_ledger:
  assumes "turn_step pl cfg tu l = (l', Inr u)" and "journal_entry pl cfg tu l = []"
  shows "rotate_section pl cfg tu l = (l', Inr u)"
  using assms ledger_turn_goes_on by (fastforce simp: turn_step_def split: if_splits sum.splits)

lemma ingest_loop_extends: "ingest_loop pl cfg tus l log = (l', x, log') \<Longrightarrow> prefix log log'"
proof (induction tus arbitrary: l log)
  case Nil
  then show ?case by (auto simp: ingest_loop.simps split: if_splits)
next
  case (Cons tu tus)
  obtain l1 y where t: "turn_step pl cfg tu l = (l1, y)" by fastforce
  show ?case
  proof (cases y)
    case (Inl e)
    with Cons.prems t show ?thesis by (auto simp: ingest_loop.simps [of pl cfg "tu # tus"] split: if_splits)
  next
    case (Inr u)
    with Cons.prems t have "log' = log \<or> ingest_loop pl cfg tus l1 (log @ journal_entry pl cfg tu l) = (l', x, log')"
      by (auto simp: ingest_loop.simps [of pl cfg "tu # tus"] split: if_splits)
    with Cons.IH show ?thesis by (auto dest: append_prefixD)
  qed
qed

lemma loop_step:
  assumes "ingest_loop pl cfg (tu # tus) l log = (l', x, log @ new)" and "turn_step pl cfg tu l = (l1, y)"
  shows "new = [] \<or> (\<exists>rest. new = journal_entry pl cfg tu l @ rest \<and>
    (rest = [] \<or> (\<exists>u. y = Inr u \<and> ingest_loop pl cfg tus l1 (log @ journal_entry pl cfg tu l) = (l', x, (log @ journal_entry pl cfg tu l) @ rest))))"
proof (cases "cg_end cfg \<noteq> 0 \<and> lp_current l > cg_end cfg")
  case True
  with assms(1) show ?thesis by (auto simp: ingest_loop.simps [of pl cfg "tu # tus"])
next
  case False
  show ?thesis
  proof (cases y)
    case (Inl e)
    with assms False show ?thesis by (simp add: ingest_loop.simps [of pl cfg "tu # tus"] if_not_P [OF False])
  next
    case (Inr u)
    with assms False have g: "ingest_loop pl cfg tus l1 (log @ journal_entry pl cfg tu l) = (l', x, log @ new)"
      by (simp add: ingest_loop.simps [of pl cfg "tu # tus"] if_not_P [OF False])
    from ingest_loop_extends [OF g] obtain rest where "new = journal_entry pl cfg tu l @ rest" by (auto simp: prefix_def)
    with g Inr show ?thesis by simp
  qed
qed

section \<open>What is skipped is recorded first\<close>

definition in_gap :: "gap list \<Rightarrow> u32 \<Rightarrow> bool" where
  "in_gap gaps q \<longleftrightarrow> (\<exists>g\<in>set gaps. gap_from g \<le> q \<and> q \<le> gap_to g)"

lemma in_gap_prefix: "in_gap gaps q \<Longrightarrow> prefix gaps gaps' \<Longrightarrow> in_gap gaps' q"
  unfolding in_gap_def using set_mono_prefix by blast

lemma skipped_in_gap:
  assumes "skipped a b gaps gaps'" and "a \<noteq> 0" and "a \<le> q" and "q < b"
  shows "in_gap gaps' q"
proof -
  from assms(1,2) obtain gp where g: "gaps' = gaps @ [gp]" "gap_from gp = a" "unat (gap_to gp) + 1 = unat b"
    by (auto simp: skipped_def)
  have "q \<le> gap_to gp" using assms(4) g(3) by (simp add: word_le_nat_alt word_less_nat_alt)
  with g assms(3) show ?thesis by (auto simp: in_gap_def)
qed

text \<open>
  Between \<open>a\<close> and the current ledger everything was skipped, and since the history had \<open>n\<close> entries a
  record was saved that says so: its cursor stands right before the current ledger, and each number from
  \<open>a\<close> on lies in one of its gaps.
\<close>

definition told :: "u32 \<Rightarrow> u32 \<Rightarrow> happening list \<Rightarrow> bool" where
  "told a seq h \<longleftrightarrow> a < seq \<and> (\<exists>st. Saved st \<in> set h \<and> st_last_seq st = seq - 1 \<and> (\<forall>q. a \<le> q \<and> q < seq \<longrightarrow> in_gap (st_gaps st) q))"

definition leapt :: "('w \<Rightarrow> happening list) \<Rightarrow> nat \<Rightarrow> u32 \<Rightarrow> 'w ingest \<Rightarrow> bool" where
  "leapt hist n a l \<longleftrightarrow> n \<le> length (hist (world l)) \<and> told a (lp_current l) (drop n (hist (world l))) \<and>
     (\<forall>q. a \<le> q \<and> q < lp_current l \<longrightarrow> in_gap (lp_gaps l) q)"

lemma leapt_ahead: "leapt hist n a l \<Longrightarrow> a < lp_current l"
  by (simp add: leapt_def told_def)

lemma told_mono: "told a seq h \<Longrightarrow> set h \<subseteq> set h' \<Longrightarrow> told a seq h'"
  unfolding told_def by blast

lemma drop_prefix_subset: "prefix h h' \<Longrightarrow> set (drop n h) \<subseteq> set (drop n h')"
  by (auto simp: prefix_def)

context outside begin

text \<open>A hook that lets the process go on has saved the clamp that it was told of.\<close>

lemma hook_saved:
  assumes "one_gap (on_gap_hook pl cfg r) from (gaps, w) (gaps', w') (Ok s)" and "from \<noteq> 0"
  shows "s = from \<and> gaps' = gaps \<and> w' = w \<or>
    skipped from s gaps gaps' \<and> (\<exists>st. hist w' = hist w @ [Saved st] \<and> st_last_seq st = s - 1 \<and> st_gaps st = gaps')"
proof -
  from assms consider "gaps' = gaps" "w' = w" "s = from"
    | gp start where "on_gap_hook pl cfg r gp start (gaps, w) = ((gaps', w'), None)" "gap_from gp = from" "gap_from gp < start"
        "unat (gap_to gp) + 1 = unat start" "s = start"
    unfolding one_gap_def by blast
  then show ?thesis
  proof cases
    case (2 gp start)
    then have "gaps' = gaps @ [gp]" "pl_save pl (snapshot_state cfg r (s - 1) [] (gaps @ [gp])) w = (w', None)"
      by (auto simp: on_gap_hook_def split: prod.splits)
    with 2 save_done [OF this(2)] show ?thesis unfolding skipped_def by (auto simp: snapshot_state_def)
  qed simp
qed

lemma told_step:
  assumes "skipped from s gaps gaps'" and "a \<noteq> 0" and "a \<le> from" and "\<forall>q. a \<le> q \<and> q < from \<longrightarrow> in_gap gaps q"
    and "Saved st \<in> set h" and "st_last_seq st = s - 1" and "st_gaps st = gaps'"
  shows "told a s h \<and> (\<forall>q. a \<le> q \<and> q < s \<longrightarrow> in_gap gaps' q)"
proof -
  have nz: "from \<noteq> 0" using assms(2,3) by auto
  with assms(1) have s: "from < s" "prefix gaps gaps'" by (auto simp: skipped_def)
  have "in_gap gaps' q" if "a \<le> q" "q < s" for q
  proof (cases "q < from")
    case True
    with assms(4) that(1) in_gap_prefix [OF _ s(2)] show ?thesis by blast
  next
    case False
    with skipped_in_gap [OF assms(1) nz _ that(2)] show ?thesis by simp
  qed
  with assms(3,5-7) s(1) show ?thesis unfolding told_def by (auto intro!: exI [of _ st])
qed

lemma rotate_leaps:
  assumes "rotate_section pl cfg tu l = (l', Inr u)" and "reg_inv (reg_of l)" and "a \<noteq> 0" and "n \<le> length (hist (world l))"
    and "lp_current l = a \<or> leapt hist n a l"
  shows "reg_inv (reg_of l') \<and> n \<le> length (hist (world l')) \<and> (lp_current l = a \<and> lp_current l' = a \<or> leapt hist n a l')"
proof -
  obtain p gaps w res where r: "rotate_pool (on_gap_hook pl cfg (reg_of l)) (tu_net tu) (tu_pool_poll tu) (tu_now tu) (lp_current l) (cg_end cfg)
      (lp_pool l) (lp_gaps l, world l) = (p, (gaps, w), res)" by (metis surj_pair)
  with assms(1) obtain s where s: "res = Ok s" by (cases res) (auto simp: rotate_section_def)
  from assms(1) r s obtain m where
    p: "publish_section pl (map (gap_envelope (tu_now tu) (cg_network cfg)) (lp_gaps m)) m = (l', Inr u)" and
    m: "lp_current m = s" "lp_gaps m = gaps" "world m = w" "reg_of m = reg_of l"
    by (fastforce simp: rotate_section_def Let_def set_world_def)
  have "stays hist good (\<lambda>_. False) m l'" by (rule publish_section_stays(1) [OF p]) (simp add: m assms(2))
  then have l': "lp_current l' = s" "lp_gaps l' = gaps" "reg_inv (reg_of l')" "prefix (hist w) (hist (world l'))"
    by (auto simp: stays_def m dest: emits_prefix)
  have a: "a \<le> lp_current l" "\<forall>q. a \<le> q \<and> q < lp_current l \<longrightarrow> in_gap (lp_gaps l) q"
    using assms(5) by (auto simp: leapt_def told_def)
  then have nz: "lp_current l \<noteq> 0" using assms(3) by auto
  from hook_saved [OF rotate_gap [OF r, unfolded s] nz] show ?thesis
  proof (elim disjE conjE exE)
    assume e: "s = lp_current l" "gaps = lp_gaps l" "w = world l"
    then have "prefix (hist (world l)) (hist (world l'))" "n \<le> length (hist (world l'))"
      using l'(4) assms(4) prefix_length_le le_trans by blast+
    with e l' assms(5) told_mono [OF _ drop_prefix_subset] show ?thesis by (auto simp: leapt_def)
  next
    fix st
    assume k: "skipped (lp_current l) s (lp_gaps l) gaps" "hist w = hist (world l) @ [Saved st]" "st_last_seq st = s - 1" "st_gaps st = gaps"
    from l'(4) k(2) obtain rest where h: "hist (world l') = hist (world l) @ Saved st # rest" by (auto simp: prefix_def)
    with assms(4) have "Saved st \<in> set (drop n (hist (world l')))" "n \<le> length (hist (world l'))" by auto
    with told_step [OF k(1) assms(3) a _ k(3,4)] l' show ?thesis by (auto simp: leapt_def)
  qed
qed

end

text \<open>The first ledger that a loop processes is the expected one, which then descends, or a later one behind recorded gaps.\<close>

definition starts_right :: "('w \<Rightarrow> happening list) \<Rightarrow> nat \<Rightarrow> ingest_config \<Rightarrow> turn list \<Rightarrow> u32 \<Rightarrow> string \<Rightarrow> 'w journal \<Rightarrow> bool" where
  "starts_right hist n cfg tus a h log \<longleftrightarrow>
     (case log of [] \<Rightarrow> True
      | (w, seq, ids) # rest \<Rightarrow> seq = a \<and> (\<exists>tu\<in>set tus. descends cfg tu seq h) \<or> told a seq (drop n (hist w)))"

context outside begin

lemma first_ledger:
  assumes "ingest_loop pl cfg tus l log = (l', x, log @ new)" and "reg_inv (reg_of l)" and "a \<noteq> 0" and "n \<le> length (hist (world l))"
    and "lp_current l = a \<and> armed h l \<or> leapt hist n a l"
  shows "starts_right hist n cfg tus a h new"
  using assms(1,2,4,5)
proof (induction tus arbitrary: l)
  case Nil
  then show ?case by (auto simp: ingest_loop.simps starts_right_def split: if_splits)
next
  case (Cons tu tus)
  obtain l1 y where t: "turn_step pl cfg tu l = (l1, y)" by fastforce
  from loop_step [OF Cons.prems(1) t] consider "new = []"
    | rest where "new = journal_entry pl cfg tu l @ rest" "journal_entry pl cfg tu l \<noteq> []"
    | u where "y = Inr u" "journal_entry pl cfg tu l = []" "ingest_loop pl cfg tus l1 log = (l', x, log @ new)"
    by (cases "journal_entry pl cfg tu l = []") auto
  then show ?case
  proof cases
    case (2 rest)
    with journal_entry_cases [of pl cfg tu l] journal_descends [OF 2(2)] Cons.prems(4) show ?thesis
      by (auto simp: starts_right_def leapt_def)
  next
    case (3 u)
    have r: "rotate_section pl cfg tu l = (l1, Inr u)" by (rule turn_without_ledger [OF t [unfolded 3(1)] 3(2)])
    note R = rotate_leaps [OF r Cons.prems(2) assms(3) Cons.prems(3)]
    have "lp_current l1 = a \<and> armed h l1 \<or> leapt hist n a l1"
      using Cons.prems(4) R rotate_armed [OF r] leapt_ahead [of hist n a l] by auto
    from Cons.IH [OF 3(3) _ _ this] R Cons.prems(4) show ?thesis by (auto simp: starts_right_def split: list.splits)
  qed (simp add: starts_right_def)
qed

end

lemma boot_started:
  assumes "boot pl cfg bi w = (w', Inr l)" and "pl_load pl w = (w1, st, lerr)" and "resume_decision cfg st lerr = Ok rs"
  shows "\<exists>reg q gaps w3 start. l = boot_state pl cfg bi rs reg q gaps start w3 \<and> boot_registry cfg bi rs = Ok reg \<and>
    (\<exists>w2. connect (on_gap_hook pl cfg reg) (bi_net bi) (bi_poll bi) (bi_now bi) (rs_start rs) (cg_end cfg) (bi_pool bi) (rs_gaps rs, w1)
      = (q, (gaps, w2), Ok start) \<and> publish_gaps (pl_publish pl) (bi_now bi) (cg_network cfg) gaps w2 = (w3, Delivered))"
proof -
  from assms obtain reg where reg: "boot_registry cfg bi rs = Ok reg" and s: "bi_sink bi = None"
    by (auto simp: boot_def split: sum.splits option.splits)
  obtain q gaps w2 res where c: "connect (on_gap_hook pl cfg reg) (bi_net bi) (bi_poll bi) (bi_now bi) (rs_start rs) (cg_end cfg)
      (bi_pool bi) (rs_gaps rs, w1) = (q, (gaps, w2), res)" by (metis surj_pair)
  from assms reg s c obtain start where res: "res = Ok start" by (cases res) (auto simp: boot_def)
  obtain w3 r where b: "publish_gaps (pl_publish pl) (bi_now bi) (cg_network cfg) gaps w2 = (w3, r)" by fastforce
  have "l = boot_state pl cfg bi rs reg q gaps start w3 \<and> r = Delivered" using assms reg s c res b by (cases r) (auto simp: boot_def)
  with reg c res b show ?thesis by blast
qed

context outside begin

text \<open>The first ledger of a loop that was booted on a record with a hash, with the cursor before the last number.\<close>

lemma booted_loop_starts:
  assumes "boot pl cfg bi s = (sb, Inr l)" and "pl_load pl s = (s1, old, None)" and "st_last_seq old \<noteq> - 1" and "st_last_hash old \<noteq> []"
    and "ingest_loop pl cfg tus l [] = (l', z, log)"
  shows "starts_right hist (length (hist s)) cfg tus (st_last_seq old + 1) (st_last_hash old) log"
proof -
  from assms(1,2) obtain rs where rs: "resume_decision cfg old None = Ok rs" by (auto simp: boot_def split: sum.splits)
  note start = resume_start [OF rs]
  have rs': "rs_resumed rs" "rs_hash rs = st_last_hash old" "rs_last_seq rs = st_last_seq old"
    using rs by (auto simp: resume_decision_def Let_def split: if_splits)
  have nz: "rs_start rs \<noteq> 0" using start assms(3) by (simp add: eq_neg_iff_add_eq_0)
  from boot_started [OF assms(1,2) rs] obtain reg q gaps w3 s0 w2 where
    L: "l = boot_state pl cfg bi rs reg q gaps s0 w3" and reg: "boot_registry cfg bi rs = Ok reg" and
    c: "connect (on_gap_hook pl cfg reg) (bi_net bi) (bi_poll bi) (bi_now bi) (rs_start rs) (cg_end cfg) (bi_pool bi) (rs_gaps rs, s1)
      = (q, (gaps, w2), Ok s0)" and w3: "publish_gaps (pl_publish pl) (bi_now bi) (cg_network cfg) gaps w2 = (w3, Delivered)"
    by blast
  have l: "reg_of l = reg" "lp_current l = s0" "world l = w3" "lp_gaps l = gaps" by (simp_all add: L boot_state_def Let_def)
  have w: "hist s1 = hist s" "prefix (hist w2) (hist w3)"
    using load_any [OF assms(2)] publish_all_any [OF w3 [unfolded publish_gaps_def]] by (auto dest: emits_prefix)
  have e: "lp_current l = rs_start rs \<and> armed (st_last_hash old) l \<or> leapt hist (length (hist s)) (rs_start rs) l"
    and n: "length (hist s) \<le> length (hist (world l))"
  proof -
    from hook_saved [OF connect_gap [OF c] nz]
    show "lp_current l = rs_start rs \<and> armed (st_last_hash old) l \<or> leapt hist (length (hist s)) (rs_start rs) l"
    proof (elim disjE conjE exE)
      assume "s0 = rs_start rs"
      with assms(4) start rs' show ?thesis by (simp add: armed_def L boot_state_def Let_def)
    next
      fix st
      assume k: "skipped (rs_start rs) s0 (rs_gaps rs) gaps" "hist w2 = hist s1 @ [Saved st]" "st_last_seq st = s0 - 1" "st_gaps st = gaps"
      from w k(2) obtain rest where h: "hist w3 = hist s @ Saved st # rest" by (auto simp: prefix_def)
      then have "Saved st \<in> set (drop (length (hist s)) (hist w3))" by simp
      have "\<forall>q. rs_start rs \<le> q \<and> q < rs_start rs \<longrightarrow> in_gap (rs_gaps rs) q" by auto
      from told_step [OF k(1) nz order_refl this \<open>Saved st \<in> _\<close> k(3,4)] h l show ?thesis by (auto simp: leapt_def)
    qed
    from hook_saved [OF connect_gap [OF c] nz] w prefix_length_le [OF w(2)] show "length (hist s) \<le> length (hist (world l))"
      by (auto simp: l)
  qed
  have g: "ingest_loop pl cfg tus l [] = (l', z, [] @ log)" using assms(5) by simp
  from first_ledger [OF g _ nz n e] boot_registry_inv [OF reg] l(1) start show ?thesis by simp
qed

end



section \<open>A quiet ledger for the examples\<close>

text \<open>A turn at the tip, over a ledger without transactions, with a broker and a disk that always answer well.\<close>

definition null_plant :: "unit plant" where
  "null_plant = \<lparr>pl_sdk = sample_sdk, pl_entries = (\<lambda>_. no_entries), pl_publish = (\<lambda>_ w. (w, Delivered)),
     pl_load = (\<lambda>w. (w, sample_record, None)), pl_save = (\<lambda>_ w. (w, None)), pl_parse_url = (\<lambda>_. None)\<rparr>"

definition quiet_meta :: ledger_meta where
  "quiet_meta = tip_meta\<lparr>lm_reads := []\<rparr>"

definition quiet_resumption :: resumption where
  "quiet_resumption = \<lparr>rs_start = 101, rs_escrows = [], rs_removed = [], rs_gaps = [], rs_last_seq = 100, rs_hash = ''01'',
     rs_resumed = True, rs_recovered = False\<rparr>"

definition quiet_start :: "unit ingest" where
  "quiet_start = boot_state null_plant sample_config sample_boot quiet_resumption sample_registry two_pool [] 101 ()"

lemma quiet_turn: "snd (ledger_turn null_plant sample_config tip_turn quiet_meta quiet_start) = Inr ()"
  by code_simp

section \<open>What a restart accepts and restores\<close>

text \<open>A record of another network ends the process before it touches anything, whatever the store's answer was.\<close>

lemma foreign_record_refused:
  assumes "pl_load pl w = (w1, st, lerr)" and "st_network st \<noteq> []" and "st_network st \<noteq> cg_passphrase cfg"
    and "lerr = None \<or> lerr = Some ErrStateNotFound \<and> length (st_escrows st) + length (st_removed st) + length (st_gaps st) > 0"
  shows "\<exists>e. ingest_process pl cfg bi tus w = (w1, Some (ReturnsErr e), [])"
proof -
  from assms(2-4) obtain e where "resume_decision cfg st lerr = Err e" by (auto simp: resume_decision_def Let_def)
  with assms(1) show ?thesis by (simp add: ingest_process_def boot_def)
qed

text \<open>
  C8. State of another network is refused. A process that finds a record written for another network passphrase
  returns an error without processing a ledger, and leaves the disk and the broker as they were.
\<close>

theorem foreign_state_refused:
  assumes "ingest_process (station_plant sdk rpc parse k broker wait flt) cfg bi tus s = (s', x, log)"
    and "loaded (sn_disk s) p = (old, None)" and "sn_store s = fresh p" and "st_network old \<notin> {[], cg_passphrase cfg}"
  shows "log = [] \<and> (\<exists>e. x = Some (ReturnsErr e)) \<and> sn_disk s' = sn_disk s \<and> sn_rabbit s' = sn_rabbit s \<and> sn_hist s' = sn_hist s"
proof -
  let ?pl = "station_plant sdk rpc parse k broker wait flt"
  from station_load_fresh [OF assms(3,2)] obtain store where
    "pl_load ?pl s = (s\<lparr>sn_store := store\<rparr>, old, None)" by auto
  from foreign_record_refused [OF this, of cfg bi tus] assms(4)
  obtain e where "ingest_process ?pl cfg bi tus s = (s\<lparr>sn_store := store\<rparr>, Some (ReturnsErr e), [])" by auto
  with assms(1) show ?thesis by auto
qed

lemma foreign_state_refused_witness:
  "\<exists>s' x. ingest_process sample_plant (sample_config\<lparr>cg_passphrase := ''Public''\<rparr>) sample_boot [tip_turn, stop_turn] sample_station = (s', x, []) \<and>
     (\<exists>e. x = Some (ReturnsErr e)) \<and> sn_disk s' = disk_of sample_record"
proof -
  let ?cfg = "sample_config\<lparr>cg_passphrase := ''Public''\<rparr>"
  obtain s' x log where r: "ingest_process sample_plant ?cfg sample_boot [tip_turn, stop_turn] sample_station = (s', x, log)"
    by (metis prod_cases3)
  have "log = [] \<and> (\<exists>e. x = Some (ReturnsErr e)) \<and> sn_disk s' = sn_disk sample_station \<and> sn_rabbit s' = sn_rabbit sample_station \<and>
    sn_hist s' = sn_hist sample_station"
    by (rule foreign_state_refused [OF r [unfolded sample_plant_def] sample_loaded]) (simp_all add: sample_station_def sample_record_def)
  with r show ?thesis by (simp add: sample_station_def)
qed

text \<open>
  C7. A restart restores the watchlist. A process that reads a record with the lists of a consistent registry follows
  the escrows of that registry, keeps its tombstones, and carries over every recorded gap.
\<close>

theorem boot_restores_watchlist:
  assumes "boot (station_plant sdk rpc parse k broker wait flt) cfg bi s = (s', Inr l)"
    and "loaded (sn_disk s) p = (old, None)" and "sn_store s = fresh p" and "\<not> cg_replay cfg"
    and "reg_inv r" and "st_escrows old = snapshot r" and "st_removed old = removed_snapshot r"
  shows "escrows (reg_of l) = escrows r \<and> removed (reg_of l) = removed r \<and> (\<forall>id. is_escrow (reg_of l) id \<longleftrightarrow> is_escrow r id) \<and>
    set (st_gaps old) \<subseteq> set (lp_gaps l)"
proof -
  let ?pl = "station_plant sdk rpc parse k broker wait flt"
  from station_load_fresh [OF assms(3,2)] obtain store where
    l1: "pl_load ?pl s = (s\<lparr>sn_store := store\<rparr>, old, None)" by auto
  obtain rs where rs: "resume_decision cfg old None = Ok rs"
    using assms(1) l1 by (auto simp: boot_def split: sum.splits)
  then have rs': "rs_resumed rs" "rs_escrows rs = snapshot r" "rs_removed rs = removed_snapshot r"
    using assms(6,7) by (auto simp: resume_decision_def Let_def split: if_splits)
  from boot_started [OF assms(1) l1 rs] obtain reg q gaps w3 start w2 where
    L: "l = boot_state ?pl cfg bi rs reg q gaps start w3" and reg: "boot_registry cfg bi rs = Ok reg" and
    c: "connect (on_gap_hook ?pl cfg reg) (bi_net bi) (bi_poll bi) (bi_now bi) (rs_start rs) (cg_end cfg) (bi_pool bi)
      (rs_gaps rs, s\<lparr>sn_store := store\<rparr>) = (q, (gaps, w2), Ok start)" by blast
  from reg assms(4) rs' obtain r0 where r0: "new_registry (cg_hashes cfg) = Ok r0"
    and "reg = restore r0 (removed_snapshot r) (snapshot r)"
    by (auto simp: boot_registry_def restore_def split: sum.splits)
  moreover have "escrows r0 = {} \<and> removed r0 = {}" using r0 by (auto simp: new_registry_def split: sum.splits)
  ultimately have reg': "escrows reg = escrows r \<and> removed reg = removed r"
    using restore_snapshots [OF assms(5)] by simp
  have "reg_inv reg" by (rule boot_registry_inv [OF reg])
  note H = station.hook_effect [where cur = False and p = "[]" and before = "[]" and ?n0.0 = 0, OF connect_gap [OF c] \<open>reg_inv reg\<close>]
  then have "set (rs_gaps rs) \<subseteq> set gaps" by (simp add: set_mono_prefix)
  with reg' resume_start [OF rs] show ?thesis by (simp add: L boot_state_def Let_def is_escrow_def)
qed

definition kept_registry :: registry where
  "kept_registry = reg_run sample_registry [OpTrack ''CA'', OpRemove ''CB'']"

definition kept_station :: station where
  "kept_station = sample_station\<lparr>sn_disk := disk_of (sample_record\<lparr>st_escrows := [''CA''], st_removed := [''CB'']\<rparr>)\<rparr>"

lemma kept_sets: "escrows kept_registry = {''CA''}" "removed kept_registry = {''CB''}"
  by (simp_all add: kept_registry_def reg_run_def reg_simps sample_registry_def)

lemma sample_boots: "\<exists>l. snd (boot sample_plant sample_config sample_boot kept_station) = Inr l"
proof -
  have "case snd (boot sample_plant sample_config sample_boot kept_station) of Inl x \<Rightarrow> False | Inr l \<Rightarrow> True" by code_simp
  then show ?thesis by (simp split: sum.splits)
qed

lemma boot_restores_watchlist_witness:
  "\<exists>s' l. boot sample_plant sample_config sample_boot kept_station = (s', Inr l) \<and> is_escrow (reg_of l) ''CA'' \<and> removed (reg_of l) = {''CB''}"
proof -
  let ?old = "sample_record\<lparr>st_escrows := [''CA''], st_removed := [''CB'']\<rparr>"
  from sample_boots obtain s' l where r: "boot sample_plant sample_config sample_boot kept_station = (s', Inr l)"
    by (metis prod.collapse)
  have "holds_pair (sn_disk kept_station) ''s.json'' ?old ?old" by (simp add: kept_station_def disk_of_holds)
  from holds_pair_loaded [OF this] have h: "loaded (sn_disk kept_station) ''s.json'' = (?old, None)"
    by (simp add: stamped_def as_text_def sample_record_def json_text_ascii current_version_def)
  have i: "reg_inv kept_registry" by (simp add: kept_registry_def reg_run_inv sample_inv)
  have "escrows (reg_of l) = escrows kept_registry \<and> removed (reg_of l) = removed kept_registry \<and>
    (\<forall>id. is_escrow (reg_of l) id \<longleftrightarrow> is_escrow kept_registry id) \<and> set (st_gaps ?old) \<subseteq> set (lp_gaps l)"
    by (rule boot_restores_watchlist [OF r [unfolded sample_plant_def] h _ _ i])
      (simp_all add: kept_station_def sample_station_def sample_config_def snapshot_def removed_snapshot_def kept_sets sort_keys_def)
  with r show ?thesis by (simp add: kept_sets is_escrow_def)
qed

end
