(* ===== verification/Faults.thy ===== *)
theory Faults
  imports Resume
begin

text \<open>
  Behaviours of the composed program that its comments or documents do not intend, each proved of the model:
  a ledger that no restart gets past, and a chain check that refuses the right chain.
\<close>

section \<open>A ledger that no restart gets past\<close>

lemma validate_errors: "validate e = Some er \<Longrightarrow> \<exists>m. er = ErrEnvelopeInvalid m"
  by (auto simp: validate_def Let_def split: if_splits event_type.splits option.splits)

lemma station_publish_invalid:
  assumes "validate e = Some er"
  shows "\<exists>s'. station_publish k broker wait e s = (s', Refused er)"
proof -
  from validate_errors [OF assms] have "er \<noteq> ErrSinkPublishRejected" by auto
  then have "pipeline_publish k broker w e r = (r, Refused er)" for w r
    using assms by (simp add: pipeline_publish_def bp_publish_def rabbit_publish_def bp_loop.simps)
  then show ?thesis by (simp add: station_publish_def Let_def)
qed

lemma station_publish_disk: "station_publish k broker wait e s = (s', r) \<Longrightarrow> sn_disk s' = sn_disk s"
  by (auto simp: station_publish_def Let_def split: prod.splits)

lemma nameless_batch_refused:
  assumes "e \<in> set es" and "validate e \<noteq> None" and "publish_all (station_publish k broker wait) es s = (s', r)"
  shows "r \<noteq> Delivered \<and> sn_disk s' = sn_disk s"
  using assms
proof (induction es arbitrary: s)
  case (Cons f es)
  obtain s1 r1 where p: "station_publish k broker wait f s = (s1, r1)" by fastforce
  note d = station_publish_disk [OF p]
  show ?case
  proof (cases "r1 = Delivered")
    case True
    have "validate f = None"
    proof (rule ccontr)
      assume "validate f \<noteq> None"
      then obtain er s2 where "station_publish k broker wait f s = (s2, Refused er)" using station_publish_invalid by blast
      with p True show False by simp
    qed
    with Cons.prems have "e \<in> set es" by auto
    with Cons.IH [of s1] Cons.prems p True d show ?thesis by auto
  next
    case False
    with Cons.prems(3) p d show ?thesis by (cases r1) auto
  qed
qed simp

text \<open>
  C9. A ledger with a nameless event stops the indexer for good. If processing a ledger detects an escrow event
  whose first topic is not a symbol, so that its kind is empty, the turn ends the process and leaves the disk
  as it was: every restart resumes before the same ledger.
\<close>

theorem nameless_event_blocks_ledger:
  assumes "ledger_turn (station_plant sdk rpc parse k broker wait flt) cfg tu meta l = (l', r)"
    and "process_ledger sdk (tu_process_poll tu) meta (reg_of l) = (reg, Ok (facts, active))"
    and "ev \<in> set facts" and "ee_type ev = EscrowEventTypeEvent" and "ee_event_kind ev = []"
  shows "(\<exists>x. r = Inl x) \<and> sn_disk (world l') = sn_disk (world l)"
proof -
  let ?pl = "station_plant sdk rpc parse k broker wait flt"
  obtain l1 a where c: "continuity_section meta l = (l1, a)" by fastforce
  show ?thesis
  proof (cases a)
    case (Inl x)
    with c have "l1 = l" by (auto simp: continuity_section_def split: if_splits option.splits)
    with assms(1) c Inl show ?thesis by (auto simp: ledger_turn_def then_do_def)
  next
    case (Inr u)
    with c have same: "reg_of l1 = reg_of l" "world l1 = world l"
      by (auto simp: continuity_section_def split: if_splits option.splits)
    then obtain l2 where p: "process_section ?pl tu meta l1 = (l2, Inr (facts, active))" and w2: "world l2 = world l"
      using assms(2) by (simp add: process_section_def)
    obtain w res where q: "publish_all (station_publish k broker wait) (fact_envelopes cfg tu facts) (world l2) = (w, res)" by fastforce
    have e: "from_escrow_event (tu_now tu) (cg_network cfg) ev \<in> set (fact_envelopes cfg tu facts)"
      using assms(3) by (simp add: fact_envelopes_def)
    have v: "validate (from_escrow_event (tu_now tu) (cg_network cfg) ev) \<noteq> None"
      using assms(4,5) by (simp add: validate_def from_escrow_event_def Let_def)
    from nameless_batch_refused [OF e v q] have b: "res \<noteq> Delivered" "sn_disk w = sn_disk (world l)" by (simp_all add: w2)
    then obtain l3 x where "publish_section ?pl (fact_envelopes cfg tu facts) l2 = (l3, Inl x)" "world l3 = w"
      using q by (cases res) (auto simp: publish_section_def set_world_def)
    with assms(1) c Inr p b show ?thesis by (auto simp: ledger_turn_def then_do_def)
  qed
qed

definition mute_meta :: ledger_meta where
  "mute_meta = tip_meta\<lparr>lm_reads := map Ret [deploy_tx, mute_tx]\<rparr>"

definition mute_start :: "station ingest" where
  "mute_start = boot_state sample_plant sample_config sample_boot quiet_resumption sample_registry two_pool [] 101 sample_station"

lemma mute_ledger:
  "process_ledger sample_sdk (tu_process_poll tip_turn) mute_meta (reg_of mute_start) =
     (sample_registry\<lparr>escrows := {''C0102''}\<rparr>, Ok ([mute_fact], [''C0102'']))"
proof -
  have "read_loop (map Ret txs) acc = Ret (acc @ txs)" for txs acc
    by (induction txs arbitrary: acc) simp_all
  then have "read_ledger_transactions mute_meta = Ret [deploy_tx, mute_tx]"
    by (simp add: read_ledger_transactions_def mute_meta_def tip_meta_def)
  with mute_process show ?thesis
    by (simp add: process_ledger_def tip_turn_def mute_start_def boot_state_def Let_def)
qed

lemma nameless_event_blocks_ledger_witness:
  "\<exists>l' x. ledger_turn sample_plant sample_config tip_turn mute_meta mute_start = (l', Inl x) \<and> sn_disk (world l') = disk_of sample_record"
proof -
  obtain l' r where t: "ledger_turn sample_plant sample_config tip_turn mute_meta mute_start = (l', r)" by fastforce
  have "(\<exists>x. r = Inl x) \<and> sn_disk (world l') = sn_disk (world mute_start)"
    by (rule nameless_event_blocks_ledger [where ev = mute_fact, OF t [unfolded sample_plant_def] mute_ledger])
      (simp_all add: mute_fact_def build_fact_def)
  with t show ?thesis by (auto simp: mute_start_def boot_state_def sample_station_def Let_def)
qed

section \<open>A chain check that refuses the right chain\<close>

lemma rotate_anchor:
  assumes "rotate_section pl cfg tu l = (l', Inr u)"
  shows "lp_last_hash l' = lp_last_hash l \<and> lp_expected l' = (if lp_current l' = lp_current l then lp_last_hash l else [])"
proof -
  obtain p gaps w res where r: "rotate_pool (on_gap_hook pl cfg (reg_of l)) (tu_net tu) (tu_pool_poll tu) (tu_now tu) (lp_current l) (cg_end cfg)
      (lp_pool l) (lp_gaps l, world l) = (p, (gaps, w), res)" by (metis surj_pair)
  with assms obtain s where s: "res = Ok s" by (cases res) (auto simp: rotate_section_def)
  from assms r s obtain m where
    p: "publish_section pl (map (gap_envelope (tu_now tu) (cg_network cfg)) (lp_gaps m)) m = (l', Inr u)" and
    m: "lp_current m = s" "lp_last_hash m = lp_last_hash l" "lp_expected m = (if s = lp_current l then lp_last_hash l else [])"
    by (fastforce simp: rotate_section_def Let_def set_world_def)
  from publish_section_keeps [OF p] m show ?thesis by simp
qed

lemma turn_rotates:
  assumes "turn_step pl cfg tu l = (l', Inr u)" and "fetch_section cfg tu l = Err e"
  shows "rotate_section pl cfg tu l = (l', Inr u)"
  using assms by (auto simp: turn_step_def split: if_splits)

text \<open>
  C39. The hash that a rotation arms the divergence check with can be stale. When an endpoint gives up and the next one
  makes the start jump, the check is disarmed, but the hash of the last ledger processed before the gap is kept;
  when that endpoint gives up too, and the rotation stays at the new start, the check is armed with this hash:
  then every ledger that claims another parent, as the ledger behind a gap does, ends the process with a
  divergence.
\<close>

theorem stale_anchor_refuses_ledger:
  assumes "turn_step pl cfg tu1 l = (l1, Inr u1)" and "fetch_section cfg tu1 l = Err e1" and "lp_current l1 \<noteq> lp_current l"
    and "turn_step pl cfg tu2 l1 = (l2, Inr u2)" and "fetch_section cfg tu2 l1 = Err e2" and "lp_current l2 = lp_current l1"
    and "\<not> tu_cancelled tu3" and "fetch_section cfg tu3 l2 = Ok meta"
    and "lm_prev_hash meta = Some prev" and "\<not> equal_fold (hex_encode prev) (lp_last_hash l)" and "lp_last_hash l \<noteq> []"
  shows "lp_expected l1 = [] \<and> lp_expected l2 = lp_last_hash l \<and>
    turn_step pl cfg tu3 l2 = (l2, Inl (ReturnsErr (ErrOther ''state diverged'')))"
proof -
  note 1 = rotate_anchor [OF turn_rotates [OF assms(1,2)]]
  note 2 = rotate_anchor [OF turn_rotates [OF assms(4,5)]]
  from 1 2 assms(3,6) have l: "lp_expected l1 = []" "lp_expected l2 = lp_last_hash l" by simp_all
  then have "ledger_turn pl cfg tu3 meta l2 = (l2, Inl (ReturnsErr (ErrOther ''state diverged'')))"
    using assms(9-11) by (simp add: ledger_turn_def then_do_def continuity_section_def verify_chain_continuity_def)
  with l assms(7,8) show ?thesis by (simp add: turn_step_def)
qed

text \<open>
  A run at ledger 101, with hash 01 for ledger 100: the endpoint stalls and the next one has lost everything
  before ledger 200; it stalls as well, and one that serves ledger 200 takes over.
\<close>

definition stall_turn :: "u32 \<Rightarrow> turn" where
  "stall_turn oldest = tip_turn\<lparr>tu_get := (\<lambda>_. Miss [] None True), tu_net := (\<lambda>_ _. endpoint oldest)\<rparr>"

definition after_stalls :: "(unit, unit) section_result" where
  "after_stalls = (turn_step null_plant sample_config (stall_turn 2) (fst (turn_step null_plant sample_config (stall_turn 200) quiet_start)))"

lemma after_clamp:
  "case turn_step null_plant sample_config (stall_turn 200) quiet_start of (l, r) \<Rightarrow> r = Inr () \<and> lp_current l = 200"
  by code_simp

lemma after_stalls:
  "case after_stalls of (l, r) \<Rightarrow> r = Inr () \<and> lp_current l = 200"
  by code_simp

lemma stall_fetch [simp]: "fetch_section cfg (stall_turn o1) l = Err ErrTipStalled"
  by (simp add: fetch_section_def stall_turn_def tip_turn_def fetch_ledger_with_retry_def fetch_loop.simps max_ledger_fetch_retries_def)

lemma got_fetch [simp]: "fetch_section cfg (tip_turn\<lparr>tu_get := (\<lambda>_. Got m)\<rparr>) l = Ok m"
  by (simp add: fetch_section_def tip_turn_def fetch_ledger_with_retry_def fetch_loop.simps max_ledger_fetch_retries_def)

lemma stale_anchor_refuses_ledger_witness:
  "\<exists>l1 l2. turn_step null_plant sample_config (stall_turn 200) quiet_start = (l1, Inr ()) \<and>
     turn_step null_plant sample_config (stall_turn 2) l1 = (l2, Inr ()) \<and>
     turn_step null_plant sample_config (tip_turn\<lparr>tu_get := (\<lambda>_. Got (quiet_meta\<lparr>lm_prev_hash := Some [199]\<rparr>))\<rparr>) l2
       = (l2, Inl (ReturnsErr (ErrOther ''state diverged'')))"
proof -
  let ?m = "quiet_meta\<lparr>lm_prev_hash := Some [199]\<rparr>"
  obtain l1 where 1: "turn_step null_plant sample_config (stall_turn 200) quiet_start = (l1, Inr ())" "lp_current l1 = 200"
    using after_clamp by (auto split: prod.splits)
  with after_stalls obtain l2 where 2: "turn_step null_plant sample_config (stall_turn 2) l1 = (l2, Inr ())" "lp_current l2 = 200"
    by (auto simp: after_stalls_def)
  have q: "lp_current quiet_start = 101" "lp_last_hash quiet_start = ''01''"
    by (simp_all add: quiet_start_def quiet_resumption_def boot_state_def Let_def)
  have h: "\<not> equal_fold (hex_encode [199]) ''01''" "\<not> equal_fold [hex_char 12, hex_char 7] ''01''" by code_simp+
  have "lp_expected l1 = [] \<and> lp_expected l2 = lp_last_hash quiet_start \<and>
    turn_step null_plant sample_config (tip_turn\<lparr>tu_get := (\<lambda>_. Got ?m)\<rparr>) l2 = (l2, Inl (ReturnsErr (ErrOther ''state diverged'')))"
    by (rule stale_anchor_refuses_ledger [OF 1(1) stall_fetch _ 2(1) stall_fetch, where prev = "[199]" and meta = ?m])
      (simp_all add: 1(2) 2(2) q h, simp add: tip_turn_def)
  with 1 2 show ?thesis by blast
qed

end
