(* ===== verification/Crash.thy ===== *)
theory Crash
  imports Resume
begin

text \<open>
  How much of its work a crash can cost: how far the cursor on the disk can stay behind the ledgers that were
  processed.
\<close>

section \<open>The sections and the checkpoint\<close>

lemma publish_section_checkpoint: "publish_section pl es l = (l', x) \<Longrightarrow> lp_checkpoint l' = lp_checkpoint l"
  by (auto simp: publish_section_def set_world_def split: prod.splits publish_result.splits)

lemma save_section_checkpoint: "save_section pl st l = (l', x) \<Longrightarrow> lp_checkpoint l' = lp_checkpoint l \<and> lp_current l' = lp_current l"
  by (auto simp: save_section_def set_world_def split: prod.splits option.splits)

lemma early_sections_checkpoint:
  "continuity_section meta l = (l', x) \<Longrightarrow> lp_checkpoint l' = lp_checkpoint l \<and> lp_current l' = lp_current l"
  "process_section pl tu meta l = (l', y) \<Longrightarrow> lp_checkpoint l' = lp_checkpoint l \<and> lp_current l' = lp_current l"
  "lp_checkpoint (report_section tu meta a b l) = lp_checkpoint l \<and> lp_current (report_section tu meta a b l) = lp_current l"
  by (auto simp: continuity_section_def process_section_def report_section_def Let_def split: if_splits option.splits prod.splits sum.splits)

lemma then_count_checkpoint:
  assumes "then_do (publish_section pl es l) (\<lambda>_ l. (l, Inr n)) = (l', x)"
  shows "lp_checkpoint l' = lp_checkpoint l \<and> lp_current l' = lp_current l"
  using assms by (auto elim!: then_doE dest: publish_section_checkpoint publish_section_keeps)

lemma state_section_checkpoint:
  assumes "state_section pl cfg tu meta active l = (l', x)"
  shows "lp_checkpoint l' = lp_checkpoint l \<and> lp_current l' = lp_current l"
  using assms
  by (auto simp: state_section_def Let_def split: if_splits prod.splits sum.splits dest!: then_count_checkpoint)

lemma sweep_section_checkpoint:
  assumes "sweep_section pl cfg tu meta l = (l', x)"
  shows "lp_checkpoint l' = lp_checkpoint l \<and> lp_current l' = lp_current l"
  using assms
  by (auto simp: sweep_section_def Let_def split: if_splits prod.splits sum.splits dest!: then_count_checkpoint)

lemma late_sections_checkpoint:
  "command_section pl cfg tu meta l = (l', x) \<Longrightarrow> lp_checkpoint l' = lp_checkpoint l \<and> lp_current l' = lp_current l"
  "hold_section pl cfg tu meta l = (l', x) \<Longrightarrow> lp_checkpoint l' = lp_checkpoint l \<and> lp_current l' = lp_current l"
  by (auto simp: command_section_def hold_section_def Let_def split: if_splits prod.splits publish_result.splits dest!: save_section_checkpoint)

section \<open>The cursor on the disk\<close>

text \<open>
  The cursor file has a cursor with \<open>Q\<close>, provided that all records saved since the history had \<open>n\<close> entries have
  one. Without that proviso it is what a process keeps from a moment on, if it saves no other cursors.
\<close>

definition holding :: "string \<Rightarrow> (u32 \<Rightarrow> bool) \<Rightarrow> nat \<Rightarrow> station \<Rightarrow> bool" where
  "holding p Q n w \<longleftrightarrow> n \<le> length (sn_hist w) \<and> fs_path (sn_store w) = p \<and> cache_ok (sn_store w) (sn_disk w) \<and>
     ((\<forall>st. Saved st \<in> set (drop n (sn_hist w)) \<longrightarrow> Q (st_last_seq st)) \<longrightarrow>
      (\<exists>st. files (sn_disk w) p = Some (cursor_of st) \<and> Q (st_last_seq st)))"

definition kept :: "string \<Rightarrow> (u32 \<Rightarrow> bool) \<Rightarrow> station \<Rightarrow> bool" where
  "kept p Q w \<longleftrightarrow> fs_path (sn_store w) = p \<and> cache_ok (sn_store w) (sn_disk w) \<and>
     (\<exists>st. files (sn_disk w) p = Some (cursor_of st) \<and> Q (st_last_seq st))"

lemma kept_holding: "kept p Q w \<longleftrightarrow> holding p Q (length (sn_hist w)) w"
  by (simp add: kept_def holding_def)

lemma kept_emits:
  assumes "emits sn_hist (holding p Q (length (sn_hist w))) P w w'" and "kept p Q w" and "\<And>st. P st \<Longrightarrow> Q (st_last_seq st)"
  shows "kept p Q w'"
proof -
  from assms(1) obtain evs where "sn_hist w' = sn_hist w @ evs" "\<forall>st. Saved st \<in> set evs \<longrightarrow> P st" by (auto simp: emits_def)
  moreover have "holding p Q (length (sn_hist w)) w'" using emits_good [OF assms(1)] assms(2) by (simp add: kept_holding)
  ultimately show ?thesis using assms(3) by (auto simp: holding_def kept_def)
qed

lemma station_save_disk:
  assumes "station_save flt st w = (w', er)" and "cache_ok (sn_store w) (sn_disk w)"
  shows "fs_path (sn_store w') = fs_path (sn_store w) \<and> cache_ok (sn_store w') (sn_disk w') \<and> sn_hist w' = sn_hist w @ [Saved st] \<and>
    (files (sn_disk w') (fs_path (sn_store w)) = Some (cursor_of st) \<or>
     er \<noteq> None \<and> files (sn_disk w') (fs_path (sn_store w)) = files (sn_disk w) (fs_path (sn_store w)))"
proof -
  obtain store disk r where v: "save flt st (sn_store w) (sn_disk w) = (store, disk, r)" by (metis prod_cases3)
  note S = save_files [OF v assms(2)]
  obtain re st1 er1 where l: "load disk (fresh (fs_path store)) = (re, st1, er1)" by (metis prod_cases3)
  have "cache_ok (fresh (fs_path store)) disk" "fs_path (fresh (fs_path store)) = fs_path store" by (simp_all add: cache_ok_def fresh_def)
  with load_keeps [OF l] have "fs_path re = fs_path store" "cache_ok re disk" by simp_all
  with assms(1) v l S(1,4,6) show ?thesis by (cases r) (auto simp: station_save_def)
qed

lemma kept_saved:
  assumes "station_save flt st w = (w', None)" and "kept p Q w" and "R (st_last_seq st)"
  shows "kept p R w'"
  using station_save_disk [OF assms(1)] assms(2,3) unfolding kept_def by auto

interpretation keeper: outside "station_plant sdk rpc parse k broker wait flt" sn_hist "holding p Q n"
  for sdk rpc parse k broker wait flt p Q n
proof
  fix e s s' r
  assume "pl_publish (station_plant sdk rpc parse k broker wait flt) e s = (s', Delivered)"
  then show "sn_hist s' = sn_hist s @ [Accepted (en_message_id e)]" using station_publish_hist by fastforce
next
  fix e s s' r
  assume "pl_publish (station_plant sdk rpc parse k broker wait flt) e s = (s', r)"
  then have p: "station_publish k broker wait e s = (s', r)" by simp
  then have "sn_store s' = sn_store s" "sn_disk s' = sn_disk s" by (auto simp: station_publish_def Let_def split: prod.splits)
  with station_publish_hist [OF p] show "emits sn_hist (holding p Q n) (\<lambda>_. False) s s'"
    unfolding emits_def holding_def by auto
next
  fix st s s' er
  assume "pl_save (station_plant sdk rpc parse k broker wait flt) st s = (s', er)"
  then have v: "station_save flt st s = (s', er)" by simp
  then have h: "sn_hist s' = sn_hist s @ [Saved st]" by (auto simp: station_save_def split: prod.splits)
  have "holding p Q n s'" if "holding p Q n s"
    using station_save_disk [OF v] that unfolding holding_def by (auto simp: h)
  with h show "emits sn_hist (holding p Q n) (\<lambda>st'. st' = st) s s'" unfolding emits_def by auto
next
  fix st s s'
  assume "pl_save (station_plant sdk rpc parse k broker wait flt) st s = (s', None)"
  then show "sn_hist s' = sn_hist s @ [Saved st]" by (auto simp: station_save_def split: prod.splits)
next
  fix s s' st er
  assume l: "pl_load (station_plant sdk rpc parse k broker wait flt) s = (s', st, er)"
  then obtain store where l: "load (sn_disk s) (sn_store s) = (store, st, er)" and s': "s' = s\<lparr>sn_store := store\<rparr>"
    by (auto simp: station_load_def split: prod.splits)
  show "sn_hist s' = sn_hist s \<and> (holding p Q n s \<longrightarrow> holding p Q n s')"
    using load_keeps [OF l] by (auto simp: s' holding_def)
qed

section \<open>A turn\<close>

text \<open>What lies before and behind the checkpoint of a turn that went through, for anything that the world keeps of itself.\<close>

lemma turn_around_checkpoint:
  assumes "ledger_turn pl cfg tu meta l = (l', Inr u)" and "reg_inv (reg_of l)"
  obtains m m' where "lp_checkpoint m = lp_checkpoint l" and "checkpoint_section pl cfg tu meta m = (m', Inr ())"
    and "lp_checkpoint l' = lp_checkpoint m'"
    and "\<And>hist good. outside pl hist good \<Longrightarrow> stays hist good (\<lambda>_. False) l m \<and> lp_current l' = lp_current l + 1 \<and> reg_inv (reg_of l') \<and>
      emits hist good (record_of cfg (lp_current l) (lp_gaps l)) (world m') (world l')"
proof -
  from assms(1) obtain a l1 b l2 c l3 n l4 k l5 d l6 e l7 g l8 where
    s1: "continuity_section meta l = (l1, Inr a)" and s2: "process_section pl tu meta l1 = (l2, Inr b)" and
    s3: "publish_section pl (fact_envelopes cfg tu (fst b)) l2 = (l3, Inr c)" and
    s4: "state_section pl cfg tu meta (snd b) l3 = (l4, Inr n)" and
    s5: "sweep_section pl cfg tu meta l4 = (l5, Inr k)" and
    s6: "checkpoint_section pl cfg tu meta l5 = (l6, Inr d)" and
    s7: "command_section pl cfg tu meta (report_section tu meta (length (fst b)) (n + k) l6) = (l7, Inr e)" and
    s8: "hold_section pl cfg tu meta l7 = (l8, Inr g)" and l': "l' = l8\<lparr>lp_current := lp_current l8 + 1\<rparr>"
    unfolding ledger_turn_def by (auto elim!: then_doE split: prod.splits)
  have c: "lp_checkpoint l5 = lp_checkpoint l"
    using early_sections_checkpoint(1) [OF s1] early_sections_checkpoint(2) [OF s2] publish_section_checkpoint [OF s3]
      state_section_checkpoint [OF s4] sweep_section_checkpoint [OF s5] by simp
  have cp: "lp_checkpoint l' = lp_checkpoint l6"
    using late_sections_checkpoint(1) [OF s7] late_sections_checkpoint(2) [OF s8] l' by (simp add: early_sections_checkpoint(3))
  have "stays hist good (\<lambda>_. False) l l5 \<and> lp_current l' = lp_current l + 1 \<and> reg_inv (reg_of l') \<and>
      emits hist good (record_of cfg (lp_current l) (lp_gaps l)) (world l6) (world l')" if o: "outside pl hist good" for hist good
  proof -
    let ?F = "\<lambda>_::istate. False" and ?P = "record_of cfg (lp_current l) (lp_gaps l)"
    have t1: "stays hist good ?F l l1" using continuity_stays [OF s1 assms(2)] by blast
    have t2: "stays hist good ?F l l2" using stays_trans [OF t1] process_stays [OF s2 stays_inv [OF t1]] by blast
    have t3: "stays hist good ?F l l3" by (rule stays_trans [OF t2 outside.publish_section_stays(1) [OF o s3 stays_inv [OF t2]]])
    have t4: "stays hist good ?F l l4" by (rule stays_trans [OF t3 outside.state_section_stays [OF o s4 stays_inv [OF t3]]])
    have t5: "stays hist good ?F l l5" by (rule stays_trans [OF t4 outside.sweep_section_stays [OF o s5 stays_inv [OF t4]]])
    have q5: "lp_current l5 = lp_current l" "lp_gaps l5 = lp_gaps l" "reg_inv (reg_of l5)" using t5 by (simp_all add: stays_def)
    note t6 = outside.checkpoint_section_stays [OF o s6 q5(3), unfolded q5]
    let ?r = "report_section tu meta (length (fst b)) (n + k) l6"
    have r: "lp_current ?r = lp_current l" "lp_gaps ?r = lp_gaps l" "reg_inv (reg_of ?r)" "world ?r = world l6"
      using t6 q5 by (simp_all add: report_section_def Let_def stays_def)
    note t7 = outside.command_section_stays [OF o s7 r(3), unfolded r(1,2)]
    have r7: "lp_current l7 = lp_current l" "lp_gaps l7 = lp_gaps l" "reg_inv (reg_of l7)" using t7 r by (simp_all add: stays_def)
    note t8 = outside.hold_section_stays [OF o s8 r7(3), unfolded r7(1,2)]
    have "emits hist good ?P (world l6) (world l')" using stays_trans [OF t7 t8] by (simp add: stays_def r(4) l')
    moreover have "lp_current l' = lp_current l + 1" "reg_inv (reg_of l')" using t8 r7 by (simp_all add: stays_def l')
    ultimately show ?thesis using t5 by simp
  qed
  with that [OF c _ cp] s6 show ?thesis by simp
qed

text \<open>
  A turn that went through has saved its own cursor, or was not due for a checkpoint and saved no other cursor than
  its own.
\<close>

lemma turn_keeps:
  assumes "ledger_turn (station_plant sdk rpc parse k broker wait flt) cfg tu meta l = (l', Inr u)" and "reg_inv (reg_of l)"
    and "kept p Q (world l)"
  shows "lp_current l' = lp_current l + 1 \<and> reg_inv (reg_of l') \<and>
    (if should_checkpoint (catching_up tu meta) (cg_end cfg \<noteq> 0 \<and> lp_current l = cg_end cfg) (lp_current l) (lp_checkpoint l)
     then lp_checkpoint l' = lp_current l \<and> kept p (\<lambda>q. q = lp_current l) (world l')
     else lp_checkpoint l' = lp_checkpoint l \<and> (Q (lp_current l) \<longrightarrow> kept p Q (world l')))"
proof -
  let ?pl = "station_plant sdk rpc parse k broker wait flt"
  obtain m m' where c: "lp_checkpoint m = lp_checkpoint l" "checkpoint_section ?pl cfg tu meta m = (m', Inr ())"
      "lp_checkpoint l' = lp_checkpoint m'" and
    A: "\<And>hist good. outside ?pl hist good \<Longrightarrow> stays hist good (\<lambda>_. False) l m \<and> lp_current l' = lp_current l + 1 \<and> reg_inv (reg_of l') \<and>
      emits hist good (record_of cfg (lp_current l) (lp_gaps l)) (world m') (world l')"
    by (rule turn_around_checkpoint [OF assms(1,2)]) blast
  note B = A [OF keeper.outside_axioms]
  have m: "kept p Q (world m)" "lp_current m = lp_current l"
    using kept_emits [OF _ assms(3)] B [of p Q "length (sn_hist (world l))"] by (auto simp: stays_def)
  have late: "kept p R (world l')" if "kept p R (world m')" "R (lp_current l)" for R
    by (rule kept_emits [OF _ that(1)], use B in blast) (simp add: that(2) record_of_def)
  show ?thesis
  proof (cases "should_checkpoint (catching_up tu meta) (cg_end cfg \<noteq> 0 \<and> lp_current l = cg_end cfg) (lp_current l) (lp_checkpoint l)")
    case True
    let ?st = "snapshot_state cfg (reg_of m) (lp_current m) (hex_encode (lm_hash meta)) (lp_gaps m)"
    from c True m(2) obtain w where w: "station_save flt ?st (world m) = (w, None)" and m': "m' = (set_world w m)\<lparr>lp_checkpoint := lp_current l\<rparr>"
      by (auto simp: checkpoint_section_def save_section_def then_do_def split: prod.splits option.splits)
    have "kept p (\<lambda>q. q = lp_current l) w" by (rule kept_saved [OF w m(1)]) (simp add: snapshot_state_def m(2))
    with late [of "\<lambda>q. q = lp_current l"] True B c(3) m' show ?thesis by simp
  next
    case False
    with c m(2) have "m' = m" by (simp add: checkpoint_section_def)
    with late [of Q] False B c m(1) show ?thesis by simp
  qed
qed

lemma rotation_keeps:
  assumes "rotate_section (station_plant sdk rpc parse k broker wait flt) cfg tu l = (l', Inr u)" and "reg_inv (reg_of l)"
    and "kept p Q (world l)" and "lp_current l \<noteq> 0"
  shows "reg_inv (reg_of l') \<and> lp_checkpoint l' = lp_checkpoint l \<and>
    (lp_current l' = lp_current l \<and> kept p Q (world l') \<or>
     lp_current l < lp_current l' \<and> kept p (\<lambda>q. q = lp_current l' - 1) (world l'))"
proof -
  let ?pl = "station_plant sdk rpc parse k broker wait flt"
  obtain q gaps w res where r: "rotate_pool (on_gap_hook ?pl cfg (reg_of l)) (tu_net tu) (tu_pool_poll tu) (tu_now tu) (lp_current l) (cg_end cfg)
      (lp_pool l) (lp_gaps l, world l) = (q, (gaps, w), res)" by (metis surj_pair)
  with assms(1) obtain s where s: "res = Ok s" by (cases res) (auto simp: rotate_section_def)
  from assms(1) r s obtain m where
    b: "publish_section ?pl (map (gap_envelope (tu_now tu) (cg_network cfg)) (lp_gaps m)) m = (l', Inr u)" and
    m: "lp_current m = s" "world m = w" "reg_of m = reg_of l" "lp_checkpoint m = lp_checkpoint l"
    by (fastforce simp: rotate_section_def Let_def set_world_def)
  have st: "stays sn_hist (holding p R n) (\<lambda>_. False) m l'" for R n
    by (rule keeper.publish_section_stays(1) [OF b]) (simp add: m assms(2))
  have l': "lp_current l' = s" "reg_inv (reg_of l')" "lp_checkpoint l' = lp_checkpoint l"
    using st [of Q 0] publish_section_checkpoint [OF b] by (simp_all add: stays_def m)
  have late: "kept p R (world l')" if "kept p R w" for R
    by (rule kept_emits [OF _ that, where P = "\<lambda>_. False"]) (use st [of R] in \<open>simp_all add: stays_def m\<close>)
  from rotate_gap [OF r, unfolded s] assms(4) consider "s = lp_current l" "w = world l"
    | gp where "on_gap_hook ?pl cfg (reg_of l) gp s (lp_gaps l, world l) = ((gaps, w), None)" "lp_current l < s"
    unfolding one_gap_def by auto
  then show ?thesis
  proof cases
    case 1
    with late assms(3) l' show ?thesis by simp
  next
    case (2 gp)
    then have "station_save flt (snapshot_state cfg (reg_of l) (s - 1) [] (lp_gaps l @ [gp])) (world l) = (w, None)"
      by (auto simp: on_gap_hook_def split: prod.splits)
    from kept_saved [OF this assms(3), of "\<lambda>q. q = s - 1"] late 2(2) l' show ?thesis by (simp add: snapshot_state_def)
  qed
qed

text \<open>Whatever a turn saves, however it ends, has a cursor that is not behind the ledger before its own.\<close>

definition beyond :: "nat \<Rightarrow> u32 \<Rightarrow> bool" where
  "beyond c q \<longleftrightarrow> c \<le> unat q"

lemma skip_record_ahead:
  assumes "skip_record cfg a gaps st" and "a \<noteq> 0"
  shows "unat a \<le> unat (st_last_seq st)"
proof -
  from assms(1) obtain b gaps' where "skipped a b gaps gaps'" and st: "st_last_seq st = b - 1"
    by (auto simp: skip_record_def record_of_def)
  then have "a < b" "b \<noteq> 0" using assms(2) by (auto simp: skipped_def)
  then show ?thesis by (auto simp: st word_less_nat_alt unat_minus_one)
qed

lemma turn_step_beyond:
  assumes "turn_step (station_plant sdk rpc parse k broker wait flt) cfg tu l = (l', y)" and "reg_inv (reg_of l)"
    and "kept p (beyond c) (world l)" and "c < unat (lp_current l)"
  shows "kept p (beyond c) (world l')"
proof -
  let ?n = "length (sn_hist (world l))"
  from assms(1) consider "l' = l" | meta where "ledger_turn (station_plant sdk rpc parse k broker wait flt) cfg tu meta l = (l', y)"
    | "rotate_section (station_plant sdk rpc parse k broker wait flt) cfg tu l = (l', y)"
    by (auto simp: turn_step_def split: if_splits sum.splits)
  then show ?thesis
  proof cases
    case (2 meta)
    have "emits sn_hist (holding p (beyond c) ?n) (record_of cfg (lp_current l) (lp_gaps l)) (world l) (world l')"
      using keeper.ledger_turn_effect [OF 2 assms(2)] by (simp add: moves_def)
    then show ?thesis by (rule kept_emits [OF _ assms(3)]) (use assms(4) in \<open>simp add: record_of_def beyond_def\<close>)
  next
    case 3
    have "emits sn_hist (holding p (beyond c) ?n)
        (\<lambda>st. skip_record cfg (lp_current l) (lp_gaps l) st \<and> st_gaps st = lp_gaps l') (world l) (world l')"
      using keeper.rotate_effect [OF 3 assms(2)] by simp
    then show ?thesis
    proof (rule kept_emits [OF _ assms(3)])
      fix st
      assume "skip_record cfg (lp_current l) (lp_gaps l) st \<and> st_gaps st = lp_gaps l'"
      moreover have "lp_current l \<noteq> 0" using assms(4) by auto
      ultimately have "unat (lp_current l) \<le> unat (st_last_seq st)" using skip_record_ahead by blast
      with assms(4) show "beyond c (st_last_seq st)" by (simp add: beyond_def)
    qed
  qed (use assms(3) in simp)
qed

text \<open>
  Before a turn: the disk has a cursor from \<open>c\<close> on, the last checkpoint is not behind \<open>c\<close>, and the next ledger
  is at most a hundred ahead of \<open>c\<close>.
\<close>

definition within_interval :: "string \<Rightarrow> nat \<Rightarrow> station ingest \<Rightarrow> bool" where
  "within_interval p c l \<longleftrightarrow> reg_inv (reg_of l) \<and> kept p (beyond c) (world l) \<and>
     unat (lp_checkpoint l) \<le> c \<and> c < unat (lp_current l) \<and> unat (lp_current l) \<le> c + 100"

lemma kept_exact: "kept p (\<lambda>q. q = a) w \<Longrightarrow> c = unat a \<Longrightarrow> kept p (beyond c) w"
  by (auto simp: kept_def beyond_def)

lemma turn_step_within:
  assumes "turn_step (station_plant sdk rpc parse k broker wait flt) cfg tu l = (l', Inr u)" and "within_interval p c l"
    and "journal_entry (station_plant sdk rpc parse k broker wait flt) cfg tu l \<noteq> [] \<Longrightarrow> lp_current l \<noteq> - 1"
  shows "\<exists>c'\<ge>c. within_interval p c' l'"
proof -
  let ?pl = "station_plant sdk rpc parse k broker wait flt"
  have I: "reg_inv (reg_of l)" "kept p (beyond c) (world l)" "unat (lp_checkpoint l) \<le> c" "c < unat (lp_current l)" "unat (lp_current l) \<le> c + 100"
    using assms(2) by (simp_all add: within_interval_def)
  then have nz: "lp_current l \<noteq> 0" by auto
  show ?thesis
  proof (cases "journal_entry ?pl cfg tu l = []")
    case True
    from rotation_keeps [OF turn_without_ledger [OF assms(1) True] I(1,2) nz] show ?thesis
    proof (elim conjE disjE)
      assume "lp_current l < lp_current l'" "kept p (\<lambda>q. q = lp_current l' - 1) (world l')" "reg_inv (reg_of l')" "lp_checkpoint l' = lp_checkpoint l"
      moreover from this(1) have "lp_current l' \<noteq> 0" "unat (lp_current l) < unat (lp_current l')" by (auto simp: word_less_nat_alt)
      then have "unat (lp_current l' - 1) = unat (lp_current l') - 1" by (simp add: unat_minus_one)
      ultimately show ?thesis using I(3,4)
        by (intro exI [of _ "unat (lp_current l') - 1"]) (auto simp: within_interval_def word_less_nat_alt intro: kept_exact)
    qed (use I in \<open>auto simp: within_interval_def\<close>)
  next
    case False
    with assms(1) obtain meta where t: "ledger_turn ?pl cfg tu meta l = (l', Inr u)"
      by (auto simp: turn_step_def journal_entry_def split: if_splits sum.splits)
    note T = turn_keeps [OF t I(1,2)]
    have "unat (lp_current l') = unat (lp_current l) + 1"
      using T assms(3) [OF False] unatSuc [of "lp_current l"] by (simp add: add.commute add_eq_0_iff)
    show ?thesis
    proof (cases "should_checkpoint (catching_up tu meta) (cg_end cfg \<noteq> 0 \<and> lp_current l = cg_end cfg) (lp_current l) (lp_checkpoint l)")
      case True
      with T I(4) \<open>unat (lp_current l') = _\<close> show ?thesis
        by (intro exI [of _ "unat (lp_current l)"]) (auto simp: within_interval_def intro: kept_exact)
    next
      case due: False
      then have "lp_current l - lp_checkpoint l < 100" by (simp add: should_checkpoint_def checkpoint_interval_def not_le)
      moreover have "unat (lp_current l - lp_checkpoint l) = unat (lp_current l) - unat (lp_checkpoint l)"
        using I(3,4) by (intro unat_sub) (simp add: word_le_nat_alt)
      ultimately have "unat (lp_current l) - unat (lp_checkpoint l) < 100" by (simp add: word_less_nat_alt)
      with T due I \<open>unat (lp_current l') = _\<close> show ?thesis
        by (intro exI [of _ c]) (auto simp: within_interval_def beyond_def)
    qed
  qed
qed

section \<open>A run\<close>

lemma ingest_loop_within:
  assumes "ingest_loop (station_plant sdk rpc parse k broker wait flt) cfg tus l log = (l', x, log @ new)" and "within_interval p c l"
    and "\<forall>(w, seq, ids)\<in>set new. seq \<noteq> - 1"
  shows "\<exists>c'\<ge>c. kept p (beyond c') (world l') \<and> (\<forall>(w, seq, ids)\<in>set new. unat seq \<le> c' + 100)"
  using assms
proof (induction tus arbitrary: l log new c)
  case Nil
  then show ?case by (intro exI [of _ c]) (auto simp: ingest_loop.simps within_interval_def split: if_splits)
next
  case (Cons tu tus)
  let ?pl = "station_plant sdk rpc parse k broker wait flt"
  note I = Cons.prems(2) [unfolded within_interval_def]
  show ?case
  proof (cases "cg_end cfg \<noteq> 0 \<and> lp_current l > cg_end cfg")
    case True
    with Cons.prems(1) I show ?thesis by (intro exI [of _ c]) (auto simp: ingest_loop.simps [of ?pl cfg "tu # tus"])
  next
    case go: False
    obtain l1 y where t: "turn_step ?pl cfg tu l = (l1, y)" by fastforce
    have now: "\<forall>(w, seq, ids)\<in>set (journal_entry ?pl cfg tu l). unat seq \<le> c + 100"
      using journal_entry_cases [of ?pl cfg tu l] I by auto
    show ?thesis
    proof (cases y)
      case (Inl e)
      with Cons.prems(1) go t have "l' = l1" "new = journal_entry ?pl cfg tu l"
        by (simp_all add: ingest_loop.simps [of ?pl cfg "tu # tus"] if_not_P [OF go])
      with turn_step_beyond [OF t] I now show ?thesis by (intro exI [of _ c]) simp
    next
      case (Inr u)
      with Cons.prems(1) go t have g: "ingest_loop ?pl cfg tus l1 (log @ journal_entry ?pl cfg tu l) = (l', x, log @ new)"
        by (simp add: ingest_loop.simps [of ?pl cfg "tu # tus"] if_not_P [OF go])
      from ingest_loop_extends [OF g] obtain rest where new: "new = journal_entry ?pl cfg tu l @ rest" by (auto simp: prefix_def)
      have "journal_entry ?pl cfg tu l \<noteq> [] \<Longrightarrow> lp_current l \<noteq> - 1"
        using Cons.prems(3) new journal_entry_cases [of ?pl cfg tu l] by auto
      from turn_step_within [OF t [unfolded Inr] Cons.prems(2) this] obtain c1 where c1: "c \<le> c1" "within_interval p c1 l1" by blast
      from Cons.IH [OF _ c1(2), of "log @ journal_entry ?pl cfg tu l" rest] g new Cons.prems(3) obtain c' where
        "c1 \<le> c'" "kept p (beyond c') (world l')" "\<forall>(w, seq, ids)\<in>set rest. unat seq \<le> c' + 100" by auto
      with now c1(1) new show ?thesis by (intro exI [of _ c']) force
    qed
  qed
qed

context outside begin

text \<open>What a boot saves, whether it succeeds or not, is the record of a clamp.\<close>

lemma boot_saves:
  assumes "boot pl cfg bi w = (w', y)" and "pl_load pl w = (w1, st, lerr)"
  shows "w' = w1 \<or> (\<exists>rs. resume_decision cfg st lerr = Ok rs \<and> emits hist good (skip_record cfg (rs_start rs) (rs_gaps rs)) w1 w')"
proof (cases "w' = w1")
  case False
  with assms obtain rs reg where rs: "resume_decision cfg st lerr = Ok rs" and reg: "boot_registry cfg bi rs = Ok reg" and s: "bi_sink bi = None"
    by (auto simp: boot_def split: sum.splits option.splits)
  obtain p gaps w2 res where c: "connect (on_gap_hook pl cfg reg) (bi_net bi) (bi_poll bi) (bi_now bi) (rs_start rs) (cg_end cfg)
      (bi_pool bi) (rs_gaps rs, w1) = (p, (gaps, w2), res)" by (metis surj_pair)
  have e: "emits hist good (skip_record cfg (rs_start rs) (rs_gaps rs)) w1 w2"
    using hook_effect [OF connect_gap [OF c] boot_registry_inv [OF reg]] by (auto elim: emits_mono)
  show ?thesis
  proof (cases res)
    case (Inl e')
    with assms rs reg s c have "w' = w2" by (simp add: boot_def)
    with rs e show ?thesis by blast
  next
    case (Inr start)
    obtain w3 r where b: "publish_gaps (pl_publish pl) (bi_now bi) (cg_network cfg) gaps w2 = (w3, r)" by fastforce
    have "emits hist good (\<lambda>_. False) w2 w3" by (rule publish_all_any [OF b [unfolded publish_gaps_def]])
    then have "emits hist good (skip_record cfg (rs_start rs) (rs_gaps rs)) w2 w3" by (rule emits_mono) simp
    moreover have "w' = w3" using assms rs reg s c Inr b by (cases r) (auto simp: boot_def)
    ultimately show ?thesis using rs emits_trans [OF e] by blast
  qed
qed simp

end

lemma booted_within:
  assumes "boot (station_plant sdk rpc parse k broker wait flt) cfg bi s = (sb, Inr l)"
    and "station_load s = (s1, old, None)" and "kept p (\<lambda>q. q = st_last_seq old) s1" and "st_last_seq old \<noteq> - 1"
  shows "\<exists>c\<ge>unat (st_last_seq old). within_interval p c l"
proof -
  let ?pl = "station_plant sdk rpc parse k broker wait flt"
  have l1: "pl_load ?pl s = (s1, old, None)" using assms(2) by simp
  from assms(1) l1 obtain rs where rs: "resume_decision cfg old None = Ok rs" by (auto simp: boot_def split: sum.splits)
  note start = resume_start [OF rs]
  have nz: "rs_start rs \<noteq> 0" using start assms(4) by (simp add: eq_neg_iff_add_eq_0)
  then have u: "unat (rs_start rs) = unat (st_last_seq old) + 1" using start by (simp add: unatSuc add.commute)
  from boot_started [OF assms(1) l1 rs] obtain reg q gaps w3 s0 w2 where
    L: "l = boot_state ?pl cfg bi rs reg q gaps s0 w3" and reg: "boot_registry cfg bi rs = Ok reg" and
    c: "connect (on_gap_hook ?pl cfg reg) (bi_net bi) (bi_poll bi) (bi_now bi) (rs_start rs) (cg_end cfg) (bi_pool bi) (rs_gaps rs, s1)
      = (q, (gaps, w2), Ok s0)" and w3: "publish_gaps (pl_publish ?pl) (bi_now bi) (cg_network cfg) gaps w2 = (w3, Delivered)"
    by blast
  have l: "reg_of l = reg" "lp_current l = s0" "world l = w3" "lp_checkpoint l = s0 - 1" by (simp_all add: L boot_state_def Let_def)
  have late: "kept p R w3" if "kept p R w2" for R
    by (rule kept_emits [OF keeper.publish_all_any that]) (use w3 in \<open>auto simp: publish_gaps_def\<close>)
  have "s0 \<noteq> 0 \<and> unat (rs_start rs) \<le> unat s0 \<and> kept p (\<lambda>q. q = s0 - 1) w2"
  proof -
    from connect_gap [OF c] nz consider "s0 = rs_start rs" "w2 = s1"
      | gp where "on_gap_hook ?pl cfg reg gp s0 (rs_gaps rs, s1) = ((gaps, w2), None)" "rs_start rs < s0"
      unfolding one_gap_def by auto
    then show ?thesis
    proof cases
      case 1
      with assms(3) start nz show ?thesis by simp
    next
      case (2 gp)
      then have "station_save flt (snapshot_state cfg reg (s0 - 1) [] (rs_gaps rs @ [gp])) s1 = (w2, None)"
        by (auto simp: on_gap_hook_def split: prod.splits)
      from kept_saved [OF this assms(3), of "\<lambda>q. q = s0 - 1"] 2(2) show ?thesis by (auto simp: snapshot_state_def word_less_nat_alt)
    qed
  qed
  moreover from this have "unat (s0 - 1) = unat s0 - 1" "0 < unat s0" by (auto simp: unat_minus_one unat_gt_0)
  ultimately have "within_interval p (unat s0 - 1) l"
    using kept_exact [OF late [of "\<lambda>q. q = s0 - 1"]] boot_registry_inv [OF reg] by (simp add: within_interval_def l)
  with u \<open>s0 \<noteq> 0 \<and> _\<close> show ?thesis by (intro exI [of _ "unat s0 - 1"] conjI) linarith+
qed

lemma cursor_of_seq: "cursor_of a = cursor_of b \<Longrightarrow> st_last_seq a = st_last_seq b"
  by (simp add: cursor_of_def marshal_cursor_def)

text \<open>
  C6. A crash costs at most a hundred ledgers. A process resumes from a disk in order and runs; then it stops, or dies
  wherever it does, in the middle of a save included. The cursor that the next process reads has not gone back,
  and of the ledgers that were processed none is more than a hundred ahead of it, whatever the endpoints, the
  broker, the disk and the operators did.
\<close>

theorem crash_cost_is_bounded:
  assumes "ingest_process (station_plant sdk rpc parse k broker wait flt) cfg bi tus s = (s', x, log)"
    and "holds_pair (sn_disk s) p a b" and "loaded (sn_disk s) p = (old, None)" and "sn_store s = fresh p" and "st_last_seq old \<noteq> - 1"
    and "\<forall>(w, seq, ids)\<in>set log. seq \<noteq> - 1"
  shows "\<exists>st. loaded (sn_disk s') p = (st, None) \<and> st_last_seq old \<le> st_last_seq st \<and>
    (\<forall>(w, seq, ids)\<in>set log. unat seq \<le> unat (st_last_seq st) + 100)"
proof -
  let ?pl = "station_plant sdk rpc parse k broker wait flt"
  have old: "old = mixed a b" using holds_pair_loaded [OF assms(2)] assms(3) by simp
  from station_load_fresh [OF assms(4,3)] obtain store where l1: "station_load s = (s\<lparr>sn_store := store\<rparr>, old, None)" by auto
  have c0: "cache_ok (sn_store s) (sn_disk s)" "fs_path (sn_store s) = p" by (simp_all add: assms(4) cache_ok_def fresh_def)
  from l1 have "load (sn_disk s) (sn_store s) = (store, old, None)"
    by (auto simp: station_load_def split: prod.splits dest: arg_cong [of _ _ sn_store])
  from load_keeps [OF this c0(1)] c0(2) have st: "fs_path store = p" "cache_ok store (sn_disk s)" by simp_all
  have k0: "kept p (\<lambda>q. q = st_last_seq old) (s\<lparr>sn_store := store\<rparr>)"
    using assms(2) st by (auto simp: kept_def holds_pair_def old)
  have "\<exists>c. unat (st_last_seq old) \<le> c \<and> kept p (beyond c) s' \<and> (\<forall>(w, seq, ids)\<in>set log. unat seq \<le> c + 100)"
  proof -
    obtain sb y where b: "boot ?pl cfg bi s = (sb, y)" by fastforce
    show ?thesis
    proof (cases y)
      case (Inl e)
      then have e: "s' = sb" "log = []" using assms(1) b by (simp_all add: ingest_process_def)
      let ?c = "unat (st_last_seq old)" and ?s1 = "s\<lparr>sn_store := store\<rparr>"
      have k: "kept p (beyond ?c) ?s1" by (rule kept_exact [OF k0 refl])
      have "pl_load ?pl s = (?s1, old, None)" using l1 by simp
      from keeper.boot_saves [OF b this, of p "beyond ?c" "length (sn_hist ?s1)"]
      have "kept p (beyond ?c) sb"
      proof (elim disjE exE conjE)
        fix rs
        assume rs: "resume_decision cfg old None = Ok rs" and
          em: "emits sn_hist (holding p (beyond ?c) (length (sn_hist ?s1))) (skip_record cfg (rs_start rs) (rs_gaps rs)) ?s1 sb"
        have nz: "rs_start rs \<noteq> 0" and "unat (rs_start rs) = ?c + 1"
          using resume_start [OF rs] assms(5) by (auto simp: eq_neg_iff_add_eq_0 unatSuc add.commute)
        with skip_record_ahead show ?thesis by (intro kept_emits [OF em k]) (fastforce simp: beyond_def)
      qed (use k in simp)
      with e show ?thesis by (intro exI [of _ ?c]) simp
    next
      case (Inr l)
      obtain l' z where g: "ingest_loop ?pl cfg tus l [] = (l', z, [] @ log)" and s': "s' = world l'"
        using assms(1) b Inr by (auto simp: ingest_process_def split: prod.splits)
      from booted_within [OF b [unfolded Inr] l1 k0 assms(5)] obtain c where
        "unat (st_last_seq old) \<le> c" "within_interval p c l" by blast
      with ingest_loop_within [OF g _ assms(6)] s' show ?thesis by (meson le_trans)
    qed
  qed
  then obtain c st where c: "unat (st_last_seq old) \<le> c" "files (sn_disk s') p = Some (cursor_of st)" "c \<le> unat (st_last_seq st)"
    "\<forall>(w, seq, ids)\<in>set log. unat seq \<le> c + 100" by (auto simp: kept_def beyond_def)
  from stored_station.process_with_cursor [OF assms(1,4,2)] assms(5) old obtain a' b' where h: "holds_pair (sn_disk s') p a' b'" by auto
  with c(2) have "st_last_seq a' = st_last_seq st" by (auto simp: holds_pair_def dest: cursor_of_seq)
  with holds_pair_loaded [OF h] c show ?thesis
    by (intro exI [of _ "mixed a' b'"]) (auto simp: word_le_nat_alt intro: le_trans)
qed

text \<open>A resumed process, one turn at the tip, and a stop.\<close>

lemma sample_starts: "\<exists>sb l. boot sample_plant sample_config sample_boot sample_station = (sb, Inr l) \<and> lp_current l = 101"
proof -
  have "case snd (boot sample_plant sample_config sample_boot sample_station) of Inl x \<Rightarrow> False | Inr l \<Rightarrow> lp_current l = 101" by code_simp
  then show ?thesis by (cases "boot sample_plant sample_config sample_boot sample_station") (auto split: sum.splits)
qed

lemma sample_journal:
  assumes "ingest_process sample_plant sample_config sample_boot [tip_turn, stop_turn] sample_station = (s', x, log)"
  shows "\<forall>(w, seq, ids)\<in>set log. seq = 101"
proof -
  obtain sb l where b: "boot sample_plant sample_config sample_boot sample_station = (sb, Inr l)" and l: "lp_current l = 101"
    using sample_starts by blast
  have e: "cg_end sample_config = 0" by (simp add: sample_config_def)
  have "journal_entry sample_plant sample_config stop_turn k = []" "turn_step sample_plant sample_config stop_turn k = (k, Inl ReturnsNil)" for k
    by (simp_all add: journal_entry_def turn_step_def stop_turn_def)
  with assms b e have "log = journal_entry sample_plant sample_config tip_turn l"
    by (auto simp: ingest_process_def ingest_loop.simps split: prod.splits sum.splits)
  with l journal_entry_cases [of sample_plant sample_config tip_turn l] show ?thesis by auto
qed

lemma crash_cost_is_bounded_witness:
  "\<exists>s' x log. ingest_process sample_plant sample_config sample_boot [tip_turn, stop_turn] sample_station = (s', x, log) \<and>
     (\<exists>st. loaded (sn_disk s') ''s.json'' = (st, None) \<and> 100 \<le> st_last_seq st \<and>
       (\<forall>(w, seq, ids)\<in>set log. unat seq \<le> unat (st_last_seq st) + 100))"
proof -
  obtain s' x log where r: "ingest_process sample_plant sample_config sample_boot [tip_turn, stop_turn] sample_station = (s', x, log)"
    by (metis prod_cases3)
  have h: "holds_pair (sn_disk sample_station) ''s.json'' sample_record sample_record" by (simp add: sample_station_def disk_of_holds)
  have "\<exists>st. loaded (sn_disk s') ''s.json'' = (st, None) \<and> st_last_seq sample_record \<le> st_last_seq st \<and>
    (\<forall>(w, seq, ids)\<in>set log. unat seq \<le> unat (st_last_seq st) + 100)"
    by (rule crash_cost_is_bounded [OF r [unfolded sample_plant_def] h sample_loaded])
      (use sample_journal [OF r] in \<open>auto simp: sample_station_def sample_record_def\<close>)
  with r show ?thesis by (simp add: sample_record_def)
qed





end
