(* ===== verification/Feed.thy ===== *)
theory Feed
  imports Resume
begin

text \<open>
  An abstract specification of the indexer, and the proof that the whole process refines it. The abstract
  machine knows nothing of endpoints, detectors, commands or files: it feeds ledgers to the broker one after
  the other, and persists a cursor. Its observable behaviour is what the broker takes and what the store is
  given to save, in this order; every history of the process is one of its behaviours.
\<close>

section \<open>The abstract machine\<close>

text \<open>The next ledger, the gaps recorded so far, and the ledgers completed, each with the messages of its facts.\<close>

record feed_state =
  fd_next :: u32
  fd_gaps :: "gap list"
  fd_done :: "(u32 \<times> string list) list"

text \<open>
  A ledger is completed in one step, by the broker taking all messages of its facts. Other messages may be
  taken at any time. A record may only be saved with the cursor right behind the next ledger and with all gaps
  so far. The next ledger may jump forward over a gap that is recorded, or, from 0, to the tip of the chain.
\<close>

inductive feed :: "ingest_config \<Rightarrow> feed_state \<Rightarrow> happening list \<Rightarrow> feed_state \<Rightarrow> bool" for cfg :: ingest_config and f0 :: feed_state where
  idle: "feed cfg f0 [] f0"
| message: "feed cfg f0 h f \<Longrightarrow> feed cfg f0 (h @ [Accepted i]) f"
| ledger: "feed cfg f0 h f \<Longrightarrow>
    feed cfg f0 (h @ map Accepted ids) (f\<lparr>fd_next := fd_next f + 1, fd_done := fd_done f @ [(fd_next f, ids)]\<rparr>)"
| skip: "feed cfg f0 h f \<Longrightarrow> skipped (fd_next f) b (fd_gaps f) gaps \<Longrightarrow> feed cfg f0 h (f\<lparr>fd_next := b, fd_gaps := gaps\<rparr>)"
| tip: "feed cfg f0 h f \<Longrightarrow> fd_next f = 0 \<Longrightarrow> feed cfg f0 h (f\<lparr>fd_next := b\<rparr>)"
| persist: "feed cfg f0 h f \<Longrightarrow> record_of cfg (fd_next f - 1) (fd_gaps f) st \<Longrightarrow> feed cfg f0 (h @ [Saved st]) f"

definition feed_start :: "u32 \<Rightarrow> gap list \<Rightarrow> feed_state" where
  "feed_start start gaps = \<lparr>fd_next = start, fd_gaps = gaps, fd_done = []\<rparr>"

text \<open>What the machine guarantees by construction, by induction over its steps.\<close>

lemma sublist_more: "sublist xs h \<Longrightarrow> sublist xs (h @ e)"
  by (meson sublist_append_rightI sublist_order.order.trans)

lemma feed_facts_published: "feed cfg f0 h f \<Longrightarrow> e \<in> set (fd_done f) \<Longrightarrow> e \<in> set (fd_done f0) \<or> sublist (map Accepted (snd e)) h"
  by (induction rule: feed.induct) (auto intro: sublist_more sublist_append_leftI)

lemma feed_kept: "feed cfg f0 h f \<Longrightarrow> prefix (fd_gaps f0) (fd_gaps f) \<and> prefix (fd_done f0) (fd_done f)"
  by (induction rule: feed.induct) (auto simp: skipped_def)

lemma split_at_save:
  assumes "h @ e = h1 @ Saved st # h2" and "Saved st \<notin> set e"
  shows "\<exists>h2'. h = h1 @ Saved st # h2'"
  using assms by (auto simp: append_eq_append_conv2 append_eq_Cons_conv)

lemma feed_saved:
  "feed cfg f0 h f \<Longrightarrow> h = h1 @ Saved st # h2 \<Longrightarrow>
     \<exists>f1. feed cfg f0 h1 f1 \<and> record_of cfg (fd_next f1 - 1) (fd_gaps f1) st \<and> prefix (fd_done f1) (fd_done f) \<and> prefix (fd_gaps f1) (fd_gaps f)"
proof (induction arbitrary: h2 rule: feed.induct)
  case (message h f i)
  from split_at_save [OF message.prems] obtain h2' where "h = h1 @ Saved st # h2'" by auto
  with message.IH show ?case by blast
next
  case (ledger h f ids)
  from split_at_save [OF ledger.prems] obtain h2' where "h = h1 @ Saved st # h2'" by auto
  from ledger.IH [OF this] show ?case by (auto intro: prefix_order.trans)
next
  case (skip h f b gaps)
  from skip.IH [OF skip.prems] skip.hyps(2) show ?case by (auto simp: skipped_def intro: prefix_order.trans)
next
  case (persist h f st')
  show ?case
  proof (cases h2 rule: rev_cases)
    case Nil
    with persist.prems persist.hyps show ?thesis by auto
  next
    case (snoc h2' x)
    with persist.prems have "h = h1 @ Saved st # h2'" by simp
    with persist.IH show ?thesis by blast
  qed
qed auto

section \<open>Following the machine\<close>

text \<open>The world \<open>w\<close> has, since its history was \<open>h0\<close>, behaved like a run of the machine that ends in \<open>f\<close>.\<close>

definition follows :: "('w \<Rightarrow> happening list) \<Rightarrow> ingest_config \<Rightarrow> feed_state \<Rightarrow> happening list \<Rightarrow> 'w \<Rightarrow> feed_state \<Rightarrow> bool" where
  "follows hist cfg f0 h0 w f \<longleftrightarrow> (\<exists>h. hist w = h0 @ h \<and> feed cfg f0 h f)"

lemma feed_evs:
  "(\<forall>st. Saved st \<in> set evs \<longrightarrow> record_of cfg (fd_next f - 1) (fd_gaps f) st) \<Longrightarrow> feed cfg f0 h f \<Longrightarrow> feed cfg f0 (h @ evs) f"
proof (induction evs rule: rev_induct)
  case (snoc e evs)
  then have "feed cfg f0 (h @ evs) f" by auto
  then show ?case using snoc.prems(1) feed.message [of cfg f0 "h @ evs" f] feed.persist [of cfg f0 "h @ evs" f]
    by (cases e) auto
qed simp

lemma follows_emits:
  assumes "follows hist cfg f0 h0 w f" and "emits hist good P w w'" and "\<And>st. P st \<Longrightarrow> record_of cfg (fd_next f - 1) (fd_gaps f) st"
  shows "follows hist cfg f0 h0 w' f"
proof -
  from assms(2) obtain evs where "hist w' = hist w @ evs" "\<forall>st. Saved st \<in> set evs \<longrightarrow> P st" by (auto simp: emits_def)
  with assms(1,3) feed_evs [of evs cfg f f0] show ?thesis by (auto simp: follows_def)
qed

text \<open>The loop state \<open>l\<close> stands for the machine's state \<open>f\<close>: the refinement relation.\<close>

definition stands_for :: "('w \<Rightarrow> happening list) \<Rightarrow> ingest_config \<Rightarrow> feed_state \<Rightarrow> happening list \<Rightarrow> 'w ingest \<Rightarrow> 'w journal \<Rightarrow> feed_state \<Rightarrow> bool" where
  "stands_for hist cfg f0 h0 l log f \<longleftrightarrow> follows hist cfg f0 h0 (world l) f \<and> reg_inv (reg_of l) \<and>
     fd_next f = lp_current l \<and> fd_gaps f = lp_gaps l \<and> fd_done f = map snd log"

text \<open>How a run may end: with its journal completed, or in the middle of its last ledger.\<close>

definition ends_as :: "('w \<Rightarrow> happening list) \<Rightarrow> ingest_config \<Rightarrow> feed_state \<Rightarrow> happening list \<Rightarrow> 'w \<Rightarrow> 'w journal \<Rightarrow> bool" where
  "ends_as hist cfg f0 h0 w log \<longleftrightarrow>
     (\<exists>f. follows hist cfg f0 h0 w f \<and> (map snd log = fd_done f \<or> (\<exists>e. map snd log = fd_done f @ [e])))"

lemma stands_for_ends: "stands_for hist cfg f0 h0 l log f \<Longrightarrow> ends_as hist cfg f0 h0 (world l) log"
  by (auto simp: stands_for_def ends_as_def)

context outside begin

lemma ledger_turn_refines:
  assumes "ledger_turn pl cfg tu meta l = (l', x)" and S: "stands_for hist cfg f0 h0 l log f"
    and j: "journal_entry pl cfg tu l =
      (case then_do (continuity_section meta l) (\<lambda>_. process_section pl tu meta) of
         (l2, Inl e) \<Rightarrow> []
       | (l2, Inr (facts, active)) \<Rightarrow> [(world l, lp_current l, map en_message_id (fact_envelopes cfg tu facts))])"
  shows "(x = Inr () \<longrightarrow> (\<exists>f'. stands_for hist cfg f0 h0 l' (log @ journal_entry pl cfg tu l) f')) \<and>
    ends_as hist cfg f0 h0 (world l') (log @ journal_entry pl cfg tu l)"
proof -
  have fo: "follows hist cfg f0 h0 (world l) f" and ri: "reg_inv (reg_of l)" and F: "fd_next f = lp_current l" "fd_gaps f = lp_gaps l"
    "fd_done f = map snd log" using S by (auto simp: stands_for_def)
  note T = ledger_turn_effect [OF assms(1) ri]
  then have mv: "moves hist good cfg l l' x" by blast
  from T show ?thesis
  proof (elim conjE disjE exE)
    assume e: "emits hist good (\<lambda>_. False) (world l) (world l')" and "x \<noteq> Inr ()"
    have "follows hist cfg f0 h0 (world l') f" by (rule follows_emits [OF fo e]) simp
    moreover have "journal_entry pl cfg tu l = [] \<or> (\<exists>e. journal_entry pl cfg tu l = [e])"
      unfolding j by (simp split: prod.splits sum.splits)
    ultimately show ?thesis using \<open>x \<noteq> Inr ()\<close> F(3) unfolding ends_as_def by fastforce
  next
    fix facts active l2 w
    let ?ids = "map en_message_id (fact_envelopes cfg tu facts)"
    let ?f = "f\<lparr>fd_next := fd_next f + 1, fd_done := fd_done f @ [(fd_next f, ?ids)]\<rparr>"
    assume d: "then_do (continuity_section meta l) (\<lambda>_. process_section pl tu meta) = (l2, Inr (facts, active))"
      and h: "hist w = hist (world l) @ map (\<lambda>e. Accepted (en_message_id e)) (fact_envelopes cfg tu facts)"
      and e: "emits hist good (record_of cfg (lp_current l) (lp_gaps l)) w (world l')"
    have log': "journal_entry pl cfg tu l = [(world l, lp_current l, ?ids)]" using j d by simp
    have "follows hist cfg f0 h0 w ?f"
      using fo feed.ledger [of cfg f0 _ f ?ids] by (auto simp: follows_def h comp_def)
    then have g: "follows hist cfg f0 h0 (world l') ?f" by (rule follows_emits [OF _ e]) (simp add: F)
    have "stands_for hist cfg f0 h0 l' (log @ journal_entry pl cfg tu l) ?f" if "x = Inr ()"
      using g mv F that by (simp add: stands_for_def moves_def log')
    moreover have "ends_as hist cfg f0 h0 (world l') (log @ journal_entry pl cfg tu l)"
      using g F unfolding ends_as_def log' by (intro exI [of _ ?f]) simp
    ultimately show ?thesis by blast
  qed
qed

end

text \<open>A clamp: the start may move over a gap, whose record may have been saved.\<close>

lemma skipped_unique: "skipped a b gaps gaps' \<Longrightarrow> skipped a c gaps gaps' \<Longrightarrow> b = c"
  by (auto simp: skipped_def word_unat_eq_iff)

lemma skip_follows:
  assumes fo: "follows hist cfg f0 h0 w f" and e: "emits hist good (\<lambda>st. skip_record cfg (fd_next f) (fd_gaps f) st \<and> st_gaps st = gaps) w w'"
  shows "\<exists>f'. follows hist cfg f0 h0 w' f' \<and> fd_done f' = fd_done f"
    and "gaps = fd_gaps f \<and> (fd_next f \<noteq> 0 \<longrightarrow> s = fd_next f) \<or> skipped (fd_next f) s (fd_gaps f) gaps \<Longrightarrow>
      \<exists>f'. follows hist cfg f0 h0 w' f' \<and> fd_done f' = fd_done f \<and> fd_next f' = s \<and> fd_gaps f' = gaps"
proof -
  have move: "follows hist cfg f0 h0 v (g\<lparr>fd_next := b, fd_gaps := gaps\<rparr>)" if "follows hist cfg f0 h0 v g" "skipped (fd_next g) b (fd_gaps g) gaps" for v g b
    using that feed.skip by (auto simp: follows_def)
  have "(\<exists>f'. follows hist cfg f0 h0 w' f' \<and> fd_done f' = fd_done f) \<and>
    (gaps = fd_gaps f \<and> (fd_next f \<noteq> 0 \<longrightarrow> s = fd_next f) \<or> skipped (fd_next f) s (fd_gaps f) gaps \<longrightarrow>
      (\<exists>f'. follows hist cfg f0 h0 w' f' \<and> fd_done f' = fd_done f \<and> fd_next f' = s \<and> fd_gaps f' = gaps))"
  proof (cases "\<exists>b. skipped (fd_next f) b (fd_gaps f) gaps")
    case True
    then obtain b where b: "skipped (fd_next f) b (fd_gaps f) gaps" ..
    let ?f = "f\<lparr>fd_next := b, fd_gaps := gaps\<rparr>"
    have "follows hist cfg f0 h0 w' ?f"
    proof (rule follows_emits [OF move [OF fo b] e])
      fix st
      assume st: "skip_record cfg (fd_next f) (fd_gaps f) st \<and> st_gaps st = gaps"
      then obtain c where "skipped (fd_next f) c (fd_gaps f) gaps" "record_of cfg (c - 1) gaps st"
        by (auto simp: skip_record_def record_of_def)
      with skipped_unique [OF b] show "record_of cfg (fd_next ?f - 1) (fd_gaps ?f) st" by simp
    qed
    then have f: "follows hist cfg f0 h0 w' ?f \<and> fd_done ?f = fd_done f \<and> fd_next ?f = b \<and> fd_gaps ?f = gaps" by simp
    moreover have "gaps \<noteq> fd_gaps f" using b by (auto simp: skipped_def)
    ultimately show ?thesis using skipped_unique [OF b, of s] by blast
  next
    case False
    have "\<not> (skip_record cfg (fd_next f) (fd_gaps f) st \<and> st_gaps st = gaps)" for st
      using False by (auto simp: skip_record_def record_of_def)
    then have f: "follows hist cfg f0 h0 w' f" by (rule_tac follows_emits [OF fo e]) blast
    then have "follows hist cfg f0 h0 w' (f\<lparr>fd_next := s\<rparr>)" if "fd_next f = 0"
      using that feed.tip [of cfg f0 _ f s] by (auto simp: follows_def)
    moreover have "f\<lparr>fd_next := s\<rparr> = f" if "s = fd_next f" using that by simp
    ultimately have "follows hist cfg f0 h0 w' (f\<lparr>fd_next := s\<rparr>)" if "fd_next f \<noteq> 0 \<longrightarrow> s = fd_next f" using that f by fastforce
    with f False show ?thesis by (auto intro: exI [of _ "f\<lparr>fd_next := s\<rparr>"])
  qed
  then show "\<exists>f'. follows hist cfg f0 h0 w' f' \<and> fd_done f' = fd_done f"
    and "gaps = fd_gaps f \<and> (fd_next f \<noteq> 0 \<longrightarrow> s = fd_next f) \<or> skipped (fd_next f) s (fd_gaps f) gaps \<Longrightarrow>
      \<exists>f'. follows hist cfg f0 h0 w' f' \<and> fd_done f' = fd_done f \<and> fd_next f' = s \<and> fd_gaps f' = gaps"
    by blast+
qed

context outside begin

lemma rotate_refines:
  assumes "rotate_section pl cfg tu l = (l', x)" and S: "stands_for hist cfg f0 h0 l log f"
  shows "(x = Inr () \<longrightarrow> (\<exists>f'. stands_for hist cfg f0 h0 l' log f')) \<and> ends_as hist cfg f0 h0 (world l') log"
proof -
  have fo: "follows hist cfg f0 h0 (world l) f" and ri: "reg_inv (reg_of l)" and F: "fd_next f = lp_current l" "fd_gaps f = lp_gaps l"
    "fd_done f = map snd log" using S by (auto simp: stands_for_def)
  note R = rotate_effect [OF assms(1) ri]
  then have e: "emits hist good (\<lambda>st. skip_record cfg (fd_next f) (fd_gaps f) st \<and> st_gaps st = lp_gaps l') (world l) (world l')"
    by (simp add: F)
  from skip_follows(1) [OF fo e] have "ends_as hist cfg f0 h0 (world l') log" using F(3) unfolding ends_as_def by auto
  moreover have "\<exists>f'. stands_for hist cfg f0 h0 l' log f'" if "x = Inr ()"
    using skip_follows(2) [OF fo e, of "lp_current l'"] R that F by (auto simp: stands_for_def)
  ultimately show ?thesis by blast
qed

lemma turn_step_refines:
  assumes "turn_step pl cfg tu l = (l', x)" and S: "stands_for hist cfg f0 h0 l log f"
  shows "(x = Inr () \<longrightarrow> (\<exists>f'. stands_for hist cfg f0 h0 l' (log @ journal_entry pl cfg tu l) f')) \<and>
    ends_as hist cfg f0 h0 (world l') (log @ journal_entry pl cfg tu l)"
proof (cases "tu_cancelled tu \<or> (\<exists>e. fetch_section cfg tu l = Inl e) \<and> tu_cancelled_after tu")
  case True
  then have "l' = l \<and> x \<noteq> Inr () \<and> journal_entry pl cfg tu l = []" using assms(1) by (auto simp: turn_step_def journal_entry_def)
  with stands_for_ends [OF S] show ?thesis by simp
next
  case nc: False
  show ?thesis
  proof (cases "fetch_section cfg tu l")
    case (Inr meta)
    with assms(1) nc have "ledger_turn pl cfg tu meta l = (l', x)" by (simp add: turn_step_def)
    from ledger_turn_refines [OF this S] nc Inr show ?thesis by (simp add: journal_entry_def)
  next
    case (Inl e)
    with assms(1) nc have "rotate_section pl cfg tu l = (l', x)" by (simp add: turn_step_def)
    from rotate_refines [OF this S] nc Inl show ?thesis by (simp add: journal_entry_def)
  qed
qed

lemma ingest_loop_refines:
  "ingest_loop pl cfg tus l log = (l', x, log') \<Longrightarrow> stands_for hist cfg f0 h0 l log f \<Longrightarrow> ends_as hist cfg f0 h0 (world l') log'"
proof (induction tus arbitrary: l log f)
  case Nil
  then show ?case by (auto simp: ingest_loop.simps split: if_splits dest: stands_for_ends)
next
  case (Cons tu tus)
  show ?case
  proof (cases "cg_end cfg \<noteq> 0 \<and> lp_current l > cg_end cfg")
    case True
    with Cons.prems show ?thesis by (auto simp: ingest_loop.simps [of pl cfg "tu # tus"] dest: stands_for_ends)
  next
    case go: False
    obtain l1 y where t: "turn_step pl cfg tu l = (l1, y)" by fastforce
    note T = turn_step_refines [OF t Cons.prems(2)]
    show ?thesis
    proof (cases y)
      case (Inl e)
      with Cons.prems(1) go t T show ?thesis by (simp add: ingest_loop.simps [of pl cfg "tu # tus"])
    next
      case (Inr u)
      with Cons.prems(1) go t have "ingest_loop pl cfg tus l1 (log @ journal_entry pl cfg tu l) = (l', x, log')"
        by (simp add: ingest_loop.simps [of pl cfg "tu # tus"] if_not_P [OF go])
      from Cons.IH [OF this] T Inr show ?thesis by auto
    qed
  qed
qed

end

section \<open>The whole process\<close>

context outside begin

lemma boot_refines:
  assumes "boot pl cfg bi w = (w', y)" and "pl_load pl w = (w1, st, lerr)" and "resume_decision cfg st lerr = Ok rs"
  shows "case y of Inl x \<Rightarrow> ends_as hist cfg (feed_start (rs_start rs) (rs_gaps rs)) (hist w) w' []
    | Inr l \<Rightarrow> \<exists>f. stands_for hist cfg (feed_start (rs_start rs) (rs_gaps rs)) (hist w) l [] f"
proof -
  let ?f0 = "feed_start (rs_start rs) (rs_gaps rs)"
  have fo: "follows hist cfg ?f0 (hist w) w1 ?f0" using load_any [OF assms(2)] feed.idle by (auto simp: follows_def)
  have d0: "fd_done ?f0 = []" "fd_next ?f0 = rs_start rs" "fd_gaps ?f0 = rs_gaps rs" by (simp_all add: feed_start_def)
  show ?thesis
  proof (cases "\<exists>e. y = Inl e \<and> w' = w1")
    case True
    with fo d0 show ?thesis by (auto simp: ends_as_def intro!: exI [of _ ?f0])
  next
    case False
    with assms obtain reg where reg: "boot_registry cfg bi rs = Ok reg" and s: "bi_sink bi = None"
      by (auto simp: boot_def split: sum.splits option.splits)
    note ri = boot_registry_inv [OF reg]
    obtain p gaps w2 res where c: "connect (on_gap_hook pl cfg reg) (bi_net bi) (bi_poll bi) (bi_now bi) (rs_start rs) (cg_end cfg)
        (bi_pool bi) (rs_gaps rs, w1) = (p, (gaps, w2), res)" by (metis surj_pair)
    note H = hook_effect [OF connect_gap [OF c] ri]
    then have e: "emits hist good (\<lambda>st. skip_record cfg (fd_next ?f0) (fd_gaps ?f0) st \<and> st_gaps st = gaps) w1 w2" by (simp add: d0)
    show ?thesis
    proof (cases res)
      case (Inl e')
      then have "w' = w2 \<and> (\<exists>x. y = Inl x)" using assms reg s c by (auto simp: boot_def)
      with skip_follows(1) [OF fo e] d0(1) show ?thesis by (auto simp: ends_as_def) metis
    next
      case (Inr start)
      with skip_follows(2) [OF fo e, of start] H d0 obtain f where
        f: "follows hist cfg ?f0 (hist w) w2 f" "fd_done f = []" "fd_next f = start" "fd_gaps f = gaps" by auto
      obtain w3 r where b: "publish_gaps (pl_publish pl) (bi_now bi) (cg_network cfg) gaps w2 = (w3, r)" by fastforce
      have "emits hist good (\<lambda>_. False) w2 w3" using publish_all_any b by (simp add: publish_gaps_def)
      from follows_emits [OF f(1) this] have f3: "follows hist cfg ?f0 (hist w) w3 f" by simp
      let ?l = "boot_state pl cfg bi rs reg p gaps start w3"
      have y: "w' = w3 \<and> (y = Inr ?l \<or> (\<exists>x. y = Inl x))" using assms reg s c Inr b by (cases r) (auto simp: boot_def)
      have sl: "stands_for hist cfg ?f0 (hist w) ?l [] f"
        using f f3 ri by (simp add: stands_for_def boot_state_def Let_def)
      then have "ends_as hist cfg ?f0 (hist w) w3 []" by (auto dest: stands_for_ends simp: boot_state_def Let_def)
      with y sl show ?thesis by (elim conjE disjE exE) auto
    qed
  qed
qed

lemma ingest_process_refines:
  assumes "ingest_process pl cfg bi tus w = (w', x, log)" and "pl_load pl w = (w1, st, lerr)" and "resume_decision cfg st lerr = Ok rs"
  shows "ends_as hist cfg (feed_start (rs_start rs) (rs_gaps rs)) (hist w) w' log"
proof -
  obtain wb y where b: "boot pl cfg bi w = (wb, y)" by fastforce
  note B = boot_refines [OF b assms(2,3)]
  show ?thesis
  proof (cases y)
    case (Inl e)
    with assms(1) b B show ?thesis by (auto simp: ingest_process_def)
  next
    case (Inr l)
    obtain l' z log1 where g: "ingest_loop pl cfg tus l [] = (l', z, log1)" by (metis prod_cases3)
    then have "w' = world l'" "log = log1" using assms(1) b Inr by (auto simp: ingest_process_def)
    with ingest_loop_refines [OF g] B Inr show ?thesis by auto
  qed
qed

end

text \<open>
  Where the machine starts: behind the cursor and with the gaps of the record that was read; without a cursor at the
  configured start, with the gaps of the watchlist that may be left over.
\<close>

definition feed_origin :: "ingest_config \<Rightarrow> istate \<times> err option \<Rightarrow> feed_state" where
  "feed_origin cfg x =
     (case x of (st, er) \<Rightarrow> feed_start (if er = None then st_last_seq st + 1 else cg_start cfg) (st_gaps st))"

lemma resumed_origin:
  "resume_decision cfg st er = Ok rs \<Longrightarrow> feed_start (rs_start rs) (rs_gaps rs) = feed_origin cfg (st, er)"
  by (auto simp: resume_decision_def feed_origin_def Let_def split: if_splits option.splits)

context outside begin

text \<open>Whatever the store answers to the first question.\<close>

lemma process_refines_origin:
  assumes "ingest_process pl cfg bi tus w = (w', x, log)" and "pl_load pl w = (w1, st, er)"
  shows "ends_as hist cfg (feed_origin cfg (st, er)) (hist w) w' log"
proof (cases "resume_decision cfg st er")
  case (Inl e)
  with assms have "w' = w1" "log = []" by (simp_all add: ingest_process_def boot_def)
  moreover have "hist w1 = hist w" using load_any [OF assms(2)] by simp
  moreover have "feed cfg (feed_origin cfg (st, er)) [] (feed_origin cfg (st, er))" by (rule feed.idle)
  ultimately show ?thesis
    unfolding ends_as_def follows_def by (intro exI [of _ "feed_origin cfg (st, er)"]) (simp add: feed_origin_def feed_start_def)
next
  case (Inr rs)
  from ingest_process_refines [OF assms Inr] resumed_origin [OF Inr] show ?thesis by simp
qed

end

end
