(* ===== verification/Config.thy ===== *)
theory Config
  imports Ingest
begin

text \<open>
  \<open>internal/config\<close>, the configuration with its validation and its redacted dump, \<open>cmd/ingest.go\<close>'s replay
  flags, and \<open>internal/ingest/ledger_backend.go\<close>. The environment parser is a library: its result is an
  argument of \<open>load_config\<close>. What a validated configuration guarantees the components is proved here.
\<close>

section \<open>The configuration tree\<close>

record network_config =
  nc_name :: string
  nc_passphrase :: string

record rpc_config =
  rc_url :: string
  rc_request_timeout :: duration
  rc_fallback_urls :: "string list"
  rc_fetch_timeout :: duration

record indexer_config =
  ic_start :: u32
  ic_end :: u32
  ic_backend :: string
  ic_limit :: int
  ic_sweep :: bool

record escrow_config =
  ec_hashes :: "string list"
  ec_seed_path :: string

record sink_config =
  sk_type :: string
  sk_require_signing :: bool

record rabbitmq_config =
  rq_url :: string
  rq_exchange :: string
  rq_confirms :: bool

record state_config =
  sf_path :: string

record health_config =
  hc_enabled :: bool
  hc_port :: int
  hc_heartbeat_url :: string

record logging_config =
  lg_level :: string
  lg_format :: string

record config =
  cf_network :: network_config
  cf_rpc :: rpc_config
  cf_indexer :: indexer_config
  cf_escrow :: escrow_config
  cf_sink :: sink_config
  cf_rabbit :: rabbitmq_config
  cf_state :: state_config
  cf_health :: health_config
  cf_logging :: logging_config
  cf_admin_token :: string
  cf_hmac_key :: string
  cf_replay :: bool

section \<open>Validation\<close>

text \<open>One constructor for each message of \<open>Validate\<close>, with what the message quotes.\<close>

datatype violation =
    NameEmpty
  | PassphraseEmpty
  | MainnetUrlIsTestnet string
  | TestnetUrlIsMainnet string
  | FallbackBlank nat
  | MainnetFallbackIsTestnet nat string
  | TestnetFallbackIsMainnet nat string
  | RequestTimeoutNotPositive duration
  | FetchTimeoutNotPositive duration
  | LimitOutOfRange int
  | RangeInverted u32 u32
  | BackendUnknown string
  | HashInvalid string
  | SinkUnknown string
  | RabbitUrlMissing
  | StatePathEmpty
  | AdminTokenShort nat
  | HmacKeyShort nat
  | SigningWithoutKey
  | PortOutOfRange int
  | LogFormatUnknown string

definition valid_ledger_backend_types :: "string list" where
  "valid_ledger_backend_types = [''rpc'']"

definition valid_sink_types :: "string list" where
  "valid_sink_types = [''noop'', ''rabbitmq'']"

definition valid_log_formats :: "string list" where
  "valid_log_formats = [''auto'', ''json'', ''text'']"

text \<open>\<open>strings.ToLower\<close> on ASCII text, and \<open>strings.Contains\<close>.\<close>

definition to_lower :: "string \<Rightarrow> string" where
  "to_lower s = map lower s"

definition contains :: "string \<Rightarrow> string \<Rightarrow> bool" where
  "contains s needle \<longleftrightarrow> sublist needle s"

definition flag_if :: "bool \<Rightarrow> violation \<Rightarrow> violation list" where
  "flag_if b v = (if b then [v] else [])"

definition network_violations :: "config \<Rightarrow> violation list" where
  "network_violations c =
     (let name = nc_name (cf_network c); url = rc_url (cf_rpc c); url_lower = to_lower url in
      flag_if (name = []) NameEmpty @
      flag_if (nc_passphrase (cf_network c) = []) PassphraseEmpty @
      flag_if (name = ''mainnet'' \<and> contains url_lower ''testnet'') (MainnetUrlIsTestnet url) @
      flag_if (name = ''testnet'' \<and> contains url_lower ''mainnet'') (TestnetUrlIsMainnet url))"

fun fallback_violations :: "string \<Rightarrow> nat \<Rightarrow> string list \<Rightarrow> violation list" where
  "fallback_violations name i [] = []"
| "fallback_violations name i (u # us) =
     (let trimmed = trim_space u in
      if trimmed = [] then FallbackBlank (i + 1) # fallback_violations name (i + 1) us
      else
        flag_if (name = ''mainnet'' \<and> contains (to_lower trimmed) ''testnet'') (MainnetFallbackIsTestnet (i + 1) trimmed) @
        flag_if (name = ''testnet'' \<and> contains (to_lower trimmed) ''mainnet'') (TestnetFallbackIsMainnet (i + 1) trimmed) @
        fallback_violations name (i + 1) us)"

definition range_violations :: "config \<Rightarrow> violation list" where
  "range_violations c =
     (let r = cf_rpc c; x = cf_indexer c in
      flag_if (rc_request_timeout r \<le> 0) (RequestTimeoutNotPositive (rc_request_timeout r)) @
      flag_if (rc_fetch_timeout r \<le> 0) (FetchTimeoutNotPositive (rc_fetch_timeout r)) @
      flag_if (ic_limit x \<le> 0 \<or> ic_limit x > 200) (LimitOutOfRange (ic_limit x)) @
      flag_if (ic_end x \<noteq> 0 \<and> ic_start x > ic_end x) (RangeInverted (ic_start x) (ic_end x)) @
      flag_if (ic_backend x \<notin> set valid_ledger_backend_types) (BackendUnknown (ic_backend x)))"

fun hash_violations :: "string list \<Rightarrow> violation list" where
  "hash_violations [] = []"
| "hash_violations (h0 # hs) =
     (let h = trim_space h0 in
      if h = [] then hash_violations hs
      else (case hex_decode h of
          None \<Rightarrow> HashInvalid h # hash_violations hs
        | Some b \<Rightarrow> flag_if (length b \<noteq> 32) (HashInvalid h) @ hash_violations hs))"

definition sink_violations :: "config \<Rightarrow> violation list" where
  "sink_violations c =
     (let ty = sk_type (cf_sink c) in
      flag_if (ty \<notin> set valid_sink_types) (SinkUnknown ty) @
      flag_if (ty = ''rabbitmq'' \<and> trim_space (rq_url (cf_rabbit c)) = []) RabbitUrlMissing @
      flag_if (trim_space (sf_path (cf_state c)) = []) StatePathEmpty)"

definition secret_violations :: "config \<Rightarrow> violation list" where
  "secret_violations c =
     (let tok = cf_admin_token c; key = cf_hmac_key c in
      flag_if (tok \<noteq> [] \<and> length tok < 16) (AdminTokenShort (length tok)) @
      flag_if (key \<noteq> [] \<and> length key < 32) (HmacKeyShort (length key)) @
      flag_if (sk_require_signing (cf_sink c) \<and> key = []) SigningWithoutKey)"

definition service_violations :: "config \<Rightarrow> violation list" where
  "service_violations c =
     (let h = cf_health c; f = lg_format (cf_logging c) in
      flag_if (hc_enabled h \<and> (hc_port h < 1 \<or> hc_port h > 65535)) (PortOutOfRange (hc_port h)) @
      flag_if (f \<notin> set valid_log_formats) (LogFormatUnknown f))"

definition violations :: "config \<Rightarrow> violation list" where
  "violations c =
     network_violations c @ fallback_violations (nc_name (cf_network c)) 0 (rc_fallback_urls (cf_rpc c)) @ range_violations c @
     hash_violations (ec_hashes (cf_escrow c)) @ sink_violations c @ secret_violations c @ service_violations c"

text \<open>\<open>Validate\<close>: nil, or all violations joined.\<close>

definition validate_config :: "config \<Rightarrow> violation list option" where
  "validate_config c = (if violations c \<noteq> [] then Some (violations c) else None)"

section \<open>Loading, replay flags, ledger backend\<close>

datatype load_error = ParsingEnvironment err | ValidatingConfig "violation list"

definition load_config :: "err + config \<Rightarrow> load_error + config" where
  "load_config env =
     (case env of Inl e \<Rightarrow> Inl (ParsingEnvironment e)
      | Inr c \<Rightarrow> (case validate_config c of Some vs \<Rightarrow> Inl (ValidatingConfig vs) | None \<Rightarrow> Inr c))"

text \<open>\<open>applyReplayFlags\<close>, on the two 64-bit values of the parsed flags or the error of the flag parser.\<close>

definition apply_replay_flags :: "config \<Rightarrow> err + 64 word \<times> 64 word \<Rightarrow> err + config" where
  "apply_replay_flags c flags =
     (case flags of Err e \<Rightarrow> Err e
      | Ok (lo, hi) \<Rightarrow>
          if lo = 0 \<or> hi = 0 then Err (ErrOther ''replay requires --from and --to'')
          else if lo > hi then Err (ErrOther ''replay range is inverted'')
          else if hi > 0xFFFFFFFF then Err (ErrOther ''--to exceeds the ledger sequence range'')
          else Ok (c\<lparr>cf_replay := True, cf_indexer := (cf_indexer c)\<lparr>ic_start := ucast lo, ic_end := ucast hi\<rparr>\<rparr>))"

text \<open>The options of the backend: the URL, the size of its buffer, and the timeout of its HTTP client.\<close>

record backend_options =
  bo_url :: string
  bo_buffer :: u32
  bo_timeout :: duration

definition new_rpc_ledger_backend :: "config \<Rightarrow> string \<Rightarrow> backend_options" where
  "new_rpc_ledger_backend c url = \<lparr>bo_url = url, bo_buffer = word_of_int (ic_limit (cf_indexer c)), bo_timeout = rc_fetch_timeout (cf_rpc c)\<rparr>"

definition new_ledger_backend :: "config \<Rightarrow> string \<Rightarrow> err + backend_options" where
  "new_ledger_backend c url =
     (if ic_backend (cf_indexer c) = ''rpc'' then Ok (new_rpc_ledger_backend c url)
      else Err (ErrOther ''unsupported ledger backend type''))"

text \<open>What the loop, the pool and the sink take from the configuration.\<close>

definition ingest_settings :: "config \<Rightarrow> ingest_config" where
  "ingest_settings c =
     \<lparr>cg_network = nc_name (cf_network c), cg_passphrase = nc_passphrase (cf_network c), cg_start = ic_start (cf_indexer c),
      cg_end = ic_end (cf_indexer c), cg_sweep = ic_sweep (cf_indexer c), cg_replay = cf_replay c, cg_hashes = ec_hashes (cf_escrow c),
      cg_fetch_timeout = rc_fetch_timeout (cf_rpc c), cg_heartbeat = hc_heartbeat_url (cf_health c)\<rparr>"

definition pool_of_config :: "config \<Rightarrow> pool" where
  "pool_of_config c = new_rpc_pool (rc_url (cf_rpc c)) (rc_fallback_urls (cf_rpc c)) (nc_passphrase (cf_network c)) (cf_replay c)"

text \<open>The settings of the sink, as the factory takes them from the configuration.\<close>

definition sink_settings_of :: "config \<Rightarrow> sink_settings" where
  "sink_settings_of c =
     \<lparr>ss_type = sk_type (cf_sink c), ss_url = rq_url (cf_rabbit c), ss_exchange = rq_exchange (cf_rabbit c),
      ss_confirms = rq_confirms (cf_rabbit c), ss_hmac_key = cf_hmac_key c\<rparr>"

section \<open>Every violation is reported\<close>

text \<open>The rules, each on its own: what it means that a violation is present in a configuration.\<close>

definition wrong_network :: "config \<Rightarrow> string \<Rightarrow> string \<Rightarrow> string \<Rightarrow> bool" where
  "wrong_network c name other url \<longleftrightarrow> nc_name (cf_network c) = name \<and> contains (to_lower url) other"

definition fallback_at :: "config \<Rightarrow> nat \<Rightarrow> string \<Rightarrow> bool" where
  "fallback_at c i u \<longleftrightarrow> 0 < i \<and> i \<le> length (rc_fallback_urls (cf_rpc c)) \<and> trim_space (rc_fallback_urls (cf_rpc c) ! (i - 1)) = u"

fun violated :: "config \<Rightarrow> violation \<Rightarrow> bool" where
  "violated c NameEmpty = (nc_name (cf_network c) = [])"
| "violated c PassphraseEmpty = (nc_passphrase (cf_network c) = [])"
| "violated c (MainnetUrlIsTestnet u) = (u = rc_url (cf_rpc c) \<and> wrong_network c ''mainnet'' ''testnet'' u)"
| "violated c (TestnetUrlIsMainnet u) = (u = rc_url (cf_rpc c) \<and> wrong_network c ''testnet'' ''mainnet'' u)"
| "violated c (FallbackBlank i) = fallback_at c i []"
| "violated c (MainnetFallbackIsTestnet i u) = (fallback_at c i u \<and> wrong_network c ''mainnet'' ''testnet'' u)"
| "violated c (TestnetFallbackIsMainnet i u) = (fallback_at c i u \<and> wrong_network c ''testnet'' ''mainnet'' u)"
| "violated c (RequestTimeoutNotPositive d) = (d = rc_request_timeout (cf_rpc c) \<and> d \<le> 0)"
| "violated c (FetchTimeoutNotPositive d) = (d = rc_fetch_timeout (cf_rpc c) \<and> d \<le> 0)"
| "violated c (LimitOutOfRange n) = (n = ic_limit (cf_indexer c) \<and> n \<notin> {1..200})"
| "violated c (RangeInverted a b) = (a = ic_start (cf_indexer c) \<and> b = ic_end (cf_indexer c) \<and> b \<noteq> 0 \<and> b < a)"
| "violated c (BackendUnknown x) = (x = ic_backend (cf_indexer c) \<and> x \<noteq> ''rpc'')"
| "violated c (HashInvalid h) = (h \<noteq> [] \<and> (\<exists>s\<in>set (ec_hashes (cf_escrow c)). h = trim_space s \<and> (\<exists>e. parse_hash s = Err e)))"
| "violated c (SinkUnknown x) = (x = sk_type (cf_sink c) \<and> x \<noteq> ''noop'' \<and> x \<noteq> ''rabbitmq'')"
| "violated c RabbitUrlMissing = (sk_type (cf_sink c) = ''rabbitmq'' \<and> trim_space (rq_url (cf_rabbit c)) = [])"
| "violated c StatePathEmpty = (trim_space (sf_path (cf_state c)) = [])"
| "violated c (AdminTokenShort n) = (n = length (cf_admin_token c) \<and> 0 < n \<and> n < 16)"
| "violated c (HmacKeyShort n) = (n = length (cf_hmac_key c) \<and> 0 < n \<and> n < 32)"
| "violated c SigningWithoutKey = (sk_require_signing (cf_sink c) \<and> cf_hmac_key c = [])"
| "violated c (PortOutOfRange n) = (n = hc_port (cf_health c) \<and> hc_enabled (cf_health c) \<and> n \<notin> {1..65535})"
| "violated c (LogFormatUnknown f) = (f = lg_format (cf_logging c) \<and> f \<notin> {''auto'', ''json'', ''text''})"

lemma in_flag_if [simp]: "w \<in> set (flag_if b v) \<longleftrightarrow> b \<and> w = v"
  by (auto simp: flag_if_def)

lemma contains_nil [simp]: "contains [] needle \<longleftrightarrow> needle = []"
  by (simp add: contains_def)

lemma to_lower_nil [simp]: "to_lower [] = []"
  by (simp add: to_lower_def)

lemma set_fallback_violations:
  "v \<in> set (fallback_violations name i us) \<longleftrightarrow>
     (\<exists>j<length us. let u = trim_space (us ! j) in
        v = FallbackBlank (i + j + 1) \<and> u = [] \<or>
        v = MainnetFallbackIsTestnet (i + j + 1) u \<and> name = ''mainnet'' \<and> contains (to_lower u) ''testnet'' \<or>
        v = TestnetFallbackIsMainnet (i + j + 1) u \<and> name = ''testnet'' \<and> contains (to_lower u) ''mainnet'')"
proof (induction name i us rule: fallback_violations.induct)
  case (2 name i u us)
  then show ?case by (auto simp: Let_def less_Suc_eq_0_disj)
qed simp

lemma set_hash_violations:
  "v \<in> set (hash_violations hs) \<longleftrightarrow>
     (\<exists>s\<in>set hs. v = HashInvalid (trim_space s) \<and> trim_space s \<noteq> [] \<and> (\<exists>e. parse_hash s = Err e))"
  by (induction hs rule: hash_violations.induct) (auto simp: Let_def parse_hash_def split: option.splits)

lemmas violation_sections = violations_def network_violations_def range_violations_def sink_violations_def secret_violations_def
  service_violations_def valid_ledger_backend_types_def valid_sink_types_def valid_log_formats_def

lemma fallback_indices:
  "FallbackBlank k \<in> set (fallback_violations name 0 us) \<longleftrightarrow> 0 < k \<and> k \<le> length us \<and> trim_space (us ! (k - 1)) = []"
  "MainnetFallbackIsTestnet k u \<in> set (fallback_violations name 0 us) \<longleftrightarrow>
     (0 < k \<and> k \<le> length us \<and> trim_space (us ! (k - 1)) = u) \<and> name = ''mainnet'' \<and> contains (to_lower u) ''testnet''"
  "TestnetFallbackIsMainnet k u \<in> set (fallback_violations name 0 us) \<longleftrightarrow>
     (0 < k \<and> k \<le> length us \<and> trim_space (us ! (k - 1)) = u) \<and> name = ''testnet'' \<and> contains (to_lower u) ''mainnet''"
  by (cases k; auto simp: set_fallback_violations Let_def)+

lemma other_violations:
  "v \<in> set (fallback_violations name i us) \<Longrightarrow>
     (\<exists>k. v = FallbackBlank k) \<or> (\<exists>k u. v = MainnetFallbackIsTestnet k u) \<or> (\<exists>k u. v = TestnetFallbackIsMainnet k u)"
  "v \<in> set (hash_violations hs) \<Longrightarrow> \<exists>h. v = HashInvalid h"
  by (auto simp: set_fallback_violations set_hash_violations Let_def)

lemma no_other_violations:
  "(\<forall>k u. v \<noteq> FallbackBlank k \<and> v \<noteq> MainnetFallbackIsTestnet k u \<and> v \<noteq> TestnetFallbackIsMainnet k u) \<Longrightarrow> v \<notin> set (fallback_violations name i us)"
  "(\<forall>h. v \<noteq> HashInvalid h) \<Longrightarrow> v \<notin> set (hash_violations hs)"
  using other_violations by blast+

lemma violations_iff: "v \<in> set (violations c) \<longleftrightarrow> violated c v"
  by (cases v; simp add: violation_sections fallback_indices set_hash_violations no_other_violations wrong_network_def fallback_at_def Let_def;
    fastforce)

lemma valid_iff: "validate_config c = None \<longleftrightarrow> (\<forall>v. \<not> violated c v)"
proof -
  have "set (violations c) = {v. violated c v}" by (simp add: set_eq_iff violations_iff)
  then have "violations c = [] \<longleftrightarrow> (\<nexists>v. violated c v)" by (metis Collect_empty_eq set_empty)
  then show ?thesis by (simp add: validate_config_def)
qed

text \<open>
  Validation reports every violation. Whatever else is wrong with a configuration, the list that
  \<open>Validate\<close> joins holds exactly the rules that are violated, and it accepts exactly when none is.
\<close>

theorem validate_reports_all:
  "set (violations c) = {v. violated c v} \<and>
   validate_config c = (if \<exists>v. violated c v then Some (violations c) else None)"
  using violations_iff valid_iff [of c] by (auto simp: validate_config_def set_eq_iff)

section \<open>What a valid configuration gives the components\<close>

lemma new_loop_ok:
  assumes "\<forall>h\<in>set hs. trim_space h = [] \<or> (\<exists>b. parse_hash h = Ok b)"
  shows "\<exists>a. new_loop hs acc = Ok a"
  using assms by (induction hs arbitrary: acc) auto

text \<open>A sample configuration: a testnet indexer with one approved hash, a fallback, and the noop sink.\<close>

definition plain_config :: config where
  "plain_config = \<lparr>cf_network = \<lparr>nc_name = ''testnet'', nc_passphrase = ''Test''\<rparr>,
     cf_rpc = \<lparr>rc_url = ''shallow'', rc_request_timeout = 30 * second, rc_fallback_urls = [''deep''], rc_fetch_timeout = 120 * second\<rparr>,
     cf_indexer = \<lparr>ic_start = 50, ic_end = 0, ic_backend = ''rpc'', ic_limit = 100, ic_sweep = True\<rparr>,
     cf_escrow = \<lparr>ec_hashes = [hex_encode sample_hash], ec_seed_path = []\<rparr>,
     cf_sink = \<lparr>sk_type = ''noop'', sk_require_signing = False\<rparr>,
     cf_rabbit = \<lparr>rq_url = [], rq_exchange = ''stellar.events'', rq_confirms = True\<rparr>,
     cf_state = \<lparr>sf_path = ''s.json''\<rparr>, cf_health = \<lparr>hc_enabled = True, hc_port = 8080, hc_heartbeat_url = []\<rparr>,
     cf_logging = \<lparr>lg_level = ''info'', lg_format = ''auto''\<rparr>, cf_admin_token = [], cf_hmac_key = [], cf_replay = False\<rparr>"

lemma plain_config_valid: "validate_config plain_config = None"
  by code_simp

text \<open>
  C15. What a valid configuration guarantees the components. Once validated, the registry accepts the
  approved hashes; every endpoint of the list is in the pool and gets a ledger backend whose buffer size
  is the configured limit; the stall budget outlasts a fetch, if the fetch timeout leaves a duration room
  for the slack that is added to it; and the sink factory fails in exactly these cases: the sink is the
  broker's and either its exchange is empty, which validation does not look at, or dialling, opening the
  channel, declaring the exchange or, if asked for, switching to confirm mode fails at the broker.
\<close>

theorem valid_config_boots:
  assumes "validate_config c = None"
  shows "(\<exists>r. new_registry (cg_hashes (ingest_settings c)) = Ok r) \<and>
    urls (pool_of_config c) = map trim_space (rc_url (cf_rpc c) # rc_fallback_urls (cf_rpc c)) \<and>
    (\<exists>o1. new_ledger_backend c url = Ok o1 \<and> uint (bo_buffer o1) = ic_limit (cf_indexer c) \<and> 0 < bo_timeout o1) \<and>
    (rc_fetch_timeout (cf_rpc c) + tip_stall_slack \<le> max_duration \<longrightarrow>
       rc_fetch_timeout (cf_rpc c) < stall_budget (ingest_settings c)) \<and>
    ((\<exists>e. new_sink am (sink_settings_of c) = Err e) \<longleftrightarrow>
       sk_type (cf_sink c) = ''rabbitmq'' \<and>
       (rq_exchange (cf_rabbit c) = [] \<or> \<not> am_dial am \<or> \<not> am_channel am \<or> \<not> am_declare am \<or>
        (rq_confirms (cf_rabbit c) \<and> \<not> am_confirm am)))"
proof -
  have V: "\<not> violated c v" for v using assms valid_iff by blast
  have "trim_space h = [] \<or> (\<exists>b. parse_hash h = Ok b)" if "h \<in> set (ec_hashes (cf_escrow c))" for h
    using V [of "HashInvalid (trim_space h)"] that by (cases "parse_hash h") auto
  then have 1: "\<exists>r. new_registry (cg_hashes (ingest_settings c)) = Ok r"
    using new_loop_ok [of "ec_hashes (cf_escrow c)" "{}"] by (auto simp: new_registry_def ingest_settings_def)
  have "trim_space u \<noteq> []" if "u \<in> set (rc_fallback_urls (cf_rpc c))" for u
    using that V [of "FallbackBlank (Suc i)" for i] by (auto simp: in_set_conv_nth fallback_at_def)
  then have 2: "urls (pool_of_config c) = map trim_space (rc_url (cf_rpc c) # rc_fallback_urls (cf_rpc c))"
    by (auto simp: pool_of_config_def new_rpc_pool_def)
  have "1 \<le> ic_limit (cf_indexer c)" "ic_limit (cf_indexer c) \<le> 200"
    using V [of "LimitOutOfRange (ic_limit (cf_indexer c))"] by auto
  moreover have t: "0 < rc_fetch_timeout (cf_rpc c)"
    using V [of "FetchTimeoutNotPositive (rc_fetch_timeout (cf_rpc c))"] by simp
  ultimately have 3: "\<exists>o1. new_ledger_backend c url = Ok o1 \<and> uint (bo_buffer o1) = ic_limit (cf_indexer c) \<and> 0 < bo_timeout o1"
    using V [of "BackendUnknown (ic_backend (cf_indexer c))"]
    by (auto simp: new_ledger_backend_def new_rpc_ledger_backend_def uint_word_of_int mod_pos_pos_trivial)
  have 4: "rc_fetch_timeout (cf_rpc c) < stall_budget (ingest_settings c)"
    if "rc_fetch_timeout (cf_rpc c) + tip_stall_slack \<le> max_duration"
  proof -
    have "duration_add (rc_fetch_timeout (cf_rpc c)) tip_stall_slack = rc_fetch_timeout (cf_rpc c) + tip_stall_slack"
      using that t by (intro duration_add_exact) (simp_all add: min_duration_def tip_stall_slack_def second_def)
    then show ?thesis
      by (simp add: stall_budget_def ingest_settings_def Let_def tip_stall_slack_def tip_stall_after_def second_def)
  qed
  have "rq_url (cf_rabbit c) \<noteq> []" if "sk_type (cf_sink c) = ''rabbitmq''"
    using that V [of RabbitUrlMissing] by auto
  then have 5: "(\<exists>e. new_sink am (sink_settings_of c) = Err e) \<longleftrightarrow> sk_type (cf_sink c) = ''rabbitmq'' \<and>
       (rq_exchange (cf_rabbit c) = [] \<or> \<not> am_dial am \<or> \<not> am_channel am \<or> \<not> am_declare am \<or>
        (rq_confirms (cf_rabbit c) \<and> \<not> am_confirm am))"
    using V [of "SinkUnknown (sk_type (cf_sink c))"]
    by (auto simp: new_sink_def sink_settings_of_def new_rabbit_def connect_broker_def Let_def split: if_splits)
  from 1 2 3 4 5 show ?thesis by blast
qed

lemma valid_config_boots_witness:
  "validate_config plain_config = None \<and> (\<exists>r. new_registry [hex_encode sample_hash] = Ok r) \<and>
   urls (pool_of_config plain_config) = map trim_space [''shallow'', ''deep'']"
  using plain_config_valid valid_config_boots [OF plain_config_valid]
  by (simp add: ingest_settings_def plain_config_def)

section \<open>Replay\<close>

lemma replay_range:
  "(\<exists>c'. apply_replay_flags c (Ok (lo, hi)) = Ok c') = (0 < lo \<and> lo \<le> hi \<and> hi < 2 ^ 32) \<and>
   (case apply_replay_flags c (Ok (lo, hi)) of Err e \<Rightarrow> True
    | Ok c' \<Rightarrow> cg_replay (ingest_settings c') \<and> require_full_range (pool_of_config c') \<and>
        unat (cg_start (ingest_settings c')) = unat lo \<and> unat (cg_end (ingest_settings c')) = unat hi \<and>
        cg_start (ingest_settings c') \<noteq> 0 \<and> cg_end (ingest_settings c') \<noteq> 0 \<and>
        set (violations c') = set (violations c) - {RangeInverted a b | a b. True} \<and>
        c' = c\<lparr>cf_replay := True, cf_indexer := (cf_indexer c)\<lparr>ic_start := cg_start (ingest_settings c'), ic_end := cg_end (ingest_settings c')\<rparr>\<rparr>)"
proof (cases "0 < lo \<and> lo \<le> hi \<and> hi < 2 ^ 32")
  case False
  then have "\<exists>e. apply_replay_flags c (Ok (lo, hi)) = Err e"
    by (auto simp: apply_replay_flags_def not_le not_less word_le_nat_alt word_less_nat_alt unat_gt_0)
  with False show ?thesis by auto
next
  case True
  let ?s = "ucast lo :: u32" and ?t = "ucast hi :: u32"
  let ?c = "c\<lparr>cf_replay := True, cf_indexer := (cf_indexer c)\<lparr>ic_start := ?s, ic_end := ?t\<rparr>\<rparr>"
  from True have b: "unat hi < 2 ^ 32" "unat lo \<le> unat hi" "0 < unat lo"
    by (auto simp: word_less_nat_alt word_le_nat_alt)
  then have n: "unat ?s = unat lo" "unat ?t = unat hi"
    by (simp_all add: unsigned_ucast_eq take_bit_nat_eq_self)
  have nz: "?s \<noteq> 0" "?t \<noteq> 0" using b n by (metis unat_0 less_irrefl, metis unat_0 less_irrefl le_less_trans not_le)
  have "\<not> hi > 0xFFFFFFFF" using b by (simp add: word_less_nat_alt)
  with True have a: "apply_replay_flags c (Ok (lo, hi)) = Ok ?c" by (auto simp: apply_replay_flags_def)
  have "\<not> ?t < ?s" using b n by (simp add: word_less_nat_alt)
  then have "violated ?c v \<longleftrightarrow> violated c v \<and> (\<forall>a b. v \<noteq> RangeInverted a b)" for v
    by (cases v) (auto simp: wrong_network_def fallback_at_def)
  then have v: "set (violations ?c) = set (violations c) - {RangeInverted a b | a b. True}"
    by (auto simp: violations_iff simp del: violated.simps)
  from True a n nz v show ?thesis by (simp add: ingest_settings_def pool_of_config_def new_rpc_pool_def)
qed

text \<open>
  The replay flags. They are accepted exactly when they give a range of at least one ledger whose ends are
  ledger sequences; the run is then bounded by exactly these two numbers. Everything else in the configuration is
  unchanged, and of its violations only an inverted range disappears.
\<close>

theorem replay_range_exact:
  "(\<exists>c'. apply_replay_flags c (Ok (lo, hi)) = Ok c') = (0 < lo \<and> lo \<le> hi \<and> hi < 2 ^ 32) \<and>
   (case apply_replay_flags c (Ok (lo, hi)) of Err e \<Rightarrow> True
    | Ok c' \<Rightarrow> cg_replay (ingest_settings c') \<and> require_full_range (pool_of_config c') \<and>
        unat (cg_start (ingest_settings c')) = unat lo \<and> unat (cg_end (ingest_settings c')) = unat hi \<and>
        cg_start (ingest_settings c') \<noteq> 0 \<and> cg_end (ingest_settings c') \<noteq> 0 \<and>
        set (violations c') = set (violations c) - {RangeInverted a b | a b. True} \<and>
        c' = c\<lparr>cf_replay := True, cf_indexer := (cf_indexer c)\<lparr>ic_start := cg_start (ingest_settings c'), ic_end := cg_end (ingest_settings c')\<rparr>\<rparr>)"
  by (rule replay_range)

section \<open>The command line\<close>

text \<open>
  \<open>run\<close> and \<open>main\<close>: load, apply the replay flags if the first argument asks for a replay, and run \<open>Ingest\<close>,
  here an argument; the process exits with 0 when it returned nil or was cancelled by a signal.
\<close>

datatype run_error = LoadFailed load_error | Failed err

fun is_canceled :: "err \<Rightarrow> bool" where
  "is_canceled ErrCanceled = True"
| "is_canceled (TerminalConnect e) = is_canceled e"
| "is_canceled (ErrJoined es) = list_ex is_canceled es"
| "is_canceled e = False"

definition run_command :: "err + config \<Rightarrow> string list \<Rightarrow> (string list \<Rightarrow> err + 64 word \<times> 64 word) \<Rightarrow> (config \<Rightarrow> err option) \<Rightarrow> run_error option" where
  "run_command env args parse_flags ingest =
     (case load_config env of Inl e \<Rightarrow> Some (LoadFailed e)
      | Inr c \<Rightarrow>
          (case (if args \<noteq> [] \<and> hd args = ''replay'' then apply_replay_flags c (parse_flags (tl args)) else Ok c) of
             Err e \<Rightarrow> Some (Failed e)
           | Ok c' \<Rightarrow> map_option Failed (ingest c')))"

definition exit_status :: "run_error option \<Rightarrow> nat" where
  "exit_status r = (case r of None \<Rightarrow> 0 | Some (LoadFailed e) \<Rightarrow> 1 | Some (Failed e) \<Rightarrow> if is_canceled e then 0 else 1)"

datatype formatter = JsonFormatter | TextFormatter

definition choose_formatter :: "string \<Rightarrow> bool \<Rightarrow> formatter" where
  "choose_formatter format tty =
     (if format = ''json'' then JsonFormatter else if format = ''text'' then TextFormatter
      else if tty then TextFormatter else JsonFormatter)"

text \<open>
  \<open>isTTY\<close>, from what \<open>Stat\<close> answers on the file, if there is one: an error or the mode bits. \<open>configureLogger\<close>
  sets up two loggers, the global one and that of the SDK; parsing the level is the logging library's.
\<close>

definition mode_char_device :: u32 where "mode_char_device = push_bit 21 1"

definition is_tty :: "(err + u32) option \<Rightarrow> bool" where
  "is_tty f = (case f of None \<Rightarrow> False | Some (Inl e) \<Rightarrow> False | Some (Inr mode) \<Rightarrow> and mode mode_char_device \<noteq> 0)"

datatype 'l logger = Logger (lo_level: 'l) (lo_formatter: "formatter option")

definition configure_logger :: "'l \<Rightarrow> (string \<Rightarrow> 'l option) \<Rightarrow> (err + u32) option \<Rightarrow> config \<Rightarrow> 'l logger \<times> 'l logger" where
  "configure_logger info parse_level stdout c =
     (let level = (case parse_level (lg_level (cf_logging c)) of Some l \<Rightarrow> l | None \<Rightarrow> info);
          formatter = choose_formatter (lg_format (cf_logging c)) (is_tty stdout)
      in (Logger level (Some formatter), Logger level None))"

text \<open>The two loggers agree on the level; only the global one gets the configured format.\<close>

lemma loggers_agree_on_level:
  "configure_logger info parse_level stdout c = (g, sdk) \<Longrightarrow>
     lo_level g = lo_level sdk \<and> lo_formatter sdk = None \<and> (lg_format (cf_logging c) = ''json'' \<longrightarrow> lo_formatter g = Some JsonFormatter)"
  by (auto simp: configure_logger_def Let_def choose_formatter_def)

lemma json_in_containers: "\<not> is_tty f \<Longrightarrow> choose_formatter format (is_tty f) = TextFormatter \<longleftrightarrow> format = ''text''"
  by (auto simp: choose_formatter_def)

text \<open>
  The indexer never runs on an invalid configuration: what a run does depends only on what \<open>Ingest\<close> does on
  configurations that pass validation and, for a replay, have a proper range.
\<close>

definition runnable :: "config \<Rightarrow> bool" where
  "runnable c \<longleftrightarrow> validate_config c = None \<and>
     (cf_replay c \<longrightarrow> 0 < ic_start (cf_indexer c) \<and> ic_start (cf_indexer c) \<le> ic_end (cf_indexer c))"

lemma replay_runnable:
  assumes "apply_replay_flags c (Ok (lo, hi)) = Ok c'" and "validate_config c = None"
  shows "runnable c'"
proof -
  have b: "0 < lo \<and> lo \<le> hi \<and> hi < 2 ^ 32" and v: "set (violations c') \<subseteq> set (violations c)"
    and n: "cg_start (ingest_settings c') \<noteq> 0" "unat (cg_start (ingest_settings c')) = unat lo" "unat (cg_end (ingest_settings c')) = unat hi"
    using replay_range [of c lo hi] assms(1) by auto
  from v assms(2) have "validate_config c' = None" by (auto simp: validate_config_def split: if_splits)
  with b n show ?thesis by (simp add: runnable_def ingest_settings_def word_le_nat_alt word_gt_0)
qed

theorem run_only_valid:
  assumes "\<forall>c. runnable c \<longrightarrow> f c = g c" and "\<forall>c. env = Ok c \<longrightarrow> \<not> cf_replay c"
  shows "run_command env args parse_flags f = run_command env args parse_flags g"
proof (cases "load_config env")
  case (Inr c)
  then have c: "env = Ok c" "validate_config c = None" by (auto simp: load_config_def split: sum.splits option.splits)
  show ?thesis
  proof (cases "args \<noteq> [] \<and> hd args = ''replay''")
    case True
    show ?thesis
    proof (cases "apply_replay_flags c (parse_flags (tl args))")
      case (Inr c')
      then obtain lo hi where "parse_flags (tl args) = Ok (lo, hi)" by (cases "parse_flags (tl args)") (auto simp: apply_replay_flags_def)
      with replay_runnable [of c lo hi c'] Inr c(2) assms(1) have "f c' = g c'" by simp
      with \<open>load_config env = Inr c\<close> True Inr show ?thesis by (simp add: run_command_def)
    qed (use \<open>load_config env = Inr c\<close> True in \<open>simp add: run_command_def\<close>)
  next
    case False
    have "f c = g c" using assms c by (simp add: runnable_def)
    with Inr False show ?thesis by (auto simp: run_command_def)
  qed
qed (simp add: run_command_def)

lemma run_only_valid_witness:
  "run_command (Ok plain_config) [''replay''] (\<lambda>_. Ok (9, 5)) (\<lambda>_. None) = run_command (Ok plain_config) [''replay''] (\<lambda>_. Ok (9, 5))
     (\<lambda>c. if runnable c then None else Some ErrCanceled)"
  by (rule run_only_valid) (simp_all add: plain_config_def)

end
