(* ===== verification/Run.thy ===== *)
theory Run
  imports Feed Config
begin

text \<open>
  \<open>Ingest\<close> as the command runs it, from a configuration: the choice of the store, the construction of the
  sink and the pool, the process, and the deferred calls at its end. What the loop needs of its state to index
  its endpoints, and what a run leaves behind, are proved here.
\<close>

section \<open>The loop state is well-formed\<close>

text \<open>
  The registry is consistent; the pool has exactly the handles of its session open, its index is within its
  endpoints, and it checks for the configured network.
\<close>

definition state_ok :: "string \<Rightarrow> 'w ingest \<Rightarrow> bool" where
  "state_ok pass l \<longleftrightarrow> reg_inv (reg_of l) \<and> pool_inv (lp_pool l) \<and>
     idx (lp_pool l) < length (urls (lp_pool l)) \<and> passphrase (lp_pool l) = pass"

definition tame :: "network \<Rightarrow> bool" where
  "tame net \<longleftrightarrow> (\<forall>n i. no_terminal (net n i))"

lemma connect_endpoint_idx:
  "connect_endpoint on_gap net now i from end p g = (p', g', r) \<Longrightarrow>
     urls p' = urls p \<and> passphrase p' = passphrase p \<and> idx p' = (case r of Inl e \<Rightarrow> idx p | Inr s \<Rightarrow> i)"
  by (auto simp: connect_endpoint_def Let_def abandon_def adopt_def close_session_def open_client_def open_backend_def
      split: sum.splits option.splits prod.splits if_splits)

lemma cycle_loop_idx:
  "cycle_loop on_gap net poll now first from end offs failures p g = (p', g', r) \<Longrightarrow> urls p \<noteq> [] \<Longrightarrow>
     urls p' = urls p \<and> passphrase p' = passphrase p \<and> (case r of Inl e \<Rightarrow> idx p' = idx p | Inr s \<Rightarrow> idx p' < length (urls p))"
proof (induction offs arbitrary: failures p g)
  case (Cons off offs)
  show ?case
  proof (cases "poll (length (tried p))")
    case False
    obtain p1 g1 r1 where c: "connect_endpoint on_gap net now ((first + off) mod length (urls p)) from end p g = (p1, g1, r1)"
      by (metis prod_cases3)
    note C = connect_endpoint_idx [OF c]
    show ?thesis
    proof (cases r1)
      case (Inr s)
      with Cons.prems False c C show ?thesis by auto
    next
      case (Inl e)
      show ?thesis
      proof (cases "\<exists>e'. e = TerminalConnect e'")
        case True
        with Cons.prems False c C Inl show ?thesis by auto
      next
        case no: False
        then have "cycle_loop on_gap net poll now first from end offs (failures @ [e]) p1 g1 = (p', g', r)"
          using Cons.prems False c Inl by (cases e) auto
        from Cons.IH [OF this] C Cons.prems(2) Inl show ?thesis by (cases r) simp_all
      qed
    qed
  qed (use Cons.prems in auto)
qed auto

lemma cycle_loop_pool:
  assumes "cycle_loop on_gap net poll now first from end offs [] p g = (p', g', r)" and "pool_inv p" and "tame net" and "idx p < length (urls p)"
  shows "pool_inv p' \<and> idx p' < length (urls p') \<and> passphrase p' = passphrase p"
proof -
  have "urls p \<noteq> []" using assms(2) by (simp add: pool_inv_def)
  note I = cycle_loop_idx [OF assms(1) this]
  note S = cycle_loop_spec [OF assms(1,2) assms(3) [unfolded tame_def]]
  from I S assms(4) show ?thesis by (cases r) auto
qed

lemma rotate_pool_ok:
  assumes "rotate_pool on_gap net poll now from end p g = (p', g', r)" and "pool_inv p" and "tame net" and "idx p < length (urls p)"
  shows "pool_inv p' \<and> idx p' < length (urls p') \<and> passphrase p' = passphrase p"
proof -
  have q: "pool_inv (close_session p)" "urls (close_session p) = urls p" "idx (close_session p) = idx p" "passphrase (close_session p) = passphrase p"
    using assms(2) by (auto simp: close_session_def pool_inv_def split: option.splits)
  have "cycle_loop on_gap net poll now (idx p + 1) from end [0..<length (urls (close_session p))] [] (close_session p) g = (p', g', r)"
    using assms(1) q by (simp add: rotate_pool_def cycle_def)
  from cycle_loop_pool [OF this q(1) assms(3)] assms(4) q show ?thesis by simp
qed

lemma sections_pool:
  "continuity_section meta l = (l', a) \<Longrightarrow> lp_pool l' = lp_pool l"
  "process_section pl tu meta l = (l', b) \<Longrightarrow> lp_pool l' = lp_pool l"
  "publish_section pl es l = (l', c) \<Longrightarrow> lp_pool l' = lp_pool l"
  "save_section pl st l = (l', c) \<Longrightarrow> lp_pool l' = lp_pool l"
  "lp_pool (report_section tu meta m n l) = lp_pool l"
  by (auto simp: continuity_section_def process_section_def publish_section_def save_section_def set_world_def report_section_def Let_def
      split: if_splits option.splits prod.splits sum.splits publish_result.splits)

lemma more_sections_pool:
  "state_section pl cfg tu meta active l = (l', n) \<Longrightarrow> lp_pool l' = lp_pool l"
  "sweep_section pl cfg tu meta l = (l', n) \<Longrightarrow> lp_pool l' = lp_pool l"
  "checkpoint_section pl cfg tu meta l = (l', u) \<Longrightarrow> lp_pool l' = lp_pool l"
  "command_section pl cfg tu meta l = (l', u) \<Longrightarrow> lp_pool l' = lp_pool l"
  "hold_section pl cfg tu meta l = (l', u) \<Longrightarrow> lp_pool l' = lp_pool l"
  by (auto simp: state_section_def sweep_section_def checkpoint_section_def command_section_def hold_section_def Let_def
      split: if_splits option.splits prod.splits sum.splits publish_result.splits elim!: then_doE dest!: sections_pool(1-4))

lemma ledger_turn_pool: "ledger_turn pl cfg tu meta l = (l', x) \<Longrightarrow> lp_pool l' = lp_pool l"
  unfolding ledger_turn_def
  by (auto elim!: then_doE split: prod.splits dest!: sections_pool(1-4) more_sections_pool simp: sections_pool(5))

lemma new_rpc_pool_ok: "pool_inv (new_rpc_pool url fallbacks pass full) \<and> idx (new_rpc_pool url fallbacks pass full) < length (urls (new_rpc_pool url fallbacks pass full))"
  by (simp add: new_rpc_pool_def pool_inv_def)

lemma rotate_section_pool:
  assumes "rotate_section pl cfg tu l = (l', x)" and "pool_inv (lp_pool l)" and "tame (tu_net tu)" and "idx (lp_pool l) < length (urls (lp_pool l))"
  shows "pool_inv (lp_pool l') \<and> idx (lp_pool l') < length (urls (lp_pool l')) \<and> passphrase (lp_pool l') = passphrase (lp_pool l)"
proof -
  obtain p gaps w res where r: "rotate_pool (on_gap_hook pl cfg (reg_of l)) (tu_net tu) (tu_pool_poll tu) (tu_now tu) (lp_current l) (cg_end cfg)
      (lp_pool l) (lp_gaps l, world l) = (p, (gaps, w), res)" by (metis surj_pair)
  then have "lp_pool l' = p" using assms(1)
    by (auto simp: rotate_section_def Let_def set_world_def split: sum.splits if_splits dest!: sections_pool(3))
  with rotate_pool_ok [OF r assms(2-4)] show ?thesis by simp
qed

context outside begin

lemma turn_step_state_ok:
  assumes "turn_step pl cfg tu l = (l', x)" and "state_ok pass l" and "tame (tu_net tu)"
  shows "state_ok pass l'"
proof -
  have r: "reg_inv (reg_of l')" using turn_step_good [OF assms(1)] assms(2) by (simp add: state_ok_def)
  from assms(1) consider "l' = l" | meta where "ledger_turn pl cfg tu meta l = (l', x)" | "rotate_section pl cfg tu l = (l', x)"
    by (auto simp: turn_step_def split: if_splits sum.splits)
  then show ?thesis
  proof cases
    case (2 meta)
    with ledger_turn_pool [OF 2] r assms(2) show ?thesis by (simp add: state_ok_def)
  next
    case 3
    with rotate_section_pool [OF 3 _ assms(3)] r assms(2) show ?thesis by (simp add: state_ok_def)
  qed (use assms(2) in simp)
qed

lemma ingest_loop_state_ok:
  "ingest_loop pl cfg tus l log = (l', x, log') \<Longrightarrow> state_ok pass l \<Longrightarrow> \<forall>tu\<in>set tus. tame (tu_net tu) \<Longrightarrow> state_ok pass l'"
proof (induction tus arbitrary: l log)
  case Nil
  then show ?case by (auto simp: ingest_loop.simps split: if_splits)
next
  case (Cons tu tus)
  show ?case
  proof (cases "cg_end cfg \<noteq> 0 \<and> lp_current l > cg_end cfg")
    case True
    with Cons.prems show ?thesis by (auto simp: ingest_loop.simps [of pl cfg "tu # tus"])
  next
    case go: False
    obtain l1 y where t: "turn_step pl cfg tu l = (l1, y)" by fastforce
    have ok: "state_ok pass l1" using turn_step_state_ok [OF t Cons.prems(2)] Cons.prems(3) by simp
    show ?thesis
    proof (cases y)
      case (Inl e)
      with Cons.prems(1) go t ok show ?thesis by (simp add: ingest_loop.simps [of pl cfg "tu # tus"])
    next
      case (Inr u)
      with Cons.prems(1) go t have "ingest_loop pl cfg tus l1 (log @ journal_entry pl cfg tu l) = (l', x, log')"
        by (simp add: ingest_loop.simps [of pl cfg "tu # tus"] if_not_P [OF go])
      from Cons.IH [OF this ok] Cons.prems(3) show ?thesis by simp
    qed
  qed
qed

lemma boot_state_ok:
  assumes "boot pl cfg bi w = (w', Inr l)" and "bi_pool bi = new_rpc_pool url fallbacks pass full" and "tame (bi_net bi)"
  shows "state_ok pass l"
proof -
  obtain w1 st lerr where l1: "pl_load pl w = (w1, st, lerr)" by (metis prod_cases3)
  then obtain rs where rs: "resume_decision cfg st lerr = Ok rs" using assms(1) by (auto simp: boot_def split: sum.splits)
  from boot_started [OF assms(1) l1 rs] obtain reg q gaps w3 start w2 where
    L: "l = boot_state pl cfg bi rs reg q gaps start w3" and reg: "boot_registry cfg bi rs = Ok reg" and
    c: "connect (on_gap_hook pl cfg reg) (bi_net bi) (bi_poll bi) (bi_now bi) (rs_start rs) (cg_end cfg) (bi_pool bi) (rs_gaps rs, w1)
      = (q, (gaps, w2), Ok start)" by blast
  from cycle_loop_pool [OF c [unfolded connect_def cycle_def]] assms(2,3) new_rpc_pool_ok [of url fallbacks pass full]
  have "pool_inv q \<and> idx q < length (urls q) \<and> passphrase q = pass" by (simp add: new_rpc_pool_def)
  with boot_registry_inv [OF reg] show ?thesis by (simp add: L state_ok_def boot_state_def Let_def)
qed

end

text \<open>
  C10. The loop state stays well-formed. From boot on, whatever happens in whatever turns, the registry is
  consistent, the index of the active endpoint is within the list (so that no access to it can panic), the
  pool checks for the configured network, and no session but the current one is open: closing the pool at the
  end of the run leaves no handle.
\<close>

theorem run_stays_wellformed:
  assumes "boot (station_plant sdk rpc parse k broker wait flt) cfg bi s = (s', Inr l)"
    and "ingest_loop (station_plant sdk rpc parse k broker wait flt) cfg tus l [] = (l', x, log)"
    and "bi_pool bi = new_rpc_pool url fallbacks (cg_passphrase cfg) full" and "tame (bi_net bi)" and "\<forall>tu\<in>set tus. tame (tu_net tu)"
  shows "state_ok (cg_passphrase cfg) l' \<and> handles (close_pool (lp_pool l')) = {}"
proof -
  have "state_ok (cg_passphrase cfg) l'"
    by (rule station.ingest_loop_state_ok [OF assms(2) station.boot_state_ok [OF assms(1,3,4)] assms(5)])
  then show ?thesis by (auto simp: state_ok_def pool_inv_def close_pool_def close_session_def split: option.splits)
qed

lemma run_stays_wellformed_witness:
  "\<exists>s' l l' x log. boot sample_plant sample_config sample_boot kept_station = (s', Inr l) \<and>
     ingest_loop sample_plant sample_config [tip_turn, stop_turn] l [] = (l', x, log) \<and> state_ok ''Test'' l'"
proof -
  from sample_boots obtain s' l where b: "boot sample_plant sample_config sample_boot kept_station = (s', Inr l)"
    by (metis prod.collapse)
  obtain l' x log where g: "ingest_loop sample_plant sample_config [tip_turn, stop_turn] l [] = (l', x, log)" by (metis prod_cases3)
  have "state_ok (cg_passphrase sample_config) l' \<and> handles (close_pool (lp_pool l')) = {}"
    by (rule run_stays_wellformed [OF b [unfolded sample_plant_def] g [unfolded sample_plant_def], of "''shallow''" "[''deep'']" False])
      (simp_all add: sample_boot_def sample_config_def two_pool_def tame_def no_terminal_def endpoint_def tip_turn_def stop_turn_def)
  with b g show ?thesis by (auto simp: sample_config_def)
qed

section \<open>A run from its configuration\<close>

text \<open>
  What a run meets beside its configuration: the libraries and services, the outcome of preparing the state
  directory, the seed file, the dial of the broker, the endpoints at boot, and the error of closing the
  broker's connection.
\<close>

record host =
  ho_sdk :: sdk
  ho_rpc :: "nat \<Rightarrow> rpc"
  ho_parse :: "string \<Rightarrow> string option"
  ho_codec :: codec
  ho_broker :: broker
  ho_wait :: "nat \<Rightarrow> nat \<Rightarrow> duration \<Rightarrow> err option"
  ho_fault :: "nat \<Rightarrow> fault"
  ho_prep :: "err option"
  ho_seed :: "(string list \<times> err option) option"
  ho_amqp :: amqp_env
  ho_net :: network
  ho_poll :: "nat \<Rightarrow> bool"
  ho_now :: time
  ho_version :: string
  ho_close :: "err option"

text \<open>The noop sink behind the same retry policy, and the null store of a replay.\<close>

definition noop_station_publish :: "(nat \<Rightarrow> duration \<Rightarrow> err option) \<Rightarrow> station publisher" where
  "noop_station_publish wait e s =
     (case bp_publish noop_publish wait e [] of (ids, r) \<Rightarrow> (s\<lparr>sn_hist := sn_hist s @ map Accepted ids\<rparr>, r))"

definition null_station_load :: "station \<Rightarrow> station \<times> istate \<times> err option" where
  "null_station_load s = (s, null_load)"

definition null_station_save :: "istate \<Rightarrow> station \<Rightarrow> station \<times> err option" where
  "null_station_save st s = (s\<lparr>sn_hist := sn_hist s @ [Saved st]\<rparr>, null_save st)"

definition host_plant :: "host \<Rightarrow> config \<Rightarrow> station plant" where
  "host_plant ho c =
     \<lparr>pl_sdk = ho_sdk ho, pl_entries = ho_rpc ho,
      pl_publish = (if sk_type (cf_sink c) = ''rabbitmq'' then station_publish (ho_codec ho) (ho_broker ho) (ho_wait ho)
        else noop_station_publish (ho_wait ho 0)),
      pl_load = (if cf_replay c then null_station_load else station_load),
      pl_save = (if cf_replay c then null_station_save else station_save (ho_fault ho)), pl_parse_url = ho_parse ho\<rparr>"

definition null_store :: file_store where
  "null_store = \<lparr>fs_path = [], fs_lock = False, fs_last = None\<rparr>"

definition no_rabbit :: rabbit where
  "no_rabbit = \<lparr>rb_cfg = \<lparr>cfg_url = [], cfg_exchange = [], cfg_confirms = False, cfg_signature_key = []\<rparr>, rb_conn = False, rb_chan = False,
     rb_returns = [], rb_closed = False, rb_sent = []\<rparr>"

definition boot_inputs_of :: "host \<Rightarrow> config \<Rightarrow> disk \<Rightarrow> boot_inputs" where
  "boot_inputs_of ho c d =
     \<lparr>bi_seed = load_seed (ec_seed_path (cf_escrow c)) (ho_seed ho), bi_watchlist = read_only_watchlist d (sf_path (cf_state c)),
      bi_sink = (case new_sink (ho_amqp ho) (sink_settings_of c) of Err e \<Rightarrow> Some e | Ok _ \<Rightarrow> None), bi_pool = pool_of_config c,
      bi_net = ho_net ho, bi_poll = ho_poll ho, bi_now = ho_now ho, bi_version = ho_version ho\<rparr>"

definition rabbit_of :: "host \<Rightarrow> config \<Rightarrow> rabbit" where
  "rabbit_of ho c = (case new_sink (ho_amqp ho) (sink_settings_of c) of Ok (RabbitSink r) \<Rightarrow> r | _ \<Rightarrow> no_rabbit)"

definition open_store :: "host \<Rightarrow> config \<Rightarrow> disk \<Rightarrow> disk \<times> (err + file_store)" where
  "open_store ho c d = (if cf_replay c then (d, Ok null_store) else new_file_store (ho_prep ho) (sf_path (cf_state c)) d)"

text \<open>How a run ends. A run that has not returned yet, or never will, has not made its deferred calls.\<close>

record outcome =
  oc_exit :: "exit option"
  oc_disk :: disk
  oc_rabbit :: rabbit
  oc_hist :: "happening list"
  oc_journal :: "station journal"

definition ingest_main :: "host \<Rightarrow> config \<Rightarrow> turn list \<Rightarrow> disk \<Rightarrow> outcome" where
  "ingest_main ho c tus d =
     (case open_store ho c d of
        (d1, Err e) \<Rightarrow> \<lparr>oc_exit = Some (ReturnsErr e), oc_disk = d1, oc_rabbit = no_rabbit, oc_hist = [], oc_journal = []\<rparr>
      | (d1, Ok store) \<Rightarrow>
          (case ingest_process (host_plant ho c) (ingest_settings c) (boot_inputs_of ho c d1) tus
                  \<lparr>sn_rabbit = rabbit_of ho c, sn_store = store, sn_disk = d1, sn_hist = []\<rparr> of
             (s, x, log) \<Rightarrow>
               if x = None \<or> x = Some NeverReturns
               then \<lparr>oc_exit = x, oc_disk = sn_disk s, oc_rabbit = sn_rabbit s, oc_hist = sn_hist s, oc_journal = log\<rparr>
               else \<lparr>oc_exit = x, oc_disk = snd (close_store (sn_store s) (sn_disk s)), oc_rabbit = fst (rabbit_close (ho_close ho) (sn_rabbit s)),
                     oc_hist = sn_hist s, oc_journal = log\<rparr>))"

text \<open>What every step of a run keeps: the locks, the store's identity, and in a replay the whole disk.\<close>

definition undisturbed :: "config \<Rightarrow> string set \<Rightarrow> string \<Rightarrow> disk \<Rightarrow> station \<Rightarrow> bool" where
  "undisturbed c held p d s \<longleftrightarrow> locks (sn_disk s) = held \<and> fs_path (sn_store s) = p \<and> fs_lock (sn_store s) = (\<not> cf_replay c) \<and>
     cache_ok (sn_store s) (sn_disk s) \<and> (cf_replay c \<longrightarrow> sn_disk s = d)"

lemma load_lock: "load w s = (s', st, er) \<Longrightarrow> fs_lock s' = fs_lock s"
  by (auto simp: load_def load_orphan_watchlist_def split: option.splits read_result.splits if_splits)

lemma fresh_cache: "cache_ok (fresh p) w"
  by (simp add: cache_ok_def fresh_def)

lemma undisturbed_save:
  assumes "station_save flt st s = (s', er)" and "undisturbed c held p d s" and "\<not> cf_replay c"
  shows "undisturbed c held p d s'"
proof -
  obtain store disk r where v: "save flt st (sn_store s) (sn_disk s) = (store, disk, r)" by (metis prod_cases3)
  from assms(2) have c: "cache_ok (sn_store s) (sn_disk s)" by (simp add: undisturbed_def)
  note S = save_files(3-6) [OF v c]
  obtain re st1 er1 where l: "load disk (fresh (fs_path store)) = (re, st1, er1)" by (metis prod_cases3)
  have "fs_lock re" "fs_path re = fs_path store" "cache_ok re disk"
    using load_lock [OF l] load_keeps [OF l fresh_cache] by (simp_all add: fresh_def)
  moreover have "s' = s\<lparr>sn_store := (if r = Dead then re else store), sn_disk := disk, sn_hist := sn_hist s @ [Saved st]\<rparr>"
    using assms(1) v l by (simp add: station_save_def split: io.splits)
  ultimately show ?thesis using assms(2,3) S by (cases "r = Dead") (simp_all add: undisturbed_def)
qed

lemma noop_station_publish_eq: "noop_station_publish wait e s = (s\<lparr>sn_hist := sn_hist s @ [Accepted (en_message_id e)]\<rparr>, Delivered)"
proof -
  have "bp_publish noop_publish wait e [] = ([en_message_id e], Delivered)"
    unfolding bp_publish_def by (subst bp_loop.simps) (simp add: noop_publish_def)
  then show ?thesis by (simp add: noop_station_publish_def)
qed

lemma host_publish:
  assumes "pl_publish (host_plant ho c) e s = (s', r)"
  shows "\<exists>ids. sn_hist s' = sn_hist s @ map Accepted ids \<and> (r = Delivered \<longrightarrow> ids = [en_message_id e])"
    and "sn_disk s' = sn_disk s \<and> sn_store s' = sn_store s"
proof -
  have "(\<exists>ids. sn_hist s' = sn_hist s @ map Accepted ids \<and> (r = Delivered \<longrightarrow> ids = [en_message_id e])) \<and> sn_disk s' = sn_disk s \<and> sn_store s' = sn_store s"
  proof (cases "sk_type (cf_sink c) = ''rabbitmq''")
    case True
    then have p: "station_publish (ho_codec ho) (ho_broker ho) (ho_wait ho) e s = (s', r)" using assms by (simp add: host_plant_def)
    moreover from p have "sn_disk s' = sn_disk s \<and> sn_store s' = sn_store s" by (auto simp: station_publish_def Let_def split: prod.splits)
    ultimately show ?thesis using station_publish_hist [OF p] by blast
  next
    case False
    then have "s' = s\<lparr>sn_hist := sn_hist s @ [Accepted (en_message_id e)]\<rparr>" "r = Delivered"
      using assms by (simp_all add: host_plant_def noop_station_publish_eq)
    then show ?thesis by (auto intro!: exI [of _ "[en_message_id e]"])
  qed
  then show "\<exists>ids. sn_hist s' = sn_hist s @ map Accepted ids \<and> (r = Delivered \<longrightarrow> ids = [en_message_id e])"
    and "sn_disk s' = sn_disk s \<and> sn_store s' = sn_store s" by blast+
qed

interpretation host: outside "host_plant ho c" sn_hist "undisturbed c held p d" for ho c held p d
proof
  fix e s s'
  assume "pl_publish (host_plant ho c) e s = (s', Delivered)"
  from host_publish(1) [OF this] show "sn_hist s' = sn_hist s @ [Accepted (en_message_id e)]" by auto
next
  fix e s s' r
  assume "pl_publish (host_plant ho c) e s = (s', r)"
  from host_publish [OF this] show "emits sn_hist (undisturbed c held p d) (\<lambda>_. False) s s'"
    unfolding emits_def undisturbed_def by auto
next
  fix st s s' er
  assume v: "pl_save (host_plant ho c) st s = (s', er)"
  have "sn_hist s' = sn_hist s @ [Saved st]"
    using v by (auto simp: host_plant_def null_station_save_def station_save_def split: if_splits prod.splits)
  moreover have "undisturbed c held p d s \<Longrightarrow> undisturbed c held p d s'"
    using v undisturbed_save [of "ho_fault ho" st s s' er] by (auto simp: host_plant_def null_station_save_def undisturbed_def split: if_splits)
  ultimately show "emits sn_hist (undisturbed c held p d) (\<lambda>st'. st' = st) s s'" unfolding emits_def by auto
next
  fix st s s'
  assume "pl_save (host_plant ho c) st s = (s', None)"
  then show "sn_hist s' = sn_hist s @ [Saved st]"
    by (auto simp: host_plant_def null_station_save_def station_save_def split: if_splits prod.splits)
next
  fix s s' st er
  assume l: "pl_load (host_plant ho c) s = (s', st, er)"
  show "sn_hist s' = sn_hist s \<and> (undisturbed c held p d s \<longrightarrow> undisturbed c held p d s')"
    using l load_lock load_keeps
    by (auto simp: host_plant_def null_station_load_def station_load_def undisturbed_def split: if_splits prod.splits)
qed

context outside begin

text \<open>A run keeps what the world keeps of itself, however it ends.\<close>

lemma ingest_process_good:
  assumes "ingest_process pl cfg bi tus w = (w', x, log)" and "good w"
  shows "good w'"
proof -
  obtain wb y where b: "boot pl cfg bi w = (wb, y)" by fastforce
  obtain w1 st lerr where l: "pl_load pl w = (w1, st, lerr)" by (metis prod_cases3)
  have g1: "good w1" using load_any [OF l] assms(2) by simp
  have B: "good wb \<and> (\<forall>l. y = Inr l \<longrightarrow> world l = wb \<and> reg_inv (reg_of l))"
  proof (cases "\<exists>e. y = Inl e \<and> wb = w1")
    case True
    with g1 show ?thesis by auto
  next
    case False
    with b l obtain rs reg where rs: "resume_decision cfg st lerr = Ok rs" and reg: "boot_registry cfg bi rs = Ok reg" and s: "bi_sink bi = None"
      by (auto simp: boot_def split: sum.splits option.splits)
    obtain p gaps w2 res where c: "connect (on_gap_hook pl cfg reg) (bi_net bi) (bi_poll bi) (bi_now bi) (rs_start rs) (cg_end cfg)
        (bi_pool bi) (rs_gaps rs, w1) = (p, (gaps, w2), res)" by (metis surj_pair)
    note ri = boot_registry_inv [OF reg]
    have g2: "good w2" by (rule emits_good [OF conjunct1 [OF hook_effect [OF connect_gap [OF c] ri]] g1])
    show ?thesis
    proof (cases res)
      case (Inl e)
      with b l rs reg s c g2 show ?thesis by (auto simp: boot_def)
    next
      case (Inr start)
      obtain w3 r where q: "publish_gaps (pl_publish pl) (bi_now bi) (cg_network cfg) gaps w2 = (w3, r)" by fastforce
      then have "good w3" using emits_good [OF publish_all_any] g2 by (auto simp: publish_gaps_def)
      moreover have "wb = w3 \<and> (y = Inr (boot_state pl cfg bi rs reg p gaps start w3) \<or> (\<exists>x. y = Inl x))"
        using b l rs reg s c Inr q by (cases r) (auto simp: boot_def)
      ultimately show ?thesis using ri by (auto simp: boot_state_def Let_def)
    qed
  qed
  show ?thesis
  proof (cases y)
    case (Inl e)
    with assms(1) b B show ?thesis by (auto simp: ingest_process_def)
  next
    case (Inr l')
    obtain l'' z log1 where g: "ingest_loop pl cfg tus l' [] = (l'', z, log1)" by (metis prod_cases3)
    then have "w' = world l''" using assms(1) b Inr by (auto simp: ingest_process_def)
    with ingest_loop_good [OF g] B Inr show ?thesis by auto
  qed
qed

end

lemma ingest_main_undisturbed:
  assumes "open_store ho c d = (d1, Ok store)" and "cf_replay c \<longrightarrow> d1 = d"
    and "ingest_process (host_plant ho c) (ingest_settings c) bi tus \<lparr>sn_rabbit = rb, sn_store = store, sn_disk = d1, sn_hist = []\<rparr> = (s, x, log)"
  shows "undisturbed c (locks d1) (fs_path store) d s"
proof -
  have "undisturbed c (locks d1) (fs_path store) d \<lparr>sn_rabbit = rb, sn_store = store, sn_disk = d1, sn_hist = []\<rparr>"
    using assms(1,2) by (auto simp: undisturbed_def open_store_def null_store_def new_file_store_def cache_ok_def Let_def split: if_splits option.splits)
  from host.ingest_process_good [OF assms(3) this] show ?thesis .
qed

lemma replay_keeps_disk:
  assumes "cf_replay c"
  shows "oc_disk (ingest_main ho c tus d) = d"
proof -
  have o1: "open_store ho c d = (d, Ok null_store)" by (simp add: open_store_def assms)
  obtain s x log where r: "ingest_process (host_plant ho c) (ingest_settings c) (boot_inputs_of ho c d) tus
      \<lparr>sn_rabbit = rabbit_of ho c, sn_store = null_store, sn_disk = d, sn_hist = []\<rparr> = (s, x, log)" by (metis prod_cases3)
  from ingest_main_undisturbed [OF o1 _ r] have "undisturbed c (locks d) (fs_path null_store) d s" by simp
  then have "sn_disk s = d" "\<not> fs_lock (sn_store s)" by (simp_all add: undisturbed_def assms)
  with o1 r show ?thesis by (simp add: ingest_main_def close_store_def)
qed

text \<open>
  C11. A replay is invisible to the live indexer. Whatever a replay meets and however it ends, the disk is exactly
  as it was: no cursor, no watchlist, no gap, no lock, no temporary file.
\<close>

theorem replay_leaves_disk:
  assumes "cf_replay c"
  shows "oc_disk (ingest_main ho c tus d) = d"
  by (rule replay_keeps_disk [OF assms])

text \<open>
  C13. One live indexer at a time, and nothing left behind. A run whose lock is held by another process ends at once
  with that error, without publishing; a run that returns, with or without an error, has released its lock and
  closed the broker's channel and connection.
\<close>

theorem run_is_exclusive_and_clean:
  assumes "sf_path (cf_state c) \<noteq> []" and "ho_prep ho = None" and "\<not> cf_replay c"
  shows "(if sf_path (cf_state c) @ ''.lock'' \<in> locks d
      then oc_exit (ingest_main ho c tus d) = Some (ReturnsErr ErrStateLockHeld) \<and> oc_disk (ingest_main ho c tus d) = d \<and>
        oc_hist (ingest_main ho c tus d) = []
      else oc_exit (ingest_main ho c tus d) \<in> {None, Some NeverReturns} \<and> locks (oc_disk (ingest_main ho c tus d)) = insert (sf_path (cf_state c) @ ''.lock'') (locks d) \<or>
        oc_exit (ingest_main ho c tus d) \<notin> {None, Some NeverReturns} \<and> locks (oc_disk (ingest_main ho c tus d)) = locks d \<and>
        \<not> rb_chan (oc_rabbit (ingest_main ho c tus d)) \<and> \<not> rb_conn (oc_rabbit (ingest_main ho c tus d)))"
proof (cases "sf_path (cf_state c) @ ''.lock'' \<in> locks d")
  case True
  with assms show ?thesis by (simp add: ingest_main_def open_store_def new_file_store_def)
next
  case False
  let ?p = "sf_path (cf_state c)"
  let ?d1 = "d\<lparr>locks := insert (?p @ ''.lock'') (locks d)\<rparr>" and ?store = "\<lparr>fs_path = ?p, fs_lock = True, fs_last = None\<rparr>"
  have o1: "open_store ho c d = (?d1, Ok ?store)" using assms False by (simp add: open_store_def new_file_store_def)
  obtain s x log where r: "ingest_process (host_plant ho c) (ingest_settings c) (boot_inputs_of ho c ?d1) tus
      \<lparr>sn_rabbit = rabbit_of ho c, sn_store = ?store, sn_disk = ?d1, sn_hist = []\<rparr> = (s, x, log)" by (metis prod_cases3)
  from ingest_main_undisturbed [OF o1 _ r] have u: "undisturbed c (insert (?p @ ''.lock'') (locks d)) ?p d s" by (simp add: assms(3))
  then have k: "locks (sn_disk s) = insert (?p @ ''.lock'') (locks d)" "fs_lock (sn_store s)" "fs_path (sn_store s) = ?p"
    by (simp_all add: undisturbed_def assms(3))
  have rb: "\<not> rb_chan (fst (rabbit_close e q)) \<and> \<not> rb_conn (fst (rabbit_close e q))" for e q
    by (simp add: rabbit_close_def Let_def)
  show ?thesis
  proof (cases "x = None \<or> x = Some NeverReturns")
    case True
    with o1 r k False show ?thesis by (auto simp: ingest_main_def)
  next
    case no: False
    then have "oc_exit (ingest_main ho c tus d) = x" "oc_disk (ingest_main ho c tus d) = snd (close_store (sn_store s) (sn_disk s))"
      "oc_rabbit (ingest_main ho c tus d) = fst (rabbit_close (ho_close ho) (sn_rabbit s))"
      using o1 r by (auto simp: ingest_main_def)
    with no k False rb show ?thesis by (simp add: close_store_def)
  qed
qed

section \<open>The abstract feed\<close>

text \<open>What the process of this run reads first: the null store's answer, or the record on the disk.\<close>

definition first_read :: "config \<Rightarrow> disk \<Rightarrow> istate \<times> err option" where
  "first_read c d = (if cf_replay c then null_load else loaded d (sf_path (cf_state c)))"

lemma loaded_locks: "loaded (d\<lparr>locks := L\<rparr>) p = loaded d p"
  by (simp add: loaded_def load_def load_orphan_watchlist_def read_file_def cong: option.case_cong read_result.case_cong)

lemma opened_read:
  assumes "open_store ho c d = (d1, Ok store)"
  shows "\<exists>s1. pl_load (host_plant ho c) \<lparr>sn_rabbit = rb, sn_store = store, sn_disk = d1, sn_hist = []\<rparr> = (s1, first_read c d)"
proof (cases "cf_replay c")
  case True
  then show ?thesis by (simp add: host_plant_def null_station_load_def first_read_def)
next
  case False
  let ?p = "sf_path (cf_state c)"
  let ?s = "\<lparr>sn_rabbit = rb, sn_store = store, sn_disk = d1, sn_hist = []\<rparr>"
  have o1: "store = fresh ?p" "loaded d1 ?p = loaded d ?p"
    using assms False by (auto simp: open_store_def new_file_store_def fresh_def Let_def loaded_locks split: if_splits option.splits)
  then have "sn_store ?s = fresh ?p" "loaded (sn_disk ?s) ?p = (fst (first_read c d), snd (first_read c d))"
    using False by (simp_all add: first_read_def)
  from station_load_fresh [OF this] False show ?thesis by (auto simp: host_plant_def)
qed

text \<open>
  C2. The indexer refines the abstract feed. For every configuration, disk and host and all turns, be it a first start,
  a resumption, a start on a leftover watchlist or a replay, with either sink: the history of the run (what its sink
  took and what its store was given to save, in order) is a behaviour of the abstract machine that starts where
  the first answer of the store says; and the ledgers that the machine completes are those of the run's journal,
  except possibly the last one.
\<close>

theorem ingest_refines_feed:
  "\<exists>f. feed (ingest_settings c) (feed_origin (ingest_settings c) (first_read c d)) (oc_hist (ingest_main ho c tus d)) f \<and>
    (map snd (oc_journal (ingest_main ho c tus d)) = fd_done f \<or>
     (\<exists>e. map snd (oc_journal (ingest_main ho c tus d)) = fd_done f @ [e]))"
proof -
  let ?cfg = "ingest_settings c" and ?f0 = "feed_origin (ingest_settings c) (first_read c d)"
  obtain d1 r where o1: "open_store ho c d = (d1, r)" by fastforce
  show ?thesis
  proof (cases r)
    case (Inl e)
    then have "oc_hist (ingest_main ho c tus d) = []" "oc_journal (ingest_main ho c tus d) = []"
      using o1 by (simp_all add: ingest_main_def)
    moreover have "feed ?cfg ?f0 [] ?f0" by (rule feed.idle)
    moreover have "fd_done ?f0 = []" by (simp add: feed_origin_def feed_start_def split: prod.splits)
    ultimately show ?thesis by (intro exI [of _ ?f0]) simp
  next
    case (Inr store)
    let ?s = "\<lparr>sn_rabbit = rabbit_of ho c, sn_store = store, sn_disk = d1, sn_hist = []\<rparr>"
    obtain s x log where p: "ingest_process (host_plant ho c) ?cfg (boot_inputs_of ho c d1) tus ?s = (s, x, log)" by (metis prod_cases3)
    from opened_read [OF o1 [unfolded Inr]] obtain s1 where l: "pl_load (host_plant ho c) ?s = (s1, first_read c d)" by blast
    have "ends_as sn_hist ?cfg ?f0 (sn_hist ?s) s log"
      using host.process_refines_origin [OF p, of s1 "fst (first_read c d)" "snd (first_read c d)"] l by simp
    moreover have "oc_hist (ingest_main ho c tus d) = sn_hist s" "oc_journal (ingest_main ho c tus d) = log"
      using o1 Inr p by (simp_all add: ingest_main_def)
    ultimately show ?thesis by (auto simp: ends_as_def follows_def)
  qed
qed

section \<open>A host for the examples\<close>

definition sample_host :: host where
  "sample_host = \<lparr>ho_sdk = sample_sdk, ho_rpc = (\<lambda>_. no_entries), ho_parse = (\<lambda>_. None), ho_codec = sample_codec, ho_broker = sample_broker,
     ho_wait = (\<lambda>_ _ _. None), ho_fault = (\<lambda>_. Fine), ho_prep = None, ho_seed = None,
     ho_amqp = \<lparr>am_dial = True, am_channel = True, am_declare = True, am_confirm = True\<rparr>, ho_net = (\<lambda>_ _. endpoint 2), ho_poll = (\<lambda>_. False),
     ho_now = 0, ho_version = ''dev'', ho_close = None\<rparr>"

lemma replay_leaves_disk_witness:
  "cf_replay (plain_config\<lparr>cf_replay := True\<rparr>) \<and>
   oc_disk (ingest_main sample_host (plain_config\<lparr>cf_replay := True\<rparr>) [tip_turn, stop_turn] (disk_of sample_record)) = disk_of sample_record"
  using replay_leaves_disk [of "plain_config\<lparr>cf_replay := True\<rparr>" sample_host "[tip_turn, stop_turn]" "disk_of sample_record"] by simp

lemma run_is_exclusive_and_clean_witness:
  "oc_exit (ingest_main sample_host plain_config [tip_turn] (empty_disk\<lparr>locks := {''s.json.lock''}\<rparr>)) = Some (ReturnsErr ErrStateLockHeld)"
  using run_is_exclusive_and_clean [of plain_config sample_host "empty_disk\<lparr>locks := {''s.json.lock''}\<rparr>" "[tip_turn]"]
  by (simp add: plain_config_def sample_host_def)

end
