(* ===== verification/Lives.thy ===== *)
theory Lives
  imports Run
begin

text \<open>
  Any number of processes on one disk, one after the other: live indexers that stop, fail or are killed, and
  replays between them. The property of a single start and of a single restart (\<open>Station\<close>) add up to one
  property of the whole history of a deployment.
\<close>

section \<open>The record of a run\<close>

lemma station_ok_accepted:
  assumes "station_ok cur p before n0 s" and "sn_disk s' = sn_disk s" and "sn_store s' = sn_store s" and "sn_hist s' = sn_hist s @ map Accepted ids"
  shows "station_ok cur p before n0 s'"
  using assms by (simp add: station_ok_def)

lemma host_stored:
  assumes "\<not> cf_replay c"
  shows "stored (host_plant ho c)"
proof (intro stored.intro outside.intro)
  fix e s s'
  assume "pl_publish (host_plant ho c) e s = (s', Delivered)"
  then show "sn_hist s' = sn_hist s @ [Accepted (en_message_id e)]" by (rule host.pub_delivered)
next
  fix cur p before n0 e s s' r
  assume v: "pl_publish (host_plant ho c) e s = (s', r)"
  from host_publish(1) [OF v] obtain ids where h: "sn_hist s' = sn_hist s @ map Accepted ids" by blast
  with host_publish(2) [OF v] station_ok_accepted [of cur p before n0 s s' ids]
  show "emits sn_hist (station_ok cur p before n0) (\<lambda>_. False) s s'" unfolding emits_def by auto
next
  fix cur p before n0 st s s' er
  assume "pl_save (host_plant ho c) st s = (s', er)"
  then have v: "station_save (ho_fault ho) st s = (s', er)" using assms by (simp add: host_plant_def)
  then have "sn_hist s' = sn_hist s @ [Saved st]" by (auto simp: station_save_def split: prod.splits)
  with station_ok_save [OF v] show "emits sn_hist (station_ok cur p before n0) (\<lambda>st'. st' = st) s s'" unfolding emits_def by auto
next
  fix st s s'
  assume "pl_save (host_plant ho c) st s = (s', None)"
  then show "sn_hist s' = sn_hist s @ [Saved st]" by (rule host.save_done)
next
  fix cur p before n0 s s' st er
  assume "pl_load (host_plant ho c) s = (s', st, er)"
  then have "station_load s = (s', st, er)" using assms by (simp add: host_plant_def)
  then show "sn_hist s' = sn_hist s \<and> (station_ok cur p before n0 s \<longrightarrow> station_ok cur p before n0 s')"
    using station_ok_load by (auto simp: station_load_def split: prod.splits)
next
  show "pl_load (host_plant ho c) = station_load" using assms by (simp add: host_plant_def)
qed

lemma holds_locks [simp]:
  "holds_pair (d\<lparr>locks := x\<rparr>) p a b = holds_pair d p a b" "holds_orphan (d\<lparr>locks := x\<rparr>) p = holds_orphan d p"
  by (simp_all add: holds_pair_def holds_orphan_def readable_def)

text \<open>A run either ends at the store, with the disk as it was, or is a process on a fresh store, up to its lock.\<close>

lemma ingest_main_cases:
  assumes "\<not> cf_replay c" and "sf_path (cf_state c) = p"
  obtains (refused) "oc_disk (ingest_main ho c tus d) = d"
  | (ran) s s' x log held held' where "ingest_process (host_plant ho c) (ingest_settings c) (boot_inputs_of ho c (sn_disk s)) tus s = (s', x, log)"
      and "sn_store s = fresh p" and "sn_disk s = d\<lparr>locks := held\<rparr>" and "oc_disk (ingest_main ho c tus d) = (sn_disk s')\<lparr>locks := held'\<rparr>"
      and "oc_hist (ingest_main ho c tus d) = sn_hist s'" and "oc_journal (ingest_main ho c tus d) = log"
proof (cases "open_store ho c d")
  case (Pair d1 r)
  show thesis
  proof (cases r)
    case (Inl e)
    with Pair assms(1) have "d1 = d" by (auto simp: open_store_def new_file_store_def Let_def split: if_splits option.splits)
    with Pair Inl refused show thesis by (simp add: ingest_main_def)
  next
    case (Inr store)
    with Pair assms have o1: "store = fresh p" "d1 = d\<lparr>locks := insert (p @ ''.lock'') (locks d)\<rparr>"
      by (auto simp: open_store_def new_file_store_def fresh_def Let_def split: if_splits option.splits)
    let ?s = "\<lparr>sn_rabbit = rabbit_of ho c, sn_store = store, sn_disk = d1, sn_hist = []\<rparr>"
    obtain s' x log where r: "ingest_process (host_plant ho c) (ingest_settings c) (boot_inputs_of ho c d1) tus ?s = (s', x, log)" by (metis prod_cases3)
    have "\<exists>held'. oc_disk (ingest_main ho c tus d) = (sn_disk s')\<lparr>locks := held'\<rparr>"
    proof (cases "x = None \<or> x = Some NeverReturns")
      case True
      with Pair Inr r show ?thesis by (intro exI [of _ "locks (sn_disk s')"]) (auto simp: ingest_main_def)
    next
      case False
      with Pair Inr r have "oc_disk (ingest_main ho c tus d) = snd (close_store (sn_store s') (sn_disk s'))" by (auto simp: ingest_main_def)
      then show ?thesis
        by (cases "fs_lock (sn_store s')") (auto simp: close_store_def intro: exI [of _ "locks (sn_disk s')"])
    qed
    then obtain held' where "oc_disk (ingest_main ho c tus d) = (sn_disk s')\<lparr>locks := held'\<rparr>" ..
    moreover have "oc_hist (ingest_main ho c tus d) = sn_hist s'" "oc_journal (ingest_main ho c tus d) = log"
      using Pair Inr r by (auto simp: ingest_main_def)
    ultimately show thesis using ran [of ?s s' x log] r o1 by simp
  qed
qed

section \<open>One process after the other\<close>

text \<open>The kernel frees the lock of a process that is gone, also when the process did not get to close its store.\<close>

type_synonym process = "host \<times> config \<times> turn list"

fun lives :: "process list \<Rightarrow> disk \<Rightarrow> outcome list \<times> disk" where
  "lives [] d = ([], d)"
| "lives ((ho, c, tus) # ps) d =
     (let oc = ingest_main ho c tus d in
      case lives ps ((oc_disk oc)\<lparr>locks := locks d\<rparr>) of (ocs, d') \<Rightarrow> (oc # ocs, d'))"

text \<open>The facts of a ledger were taken by the sink of one of the processes, or the ledger is in a recorded gap.\<close>

definition kept_account :: "outcome list \<Rightarrow> gap list \<Rightarrow> nat \<Rightarrow> bool" where
  "kept_account ocs gaps q \<longleftrightarrow> (\<exists>oc\<in>set ocs. covered sn_hist (oc_hist oc) (oc_journal oc) gaps q)"

definition in_order :: "string \<Rightarrow> nat \<Rightarrow> outcome list \<Rightarrow> disk \<Rightarrow> bool" where
  "in_order p start ocs d \<longleftrightarrow> holds_orphan d p \<or>
     (\<exists>a b. holds_pair d p a b \<and> (\<forall>q. start \<le> q \<longrightarrow> q \<le> unat (st_last_seq a) \<longrightarrow> kept_account ocs (st_gaps b) q))"

lemma kept_account_mono: "kept_account ocs gaps q \<Longrightarrow> set ocs \<subseteq> set ocs' \<Longrightarrow> set gaps \<subseteq> set gaps' \<Longrightarrow> kept_account ocs' gaps' q"
  unfolding kept_account_def using covered_mono [OF _ prefix_order.refl subset_refl] by blast

lemma kept_account_gap_text [simp]: "kept_account ocs (map gap_text gaps) q = kept_account ocs gaps q"
  by (simp add: kept_account_def)

lemma in_order_locks [simp]: "in_order p start ocs (d\<lparr>locks := x\<rparr>) = in_order p start ocs d"
  by (simp add: in_order_def)

lemma in_order_more:
  assumes "in_order p start ocs d" and "set ocs \<subseteq> set ocs'"
  shows "in_order p start ocs' d"
  using assms(1) kept_account_mono [OF _ assms(2) subset_refl] unfolding in_order_def by meson

lemma in_order_loaded:
  assumes "in_order p start ocs d"
  shows "case loaded d p of (st, er) \<Rightarrow> er = Some ErrStateNotFound \<or>
    er = None \<and> (\<forall>q. start \<le> q \<longrightarrow> q \<le> unat (st_last_seq st) \<longrightarrow> kept_account ocs (st_gaps st) q)"
proof -
  from assms consider "holds_orphan d p"
    | a b where "holds_pair d p a b" "\<forall>q. start \<le> q \<longrightarrow> q \<le> unat (st_last_seq a) \<longrightarrow> kept_account ocs (st_gaps b) q"
    unfolding in_order_def by blast
  then show ?thesis
  proof cases
    case 1
    from holds_orphan_loaded [OF 1] show ?thesis by auto
  next
    case (2 a b)
    with holds_pair_loaded [OF 2(1)] show ?thesis by simp
  qed
qed

lemma in_order_step:
  assumes "in_order p (unat (cg_start (ingest_settings c))) ocs d" and "\<not> cf_replay c" and "sf_path (cf_state c) = p"
    and "cg_start (ingest_settings c) \<noteq> 0" and "st_last_seq (fst (loaded d p)) \<noteq> - 1"
  shows "in_order p (unat (cg_start (ingest_settings c))) (ocs @ [ingest_main ho c tus d]) (oc_disk (ingest_main ho c tus d))"
  using assms(2,3)
proof (cases rule: ingest_main_cases [where ho = ho and tus = tus and d = d])
  case refused
  with in_order_more [OF assms(1), of "ocs @ [ingest_main ho c tus d]"] show ?thesis by (simp add: subset_insertI)
next
  case (ran s s' x log held held')
  let ?o = "ingest_main ho c tus d"
  note st = stored.process_with_cursor [OF host_stored [OF assms(2)] ran(1,2)] stored.process_without_cursor [OF host_stored [OF assms(2)] ran(1,2) _ assms(4)]
  have one: "kept_account (ocs @ [?o]) gaps q" if "covered sn_hist (sn_hist s') log gaps q" for gaps q
    using that by (simp add: kept_account_def ran(5,6))
  from assms(1) consider "holds_orphan d p"
    | a b where "holds_pair d p a b" "\<forall>q. unat (cg_start (ingest_settings c)) \<le> q \<longrightarrow> q \<le> unat (st_last_seq a) \<longrightarrow> kept_account ocs (st_gaps b) q"
    unfolding in_order_def by blast
  then show ?thesis
  proof cases
    case 1
    then have "holds_orphan (sn_disk s) p" by (simp add: ran(3))
    from st(2) [OF this] one show ?thesis unfolding in_order_def ran(4) holds_locks by meson
  next
    case (2 a b)
    from holds_pair_loaded [OF 2(1)] assms(5) have "st_last_seq a \<noteq> - 1" by simp
    with st(1) [of a b] 2(1) ran(3) obtain a' b' where h: "holds_pair (sn_disk s') p a' b'" "prefix (map gap_text (st_gaps b)) (map gap_text (st_gaps b'))" and
      new: "\<forall>q. unat (st_last_seq a) < q \<longrightarrow> q \<le> unat (st_last_seq a') \<longrightarrow> covered sn_hist (sn_hist s') log (st_gaps b') q" by auto
    have "kept_account (ocs @ [?o]) (st_gaps b') q" if "unat (cg_start (ingest_settings c)) \<le> q" "q \<le> unat (st_last_seq a')" for q
    proof (cases "q \<le> unat (st_last_seq a)")
      case True
      with 2(2) that(1) have "kept_account ocs (map gap_text (st_gaps b)) q" by simp
      then have "kept_account (ocs @ [?o]) (map gap_text (st_gaps b')) q"
        by (rule kept_account_mono) (use set_mono_prefix [OF h(2)] in auto)
      then show ?thesis by simp
    next
      case False
      with new that(2) one show ?thesis by simp
    qed
    with h(1) ran(4) show ?thesis unfolding in_order_def by auto
  qed
qed

lemma lives_in_order:
  assumes "\<forall>(ho, c, tus)\<in>set ps. cf_replay c \<or> sf_path (cf_state c) = p \<and> cg_start (ingest_settings c) = start" and "start \<noteq> 0"
    and "in_order p (unat start) ocs d" and "\<forall>qs. strict_prefix qs ps \<longrightarrow> st_last_seq (fst (loaded (snd (lives qs d)) p)) \<noteq> - 1"
  shows "in_order p (unat start) (ocs @ fst (lives ps d)) (snd (lives ps d))"
  using assms(1,3,4)
proof (induction ps arbitrary: ocs d)
  case (Cons pr ps)
  obtain ho c tus where pr: "pr = (ho, c, tus)" by (metis prod_cases3)
  let ?o = "ingest_main ho c tus d"
  let ?d = "(oc_disk ?o)\<lparr>locks := locks d\<rparr>"
  have left: "st_last_seq (fst (loaded d p)) \<noteq> - 1" using Cons.prems(3) [rule_format, of "[]"] by simp
  have "in_order p (unat start) (ocs @ [?o]) (oc_disk ?o)"
  proof (cases "cf_replay c")
    case True
    with replay_keeps_disk in_order_more [OF Cons.prems(2), of "ocs @ [?o]"] show ?thesis by (simp add: subset_insertI)
  next
    case False
    with Cons.prems(1) pr have "sf_path (cf_state c) = p" "cg_start (ingest_settings c) = start" by auto
    with in_order_step [of p c ocs d ho tus] False Cons.prems(2) left assms(2) show ?thesis by simp
  qed
  moreover have "st_last_seq (fst (loaded (snd (lives qs ?d)) p)) \<noteq> - 1" if "strict_prefix qs ps" for qs
    using Cons.prems(3) [rule_format, of "pr # qs"] that by (simp add: pr Let_def split: prod.splits)
  ultimately have "in_order p (unat start) ((ocs @ [?o]) @ fst (lives ps ?d)) (snd (lives ps ?d))"
    using Cons.IH [of "ocs @ [?o]" ?d] Cons.prems(1) by simp
  then show ?case by (cases "lives ps ?d") (simp add: pr Let_def)
qed simp

text \<open>
  C1. A deployment loses nothing. On a disk without a cursor, any number of processes run one after the other,
  each with its own endpoints, broker, faults and end, killed in the middle of a save included, with replays
  among them. As long as the cursor has not reached the last sequence number, what a next process reads is no
  cursor at all, or one up to which every ledger from the configured start on was processed by one of the
  processes, with every message of its facts taken by its sink, or lies in a recorded gap.
\<close>

theorem lives_lose_nothing:
  assumes "\<forall>(ho, c, tus)\<in>set ps. cf_replay c \<or> sf_path (cf_state c) = p \<and> cg_start (ingest_settings c) = start" and "start \<noteq> 0"
    and "holds_orphan d p" and "\<forall>qs. strict_prefix qs ps \<longrightarrow> st_last_seq (fst (loaded (snd (lives qs d)) p)) \<noteq> - 1"
  shows "case loaded (snd (lives ps d)) p of (st, er) \<Rightarrow> er = Some ErrStateNotFound \<or>
    er = None \<and> (\<forall>q. unat start \<le> q \<longrightarrow> q \<le> unat (st_last_seq st) \<longrightarrow> kept_account (fst (lives ps d)) (st_gaps st) q)"
proof -
  have "in_order p (unat start) [] d" using assms(3) by (simp add: in_order_def)
  from lives_in_order [OF assms(1,2) this assms(4)] have "in_order p (unat start) (fst (lives ps d)) (snd (lives ps d))" by simp
  then show ?thesis by (rule in_order_loaded)
qed

definition replay_config :: config where
  "replay_config = plain_config\<lparr>cf_replay := True\<rparr>"

lemma empty_disk_loaded [simp]: "loaded empty_disk p = (zero_state, Some ErrStateNotFound)"
  by (simp add: loaded_nothing readable_def empty_disk_def)

lemma lives_lose_nothing_witness:
  "case loaded (snd (lives [(sample_host, replay_config, [tip_turn]), (sample_host, plain_config, [tip_turn, stop_turn])] empty_disk)) ''s.json'' of
     (st, er) \<Rightarrow> er = Some ErrStateNotFound \<or> er = None \<and> (\<forall>q. 50 \<le> q \<longrightarrow> q \<le> unat (st_last_seq st) \<longrightarrow>
       kept_account (fst (lives [(sample_host, replay_config, [tip_turn]), (sample_host, plain_config, [tip_turn, stop_turn])] empty_disk)) (st_gaps st) q)"
proof -
  have r: "cf_replay replay_config" by (simp add: replay_config_def)
  have d: "snd (lives [(sample_host, replay_config, [tip_turn])] empty_disk) = empty_disk"
    using replay_keeps_disk [OF r] by (simp add: Let_def)
  have "qs = [] \<or> qs = [pr]" if "strict_prefix qs [pr, pr2]" for qs and pr pr2 :: process
    using that by (auto simp: strict_prefix_def prefix_Cons)
  then have "st_last_seq (fst (loaded (snd (lives qs empty_disk)) ''s.json'')) \<noteq> - 1"
    if "strict_prefix qs [(sample_host, replay_config, [tip_turn]), (sample_host, plain_config, [tip_turn, stop_turn])]" for qs
    using that d by (fastforce simp: zero_state_def)
  with lives_lose_nothing [of "[(sample_host, replay_config, [tip_turn]), (sample_host, plain_config, [tip_turn, stop_turn])]" "''s.json''" 50 empty_disk]
  show ?thesis using r by (simp add: plain_config_def ingest_settings_def holds_orphan_def readable_def empty_disk_def)
qed

end
