(* ===== verification/Dump.thy ===== *)
theory Dump
  imports Config
begin

text \<open>
  \<open>internal/config/string.go\<close>: the dump of the effective configuration that \<open>Ingest\<close> logs when it starts,
  with its redaction of secrets, and a proof that the dump does not depend on them. Parsing and printing of
  URLs (\<open>net/url\<close>) are a parameter, of which nothing is assumed.
\<close>

section \<open>Formatting values\<close>

text \<open>\<open>time.Duration\<close>'s text: the fraction without trailing zeros, then seconds, minutes and hours.\<close>

fun format_fraction :: "nat \<Rightarrow> nat \<Rightarrow> bool \<Rightarrow> string \<Rightarrow> string \<times> nat" where
  "format_fraction 0 v started acc = (if started then CHR ''.'' # acc else acc, v)"
| "format_fraction (Suc n) v started acc =
     (let d = v mod 10; started' = (started \<or> d \<noteq> 0) in
      format_fraction n (v div 10) started' (if started' then digit_char d # acc else acc))"

definition micro_sign :: string where
  "micro_sign = [char_of (194 :: nat), char_of (181 :: nat)]"

definition format_magnitude :: "nat \<Rightarrow> string" where
  "format_magnitude u =
     (if u = 0 then ''0s''
      else if u < 1000 then decimal u @ ''ns''
      else if u < 1000000 then (case format_fraction 3 u False [] of (f, v) \<Rightarrow> decimal v @ f @ micro_sign @ ''s'')
      else if u < 1000000000 then (case format_fraction 6 u False [] of (f, v) \<Rightarrow> decimal v @ f @ ''ms'')
      else (case format_fraction 9 u False [] of (f, v) \<Rightarrow>
        let seconds = decimal (v mod 60) @ f @ ''s''; minutes = v div 60 in
        if minutes = 0 then seconds
        else (let tail = decimal (minutes mod 60) @ ''m'' @ seconds; hours = minutes div 60 in
              if hours = 0 then tail else decimal hours @ ''h'' @ tail)))"

definition format_int :: "int \<Rightarrow> string" where
  "format_int i = (if i < 0 then CHR ''-'' # decimal (nat (- i)) else decimal (nat i))"

definition format_duration :: "duration \<Rightarrow> string" where
  "format_duration d = (if d < 0 then CHR ''-'' # format_magnitude (nat (- d)) else format_magnitude (nat d))"

datatype field_value = VString string | VStrings "string list" | VBool bool | VInt int | VDuration duration

fun join_spaced :: "string list \<Rightarrow> string" where
  "join_spaced [] = []"
| "join_spaced [s] = s"
| "join_spaced (s # ss) = s @ '' '' @ join_spaced ss"

text \<open>\<open>fmt\<close>'s verb \<open>%v\<close> on the types that the fields have.\<close>

definition format_strings :: "string list \<Rightarrow> string" where
  "format_strings ss = ''['' @ join_spaced ss @ '']''"

fun format_value :: "field_value \<Rightarrow> string" where
  "format_value (VString s) = s"
| "format_value (VStrings ss) = format_strings ss"
| "format_value (VBool b) = (if b then ''true'' else ''false'')"
| "format_value (VInt i) = format_int i"
| "format_value (VDuration d) = format_duration d"

section \<open>Redaction\<close>

record url =
  u_scheme :: string
  u_opaque :: string
  u_user :: "(string \<times> string option) option"
  u_host :: string
  u_path :: string
  u_raw_path :: string
  u_omit_host :: bool
  u_force_query :: bool
  u_raw_query :: string
  u_fragment :: string
  u_raw_fragment :: string

record url_lib =
  ul_parse :: "string \<Rightarrow> url option"
  ul_string :: "url \<Rightarrow> string"

definition redact_url_path :: "url_lib \<Rightarrow> string \<Rightarrow> string" where
  "redact_url_path lib raw =
     (case ul_parse lib raw of None \<Rightarrow> ''***''
      | Some u \<Rightarrow>
          if u_scheme u = [] \<or> u_host u = [] then ''***''
          else u_scheme u @ ''://'' @ u_host u @ (if u_path u \<noteq> [] \<or> u_raw_query u \<noteq> [] then ''/***'' else []))"

fun index_of :: "string \<Rightarrow> string \<Rightarrow> nat option" where
  "index_of needle [] = (if needle = [] then Some 0 else None)"
| "index_of needle (c # s) = (if prefix needle (c # s) then Some 0 else map_option Suc (index_of needle s))"

definition redact_url_password :: "url_lib \<Rightarrow> string \<Rightarrow> string \<times> bool" where
  "redact_url_password lib raw =
     (case ul_parse lib raw of None \<Rightarrow> (raw, False)
      | Some u \<Rightarrow>
          (case u_user u of None \<Rightarrow> (raw, False)
           | Some (username, None) \<Rightarrow> (raw, False)
           | Some (username, Some password) \<Rightarrow>
               (let rest = ul_string lib (u\<lparr>u_user := None\<rparr>) in
                case index_of ''//'' rest of None \<Rightarrow> (raw, False)
                | Some i \<Rightarrow> (take (i + 2) rest @ username @ '':***@'' @ drop (i + 2) rest, True))))"

text \<open>\<open>renderValue\<close>, on the name of the field, its \<open>secret\<close> tag and its value.\<close>

definition render_value :: "url_lib \<Rightarrow> string \<Rightarrow> string \<Rightarrow> field_value \<Rightarrow> string" where
  "render_value lib name secret v =
     (let s = format_value v;
          plain = (if contains (to_lower name) ''url''
            then (case v of
                VStrings us \<Rightarrow> format_strings (map (\<lambda>u. case redact_url_password lib u of (r, ok) \<Rightarrow> if ok then r else u) us)
              | _ \<Rightarrow> if s \<noteq> [] then (case redact_url_password lib s of (r, ok) \<Rightarrow> if ok then r else s) else s)
            else s)
      in if secret = ''true'' then (if s = [] then [CHR 0x22, CHR 0x22] else ''***'')
         else if secret = ''path'' then (if s = [] then [CHR 0x22, CHR 0x22] else redact_url_path lib s)
         else plain)"

section \<open>The dump\<close>

text \<open>The configuration as reflection sees it: structs with their fields in order, leaves with their tag.\<close>

datatype node = Leaf string string field_value | Struct string "node list"

fun dump_struct :: "url_lib \<Rightarrow> string \<Rightarrow> node list \<Rightarrow> string" where
  "dump_struct lib pre [] = []"
| "dump_struct lib pre (Leaf name secret v # ns) =
     ''  '' @ (if pre \<noteq> [] then pre @ ''.'' @ name else name) @ ''='' @ render_value lib name secret v @ [CHR 0x0A] @ dump_struct lib pre ns"
| "dump_struct lib pre (Struct name inner # ns) =
     dump_struct lib (if pre \<noteq> [] then pre @ ''.'' @ name else name) inner @ dump_struct lib pre ns"

definition config_nodes :: "config \<Rightarrow> node list" where
  "config_nodes c =
     (let r = cf_rpc c; x = cf_indexer c; q = cf_rabbit c; h = cf_health c in
      [Struct ''Network'' [Leaf ''Name'' [] (VString (nc_name (cf_network c))), Leaf ''Passphrase'' [] (VString (nc_passphrase (cf_network c)))],
       Struct ''RPC'' [Leaf ''URL'' [] (VString (rc_url r)), Leaf ''RequestTimeout'' [] (VDuration (rc_request_timeout r)),
         Leaf ''FallbackURLs'' [] (VStrings (rc_fallback_urls r)), Leaf ''LedgerFetchTimeout'' [] (VDuration (rc_fetch_timeout r))],
       Struct ''Indexer'' [Leaf ''StartLedger'' [] (VInt (uint (ic_start x))), Leaf ''EndLedger'' [] (VInt (uint (ic_end x))),
         Leaf ''LedgerBackendType'' [] (VString (ic_backend x)), Leaf ''GetLedgersLimit'' [] (VInt (ic_limit x)),
         Leaf ''SweepEnabled'' [] (VBool (ic_sweep x))],
       Struct ''Escrow'' [Leaf ''ApprovedWasmHashes'' [] (VStrings (ec_hashes (cf_escrow c))), Leaf ''SeedPath'' [] (VString (ec_seed_path (cf_escrow c)))],
       Struct ''Sink'' [Leaf ''Type'' [] (VString (sk_type (cf_sink c))), Leaf ''RequireSigning'' [] (VBool (sk_require_signing (cf_sink c)))],
       Struct ''RabbitMQ'' [Leaf ''URL'' [] (VString (rq_url q)), Leaf ''Exchange'' [] (VString (rq_exchange q)),
         Leaf ''PublisherConfirms'' [] (VBool (rq_confirms q))],
       Struct ''State'' [Leaf ''Path'' [] (VString (sf_path (cf_state c)))],
       Struct ''Health'' [Leaf ''Enabled'' [] (VBool (hc_enabled h)), Leaf ''Port'' [] (VInt (hc_port h)),
         Leaf ''HeartbeatURL'' ''path'' (VString (hc_heartbeat_url h))],
       Struct ''Logging'' [Leaf ''Level'' [] (VString (lg_level (cf_logging c))), Leaf ''Format'' [] (VString (lg_format (cf_logging c)))],
       Leaf ''AdminToken'' ''true'' (VString (cf_admin_token c)), Leaf ''EnvelopeHMACKey'' ''true'' (VString (cf_hmac_key c)),
       Leaf ''Replay'' [] (VBool (cf_replay c))])"

definition config_string :: "url_lib \<Rightarrow> config \<Rightarrow> string" where
  "config_string lib c = ''Effective config:'' @ [CHR 0x0A] @ dump_struct lib [] (config_nodes c)"

lemma format_fraction_numeral:
  "format_fraction (numeral n) v started acc =
     (let d = v mod 10; started' = (started \<or> d \<noteq> 0) in
      format_fraction (pred_numeral n) (v div 10) started' (if started' then digit_char d # acc else acc))"
  by (simp only: numeral_eq_Suc [of n] format_fraction.simps)

lemma decimal_steps:
  "n < 10 \<Longrightarrow> decimal n = [digit_char n]"
  "\<not> n < 10 \<Longrightarrow> decimal n = decimal (n div 10) @ [digit_char (n mod 10)]"
  by (simp_all add: decimal.simps [of n])

lemma format_duration_examples:
  "format_duration (120 * second) = ''2m0s''"
  "format_duration (3723500 * 1000000) = ''1h2m3.5s''"
  "format_duration (- 1500000) = ''-1.5ms''"
  "format_duration 0 = ''0s''"
  by (simp_all add: format_duration_def format_magnitude_def second_def format_fraction_numeral decimal_steps digit_char_def Let_def)

section \<open>The dump does not depend on secrets\<close>

text \<open>What may differ: the value of a secret, the part of the ping URL behind the host, and a password in a URL.\<close>

definition same_secret :: "string \<Rightarrow> string \<Rightarrow> bool" where
  "same_secret a b \<longleftrightarrow> (a = [] \<longleftrightarrow> b = [])"

definition visible_ping :: "url_lib \<Rightarrow> string \<Rightarrow> (string \<times> string \<times> bool) option" where
  "visible_ping lib raw =
     (case ul_parse lib raw of None \<Rightarrow> None
      | Some u \<Rightarrow> if u_scheme u = [] \<or> u_host u = [] then None
          else Some (u_scheme u, u_host u, u_path u \<noteq> [] \<or> u_raw_query u \<noteq> []))"

definition same_ping :: "url_lib \<Rightarrow> string \<Rightarrow> string \<Rightarrow> bool" where
  "same_ping lib a b \<longleftrightarrow> same_secret a b \<and> visible_ping lib a = visible_ping lib b"

definition same_url :: "url_lib \<Rightarrow> string \<Rightarrow> string \<Rightarrow> bool" where
  "same_url lib a b \<longleftrightarrow> a = b \<or> a \<noteq> [] \<and> b \<noteq> [] \<and>
     (\<exists>u n p q. ul_parse lib a = Some (u\<lparr>u_user := Some (n, Some p)\<rparr>) \<and> ul_parse lib b = Some (u\<lparr>u_user := Some (n, Some q)\<rparr>) \<and>
        index_of ''//'' (ul_string lib (u\<lparr>u_user := None\<rparr>)) \<noteq> None)"

definition with_secrets :: "string \<Rightarrow> string \<Rightarrow> string \<Rightarrow> string \<Rightarrow> string list \<Rightarrow> string \<Rightarrow> config \<Rightarrow> config" where
  "with_secrets token key ping url fallbacks broker c =
     c\<lparr>cf_admin_token := token, cf_hmac_key := key, cf_health := (cf_health c)\<lparr>hc_heartbeat_url := ping\<rparr>,
       cf_rpc := (cf_rpc c)\<lparr>rc_url := url, rc_fallback_urls := fallbacks\<rparr>, cf_rabbit := (cf_rabbit c)\<lparr>rq_url := broker\<rparr>\<rparr>"

lemma redact_same_url:
  assumes "same_url lib a b"
  shows "(case redact_url_password lib a of (r, ok) \<Rightarrow> if ok then r else a) = (case redact_url_password lib b of (r, ok) \<Rightarrow> if ok then r else b)"
  using assms by (auto simp: same_url_def redact_url_password_def Let_def)

lemma render_same:
  "same_secret a b \<Longrightarrow> render_value lib name ''true'' (VString a) = render_value lib name ''true'' (VString b)"
  "same_ping lib a b \<Longrightarrow> render_value lib name ''path'' (VString a) = render_value lib name ''path'' (VString b)"
  by (auto simp: render_value_def same_secret_def same_ping_def visible_ping_def redact_url_path_def split: option.splits if_splits)

lemma render_same_url:
  assumes "same_url lib a b"
  shows "render_value lib ''URL'' [] (VString a) = render_value lib ''URL'' [] (VString b)"
proof -
  have n: "contains (to_lower ''URL'') ''url''" by code_simp
  have "a = [] \<longleftrightarrow> b = []" using assms by (auto simp: same_url_def)
  with n redact_same_url [OF assms] show ?thesis by (simp add: render_value_def Let_def)
qed

lemma render_same_urls:
  assumes "list_all2 (same_url lib) as bs"
  shows "render_value lib ''FallbackURLs'' [] (VStrings as) = render_value lib ''FallbackURLs'' [] (VStrings bs)"
proof -
  have n: "contains (to_lower ''FallbackURLs'') ''url''" by code_simp
  have "map (\<lambda>u. case redact_url_password lib u of (r, ok) \<Rightarrow> if ok then r else u) as =
    map (\<lambda>u. case redact_url_password lib u of (r, ok) \<Rightarrow> if ok then r else u) bs"
    using assms by (induction rule: list_all2_induct) (simp_all add: redact_same_url)
  with n show ?thesis by (simp add: render_value_def Let_def)
qed

text \<open>
  C38. The dump that is logged at boot does not depend on the secrets: changing the admin token, the signing key,
  the path and query of a heartbeat URL that has some, or the password in an endpoint or broker URL that parses with
  a password and is printed with \<open>//\<close>, leaves every line as it is. The condition on the URLs is needed: one
  that does not parse is printed as it is (\<open>unparsable_url_is_printed\<close>).
\<close>

theorem dump_hides_secrets:
  assumes "same_secret (cf_admin_token c) token" and "same_secret (cf_hmac_key c) key"
    and "same_ping lib (hc_heartbeat_url (cf_health c)) ping" and "same_url lib (rc_url (cf_rpc c)) url"
    and "list_all2 (same_url lib) (rc_fallback_urls (cf_rpc c)) fallbacks" and "same_url lib (rq_url (cf_rabbit c)) broker"
  shows "config_string lib (with_secrets token key ping url fallbacks broker c) = config_string lib c"
  by (simp add: config_string_def config_nodes_def with_secrets_def Let_def render_same(1) [OF assms(1)] render_same(1) [OF assms(2)]
      render_same(2) [OF assms(3)] render_same_url [OF assms(4)] render_same_urls [OF assms(5)] render_same_url [OF assms(6)])

text \<open>For the witness: a parser of URLs that finds the password of \<open>u:...@h\<close> and a printer that shows the host.\<close>

definition bare_url :: url where
  "bare_url = \<lparr>u_scheme = ''a'', u_opaque = [], u_user = None, u_host = ''h'', u_path = [], u_raw_path = [], u_omit_host = False,
     u_force_query = False, u_raw_query = [], u_fragment = [], u_raw_fragment = []\<rparr>"

definition sample_urls :: url_lib where
  "sample_urls = \<lparr>ul_parse = (\<lambda>s. if s = ''a://u:one@h'' then Some (bare_url\<lparr>u_user := Some (''u'', Some ''one'')\<rparr>)
       else if s = ''a://u:two@h'' then Some (bare_url\<lparr>u_user := Some (''u'', Some ''two'')\<rparr>) else None),
     ul_string = (\<lambda>u. u_scheme u @ ''://'' @ u_host u)\<rparr>"

definition secret_config :: config where
  "secret_config = plain_config\<lparr>cf_admin_token := ''token one'', cf_rabbit := (cf_rabbit plain_config)\<lparr>rq_url := ''a://u:one@h''\<rparr>\<rparr>"

lemma same_url_refl [simp]: "same_url lib a a"
  by (simp add: same_url_def)

lemma dump_hides_secrets_witness:
  "config_string sample_urls (with_secrets ''token two'' [] [] ''shallow'' [''deep''] ''a://u:two@h'' secret_config) = config_string sample_urls secret_config"
proof (rule dump_hides_secrets)
  show "same_url sample_urls (rq_url (cf_rabbit secret_config)) ''a://u:two@h''"
    unfolding same_url_def
    by (intro disjI2 conjI exI [of _ bare_url] exI [of _ "''u''"] exI [of _ "''one''"] exI [of _ "''two''"])
      (simp_all add: secret_config_def sample_urls_def bare_url_def)
qed (simp_all add: secret_config_def plain_config_def same_secret_def same_ping_def)

section \<open>A URL that does not parse is not redacted\<close>

lemma dump_struct_append: "dump_struct lib pre (xs @ ys) = dump_struct lib pre xs @ dump_struct lib pre ys"
proof (induction xs)
  case (Cons n xs)
  then show ?case by (cases n) simp_all
qed simp

text \<open>
  The redaction of a password fails open. A broker URL that the URL parser rejects, for instance because its
  password holds a percent sign that is not an escape, appears in the dump as it is.
\<close>

theorem unparsable_url_is_printed:
  assumes "ul_parse lib (rq_url (cf_rabbit c)) = None"
  shows "contains (config_string lib c) (rq_url (cf_rabbit c))"
proof -
  let ?u = "rq_url (cf_rabbit c)"
  have n: "contains (to_lower ''URL'') ''url''" by code_simp
  have r: "render_value lib ''URL'' [] (VString ?u) = ?u"
    using assms n by (simp add: render_value_def redact_url_password_def Let_def)
  have "\<exists>A B C. config_nodes c = A @ Struct ''RabbitMQ'' (Leaf ''URL'' [] (VString ?u) # B) # C"
    by (rule exI [of _ "take 5 (config_nodes c)"], rule exI, rule exI [of _ "drop 6 (config_nodes c)"])
      (simp add: config_nodes_def Let_def)
  then obtain A B C where "config_nodes c = A @ Struct ''RabbitMQ'' (Leaf ''URL'' [] (VString ?u) # B) # C" by blast
  then have "\<exists>x y. config_string lib c = x @ ?u @ y"
    by (intro exI [of _ "''Effective config:'' @ [CHR 0x0A] @ dump_struct lib [] A @ ''  RabbitMQ.URL=''"]
        exI [of _ "[CHR 0x0A] @ dump_struct lib ''RabbitMQ'' B @ dump_struct lib [] C"])
      (simp add: config_string_def dump_struct_append r)
  then show ?thesis by (simp add: contains_def sublist_def)
qed

lemma unparsable_url_is_printed_witness:
  "contains (config_string sample_urls (secret_config\<lparr>cf_rabbit := (cf_rabbit secret_config)\<lparr>rq_url := ''a://u:5%off@h''\<rparr>\<rparr>)) ''a://u:5%off@h''"
  using unparsable_url_is_printed [of sample_urls "secret_config\<lparr>cf_rabbit := (cf_rabbit secret_config)\<lparr>rq_url := ''a://u:5%off@h''\<rparr>\<rparr>"]
  by (simp add: sample_urls_def)

end
