(* ===== verification/Durable.thy ===== *)
theory Durable
  imports Run Dump
begin

text \<open>
  What an acknowledged command leaves behind: the line that \<open>Command.String\<close> gives to the audit log, and the
  record of the watchlist on disk. A command is answered when it is queued, so that the loop owes its durability.
\<close>

section \<open>The audit line\<close>

fun kind_string :: "kind \<Rightarrow> string" where
  "kind_string KindTrackEscrow = ''track_escrow''"
| "kind_string KindRefreshEscrow = ''refresh_escrow''"
| "kind_string KindReseed = ''reseed''"
| "kind_string KindRemoveEscrow = ''remove_escrow''"
| "kind_string KindPause = ''pause''"
| "kind_string KindResume = ''resume''"
| "kind_string KindReconcile = ''reconcile''"
| "kind_string (KindOther s) = s"

definition command_string :: "command \<Rightarrow> string" where
  "command_string c =
     (case c_kind c of
        KindReseed \<Rightarrow> kind_string (c_kind c) @ ''('' @ decimal (length (c_contract_ids c)) @ '' ids)''
      | KindPause \<Rightarrow> kind_string (c_kind c) @ ''(ttl='' @ format_duration (pause_ttl c) @ '')''
      | KindTrackEscrow \<Rightarrow> kind_string (c_kind c) @ ''('' @ c_contract_id c @ '')''
      | KindRefreshEscrow \<Rightarrow> kind_string (c_kind c) @ ''('' @ c_contract_id c @ '')''
      | KindRemoveEscrow \<Rightarrow> kind_string (c_kind c) @ ''('' @ c_contract_id c @ '')''
      | _ \<Rightarrow> kind_string (c_kind c))"

text \<open>The line of a reseed has the number of the ids, and the line of a pause the time that it will last.\<close>

lemma command_string_examples:
  "command_string (zero_command\<lparr>c_kind := KindReseed, c_contract_ids := [''CA'', ''CB'']\<rparr>) = ''reseed(2 ids)''"
  "command_string (zero_command\<lparr>c_kind := KindPause, c_ttl_seconds := 120\<rparr>) = ''pause(ttl=2m0s)''"
  using format_duration_examples
  by (simp_all add: command_string_def zero_command_def decimal.simps digit_char_def pause_ttl_def ttl_duration_def Let_def
      max_pause_ttl_def default_pause_ttl_def hour_def minute_def second_def)

lemma audit_hides_requester: "command_string (c\<lparr>c_requested_by := r\<rparr>) = command_string c"
  by (simp add: command_string_def pause_ttl_def ttl_duration_def split: kind.split)

section \<open>Durability\<close>

fun last_saved :: "happening list \<Rightarrow> istate option" where
  "last_saved [] = None"
| "last_saved (Accepted i # hs) = last_saved hs"
| "last_saved (Saved st # hs) = (case last_saved hs of None \<Rightarrow> Some st | Some st' \<Rightarrow> Some st')"

lemma last_saved_append: "last_saved (a @ b) = (case last_saved b of None \<Rightarrow> last_saved a | Some st \<Rightarrow> Some st)"
  by (induction a rule: last_saved.induct) (auto split: option.splits)

lemma last_saved_none: "(\<forall>st. Saved st \<notin> set hs) \<Longrightarrow> last_saved hs = None"
  by (induction hs rule: last_saved.induct) auto

lemma last_saved_snoc [simp]: "last_saved (hs @ [Saved st]) = Some st"
  by (simp add: last_saved_append)

lemma silent_last_saved: "emits hist good (\<lambda>_. False) w w' \<Longrightarrow> last_saved (hist w') = last_saved (hist w)"
  by (auto simp: emits_def last_saved_append last_saved_none)

text \<open>The last record saved has the watchlist and the tombstones of this registry.\<close>

definition durable :: "('w \<Rightarrow> happening list) \<Rightarrow> registry \<Rightarrow> 'w \<Rightarrow> bool" where
  "durable hist r w \<longleftrightarrow> (\<exists>st. last_saved (hist w) = Some st \<and> st_escrows st = snapshot r \<and> st_removed st = removed_snapshot r)"

lemma durable_silent: "emits hist good (\<lambda>_. False) w w' \<Longrightarrow> durable hist r w' = durable hist r w"
  by (simp add: durable_def silent_last_saved)

context outside begin

lemma save_durable:
  assumes "pl_save pl (command_state cfg l x) w = (w', None)"
  shows "durable hist (pp_reg x) w'"
  using save_done [OF assms] by (simp add: durable_def command_state_def snapshot_state_def)

lemma command_section_durable:
  assumes "command_section pl cfg tu meta l = (l', Inr ())" and "reg_inv (reg_of l)"
  shows "reg_inv (reg_of l') \<and> (reg_of l' = reg_of l \<or> durable hist (reg_of l') (world l'))"
proof -
  let ?sv = "services_at pl cfg (lp_pool l)"
  obtain y m r where d: "drain_commands ?sv (tu_commands tu) (lp_current l) (time_unix (lm_close_time meta)) (lp_pipe l) False = (y, m, r)"
    by (metis prod_cases3)
  note D = drain_inv [OF d assms(2)]
  from d assms(1) have r: "r = Delivered" by (cases r) (auto simp: command_section_def)
  show ?thesis
  proof (cases m)
    case False
    with d assms(1) r have "l' = l\<lparr>lp_pipe := y\<rparr>" by (simp add: command_section_def Let_def)
    with D False show ?thesis by auto
  next
    case True
    with d assms(1) r obtain w where w: "pl_save pl (command_state cfg (l\<lparr>lp_pipe := y\<rparr>) y) (pp_sink y) = (w, None)"
      and "l' = set_world w (l\<lparr>lp_pipe := y\<rparr>)"
      by (auto simp: command_section_def save_section_def Let_def split: prod.splits option.splits)
    with D save_durable [OF w] show ?thesis by auto
  qed
qed

lemma hold_loop_durable:
  assumes "hold_loop sv (\<lambda>x. pl_save pl (command_state cfg l x) (pp_sink x)) evs seq closed x = (x', Delivered)"
    and "sv_publish sv = pl_publish pl" and "reg_inv (pp_reg x)"
  shows "pp_reg x' = pp_reg x \<and> (durable hist (pp_reg x) (pp_sink x) \<longrightarrow> durable hist (pp_reg x) (pp_sink x')) \<or>
    durable hist (pp_reg x') (pp_sink x')"
  using assms(1,3)
proof (induction evs arbitrary: x)
  case (Cons te evs)
  obtain now ev where te: "te = (now, ev)" by (cases te)
  show ?case
  proof (cases "is_paused now x")
    case False
    with Cons.prems te show ?thesis by (auto simp: set_pause_def split: if_splits)
  next
    case paused: True
    show ?thesis
    proof (cases ev)
      case HoldCancelled
      with Cons.prems te paused show ?thesis by simp
    next
      case HoldSecond
      with Cons te paused show ?thesis by simp
    next
      case (HoldCommand t cmd)
      obtain x1 m r where e: "execute sv t cmd seq closed x = (x1, m, r)" by (metis prod_cases3)
      with Cons.prems te paused HoldCommand have r: "r = Delivered" by (cases r) auto
      note i1 = execute_inv [OF e Cons.prems(2)]
      have s1: "durable hist q (pp_sink x1) = durable hist q (pp_sink x)" for q
        by (rule durable_silent [OF execute_emits [OF e assms(2)]])
      show ?thesis
      proof (cases m)
        case False
        then have u: "pp_reg x1 = pp_reg x" using execute_unchanged [OF _ Cons.prems(2)] e by simp
        from Cons.prems te paused HoldCommand e r False
        have "hold_loop sv (\<lambda>x. pl_save pl (command_state cfg l x) (pp_sink x)) evs seq closed x1 = (x', Delivered)" by simp
        from Cons.IH [OF this i1] u s1 show ?thesis by simp
      next
        case True
        with Cons.prems te paused HoldCommand e r obtain w where w: "pl_save pl (command_state cfg l x1) (pp_sink x1) = (w, None)"
          and h: "hold_loop sv (\<lambda>x. pl_save pl (command_state cfg l x) (pp_sink x)) evs seq closed (x1\<lparr>pp_sink := w\<rparr>) = (x', Delivered)"
          by (auto split: prod.splits option.splits)
        from save_durable [OF w] have "durable hist (pp_reg x1) w" .
        with Cons.IH [OF h] i1 show ?thesis by auto
      qed
    qed
  qed
qed simp

end

text \<open>
  C14. An acknowledged change of the watchlist is durable before the next ledger. When a turn gets through its
  commands, those of the drain and those of a pause, and they changed the registry, then the last record handed
  to the store has exactly the tracked ids and the tombstones that the registry now has.
\<close>

theorem command_results_are_durable:
  assumes "command_section (host_plant ho c) cfg tu meta l = (l1, Inr ())" and "hold_section (host_plant ho c) cfg tu meta l1 = (l2, Inr ())"
    and "reg_inv (reg_of l)" and "reg_of l2 \<noteq> reg_of l"
  shows "\<exists>st. last_saved (sn_hist (world l2)) = Some st \<and> st_escrows st = snapshot (reg_of l2) \<and> st_removed st = removed_snapshot (reg_of l2)"
proof -
  let ?pl = "host_plant ho c"
  note C = host.command_section_durable [OF assms(1,3)]
  show ?thesis
  proof (cases "is_paused (tu_hold_now tu) (lp_pipe l1)")
    case False
    with assms(2,4) C show ?thesis by (auto simp: hold_section_def durable_def)
  next
    case True
    with assms(2) obtain x' where h: "hold_loop (services_at ?pl cfg (lp_pool l1)) (\<lambda>x. pl_save ?pl (command_state cfg l1 x) (pp_sink x)) (tu_hold tu)
        (lp_current l1) (time_unix (lm_close_time meta)) (lp_pipe l1) = (x', Delivered)" and l2: "l2 = l1\<lparr>lp_pipe := x'\<rparr>"
      by (auto simp: hold_section_def hold_while_paused_def split: prod.splits publish_result.splits)
    have s: "sv_publish (services_at ?pl cfg (lp_pool l1)) = pl_publish ?pl" by (simp add: services_at_def)
    from host.hold_loop_durable [OF h s] C assms(4) show ?thesis by (auto simp: l2 durable_def)
  qed
qed

text \<open>An operator removes an escrow.\<close>

definition served_loop :: "station ingest" where
  "served_loop = boot_state (host_plant sample_host plain_config) (ingest_settings plain_config) (boot_inputs_of sample_host plain_config empty_disk)
     \<lparr>rs_start = 101, rs_escrows = [], rs_removed = [], rs_gaps = [], rs_last_seq = 0, rs_hash = [], rs_resumed = False, rs_recovered = False\<rparr>
     sample_registry two_pool [] 101 sample_station"

definition removal_turn :: turn where
  "removal_turn = tip_turn\<lparr>tu_commands := [(7, remove_gone)]\<rparr>"

lemma sample_removed: "removed sample_registry = {}"
  by (simp add: sample_registry_def)

lemma command_results_are_durable_witness:
  "\<exists>l1. command_section (host_plant sample_host plain_config) (ingest_settings plain_config) removal_turn tip_meta served_loop = (l1, Inr ()) \<and>
     (\<exists>st. last_saved (sn_hist (world l1)) = Some st \<and> st_removed st = [gone_id])"
proof -
  let ?pl = "host_plant sample_host plain_config" and ?cfg = "ingest_settings plain_config" and ?r = "fst (remove gone_id sample_registry)"
  let ?x = "(lp_pipe served_loop)\<lparr>pp_reg := ?r\<rparr>"
  have l: "reg_of served_loop = sample_registry" "pp_paused_until (lp_pipe served_loop) = 0"
    by (simp_all add: served_loop_def boot_state_def Let_def)
  have d: "drain_commands (services_at ?pl ?cfg (lp_pool served_loop)) (tu_commands removal_turn) (lp_current served_loop)
      (time_unix (lm_close_time tip_meta)) (lp_pipe served_loop) False = (?x, True, Delivered)"
    by (simp add: removal_turn_def tip_turn_def execute_def remove_gone_def l)
  obtain w where "pl_save ?pl (command_state ?cfg (served_loop\<lparr>lp_pipe := ?x\<rparr>) ?x) (pp_sink ?x) = (w, None)"
  proof -
    let ?st = "command_state ?cfg (served_loop\<lparr>lp_pipe := ?x\<rparr>) ?x"
    obtain s' w' where "save (\<lambda>_. Fine) ?st (sn_store (pp_sink ?x)) (sn_disk (pp_sink ?x)) = (s', w', Done)" using save_fine by blast
    then have "snd (pl_save ?pl ?st (pp_sink ?x)) = None"
      by (simp add: host_plant_def plain_config_def sample_host_def station_save_def)
    then show ?thesis using that by (metis prod.collapse)
  qed
  with d have c: "command_section ?pl ?cfg removal_turn tip_meta served_loop = (set_world w (served_loop\<lparr>lp_pipe := ?x\<rparr>), Inr ())"
    by (simp add: command_section_def save_section_def)
  let ?l1 = "set_world w (served_loop\<lparr>lp_pipe := ?x\<rparr>)"
  have h: "hold_section ?pl ?cfg removal_turn tip_meta ?l1 = (?l1, Inr ())"
    by (simp add: hold_section_def is_paused_def l set_world_def)
  have r: "removed ?r = {gone_id}" by (simp add: reg_simps sample_registry_def) (simp add: gone_id_def)
  then have "?r \<noteq> sample_registry" by (metis sample_removed insert_not_empty)
  then have "reg_of ?l1 \<noteq> reg_of served_loop" by (simp add: l)
  with command_results_are_durable [OF c h] sample_inv l(1) obtain st where "last_saved (sn_hist (world ?l1)) = Some st"
      "st_removed st = removed_snapshot (reg_of ?l1)" by metis
  moreover have "removed_snapshot (reg_of ?l1) = [gone_id]" by (simp add: removed_snapshot_def r sort_keys_def)
  ultimately have "last_saved (sn_hist (world ?l1)) = Some st \<and> st_removed st = [gone_id]" by simp
  with c show ?thesis by blast
qed

end
