(* ===== verification/Backfill.thy ===== *)
theory Backfill
  imports Run
begin

text \<open>
  A bounded run, as a replay of a ledger range or a configured end ledger makes it: with endpoints that serve
  the range and a world that takes what it is given, it processes every ledger of the range once, in order,
  delivers exactly the messages of their facts, and ends. What the end of the loop needs for that is proved too.
\<close>

section \<open>Ledgers that can be processed\<close>

text \<open>A transaction on which every routine of the SDK that the processors call answers.\<close>

definition readable_tx :: "sdk \<Rightarrow> ledger_tx \<Rightarrow> bool" where
  "readable_tx k tx \<longleftrightarrow> (\<exists>b. tx_successful tx = Ret b) \<and> (\<exists>chs. tx_changes tx = Ret chs) \<and>
     (\<exists>evss. tx_ops tx = map Ret evss \<and> (\<forall>ev\<in>set (concat evss). marshal_event k ev \<noteq> None))"

definition readable_ledger :: "sdk \<Rightarrow> ledger_meta \<Rightarrow> bool" where
  "readable_ledger k meta \<longleftrightarrow> lm_reader meta = Ret () \<and>
     (\<exists>txs. lm_reads meta = map Ret txs \<and> (\<forall>tx\<in>set txs. readable_tx k tx))"

lemma readable_detects:
  assumes "readable_tx k tx"
  shows "\<exists>facts. detect_from_transaction k r tx = Ret facts"
proof -
  from assms obtain evss where e: "tx_ops tx = map Ret evss" "\<forall>ev\<in>set (concat evss). marshal_event k ev \<noteq> None"
    by (auto simp: readable_tx_def)
  then have "encodable k r (concat evss)" by (auto simp: encodable_def encode_event_xdr_def)
  then show ?thesis by (simp add: detect_from_transaction_map [OF e(1)])
qed

lemma readable_discovery:
  "\<forall>tx\<in>set txs. readable_tx k tx \<Longrightarrow> \<forall>i. \<not> poll i \<Longrightarrow> \<exists>r'. discovery_pass k poll i txs r = (r', Ret ())"
proof (induction txs arbitrary: i r)
  case (Cons tx txs)
  from Cons.prems(1) obtain b chs where "tx_successful tx = Ret b" "tx_changes tx = Ret chs" by (auto simp: readable_tx_def)
  with Cons.IH Cons.prems show ?case by (auto simp: discover_from_transaction_def split: prod.splits)
qed simp

lemma readable_detection:
  "\<forall>tx\<in>set txs. readable_tx k tx \<Longrightarrow> \<forall>i. \<not> poll i \<Longrightarrow> \<exists>res. detection_pass k poll i r txs evs ac = Ret res"
proof (induction txs arbitrary: i evs ac)
  case (Cons tx txs)
  from Cons.prems(1) obtain b facts where "tx_successful tx = Ret b" "detect_from_transaction k r tx = Ret facts"
    using readable_detects by (fastforce simp: readable_tx_def)
  with Cons.IH Cons.prems show ?case by simp
qed simp

lemma read_loop_map: "read_loop (map Ret txs) acc = Ret (acc @ txs)"
  by (induction txs arbitrary: acc) simp_all

lemma readable_processes:
  assumes "readable_ledger k meta" and "\<forall>i. \<not> poll i"
  shows "\<exists>r' res. process_ledger k poll meta r = (r', Ok res)"
proof -
  from assms(1) obtain txs where t: "lm_reader meta = Ret ()" "lm_reads meta = map Ret txs" "\<forall>tx\<in>set txs. readable_tx k tx"
    by (auto simp: readable_ledger_def)
  obtain r' where d: "discovery_pass k poll 0 txs r = (r', Ret ())" using readable_discovery [OF t(3) assms(2)] by blast
  obtain res where "detection_pass k poll (length txs) r' txs [] [] = Ret res" using readable_detection [OF t(3) assms(2)] by blast
  with t d show ?thesis
    by (simp add: process_ledger_def read_ledger_transactions_def read_loop_map process_transactions_def)
qed

section \<open>A turn that meets no trouble\<close>

text \<open>
  A world that takes every message with \<open>V\<close> and every record, as long as \<open>I\<close> holds of it, which it then keeps.
\<close>

definition accepting :: "'w plant \<Rightarrow> ('w \<Rightarrow> bool) \<Rightarrow> (envelope \<Rightarrow> bool) \<Rightarrow> bool" where
  "accepting pl I V \<longleftrightarrow> (\<forall>w. I w \<longrightarrow>
     (\<forall>e. V e \<longrightarrow> (\<exists>w'. pl_publish pl e w = (w', Delivered) \<and> I w')) \<and> (\<forall>st. \<exists>w'. pl_save pl st w = (w', None) \<and> I w'))"

text \<open>
  A turn in which the endpoint gives the ledger \<open>q\<close>, which closed more than 20 minutes ago and can be
  processed, and whose facts give messages with \<open>V\<close>; nobody cancels, and no operator sends a command.
\<close>

definition serves_ledger :: "sdk \<Rightarrow> (envelope \<Rightarrow> bool) \<Rightarrow> ingest_config \<Rightarrow> turn \<Rightarrow> u32 \<Rightarrow> bool" where
  "serves_ledger k V cfg tu q \<longleftrightarrow> \<not> tu_cancelled tu \<and> (\<forall>i. \<not> tu_process_poll tu i) \<and> tu_commands tu = [] \<and> tu_now tu \<le> tu_sweep_now tu \<and>
     (case fst (snd (fetch_ledger_with_retry (tu_get tu) (tu_fetch_top tu) (tu_fetch_wait tu) q (stall_budget cfg))) of
        Err e \<Rightarrow> False
      | Ok meta \<Rightarrow> readable_ledger k meta \<and> catching_up tu meta \<and>
          (\<forall>r r' facts active. process_ledger k (tu_process_poll tu) meta r = (r', Ok (facts, active)) \<longrightarrow>
             (\<forall>e\<in>set (fact_envelopes cfg tu facts). V e)))"

text \<open>A loop that has no anchor to check and is not paused.\<close>

definition at_ease :: "'w ingest \<Rightarrow> bool" where
  "at_ease l \<longleftrightarrow> lp_expected l = [] \<and> pp_paused_until (lp_pipe l) = 0"

text \<open>The ids of the messages among some happenings.\<close>

fun accepted_ids :: "happening list \<Rightarrow> string list" where
  "accepted_ids [] = []"
| "accepted_ids (Accepted i # hs) = i # accepted_ids hs"
| "accepted_ids (Saved st # hs) = accepted_ids hs"

lemma accepted_ids_append [simp]: "accepted_ids (a @ b) = accepted_ids a @ accepted_ids b"
  by (induction a rule: accepted_ids.induct) simp_all

lemma accepted_ids_map [simp]: "accepted_ids (map Accepted ids) = ids"
  by (induction ids) simp_all

lemma old_ledger_no_sweep:
  assumes "catching_up tu meta" and "tu_now tu \<le> tu_sweep_now tu"
  shows "sweep_section pl cfg tu meta l = (l, Inr 0)"
  using assms
  by (auto simp: sweep_section_def catching_up_def time_sub_def catch_up_min_age_def sweep_max_ledger_age_def minute_def
      second_def min_duration_def max_duration_def)

lemma accepting_publishes:
  "accepting pl I V \<Longrightarrow> I w \<Longrightarrow> \<forall>e\<in>set es. V e \<Longrightarrow> \<exists>w'. publish_all (pl_publish pl) es w = (w', Delivered) \<and> I w'"
proof (induction es arbitrary: w)
  case (Cons e es)
  then obtain w1 where "pl_publish pl e w = (w1, Delivered)" "I w1" unfolding accepting_def by (meson list.set_intros(1))
  with Cons.IH [OF Cons.prems(1)] Cons.prems(3) show ?case by simp
qed simp

text \<open>What such a turn does: the messages of the facts, then, at most, a checkpoint.\<close>

definition advances :: "('w \<Rightarrow> happening list) \<Rightarrow> ingest_config \<Rightarrow> 'w ingest \<Rightarrow> 'w ingest \<Rightarrow> string list \<Rightarrow> bool" where
  "advances hist cfg l l' ids \<longleftrightarrow> lp_current l' = lp_current l + 1 \<and> lp_gaps l' = lp_gaps l \<and> at_ease l' \<and> reg_inv (reg_of l') \<and>
     (\<exists>evs. hist (world l') = hist (world l) @ map Accepted ids @ evs \<and>
       (evs = [] \<and> (cg_end cfg = 0 \<or> lp_current l \<noteq> cg_end cfg) \<or> (\<exists>st. evs = [Saved st] \<and> record_of cfg (lp_current l) (lp_gaps l) st)))"

lemma ease_set_world [simp]: "at_ease (set_world w l) = at_ease l"
  by (simp add: at_ease_def set_world_def)

lemma ease_report [simp]:
  "at_ease (report_section tu meta n m l) = at_ease l" "reg_of (report_section tu meta n m l) = reg_of l"
  "world (report_section tu meta n m l) = world l" "lp_current (report_section tu meta n m l) = lp_current l"
  "lp_gaps (report_section tu meta n m l) = lp_gaps l"
  by (simp_all add: at_ease_def report_section_def Let_def)

lemma no_commands: "tu_commands tu = [] \<Longrightarrow> command_section pl cfg tu meta l = (l, Inr ())"
  by (simp add: command_section_def)

lemma at_ease_no_hold: "at_ease l \<Longrightarrow> hold_section pl cfg tu meta l = (l, Inr ())"
  by (simp add: hold_section_def is_paused_def at_ease_def)

context outside begin

lemma checkpoint_accepted:
  assumes "accepting pl I V" and "I (world l)" and "reg_inv (reg_of l)"
  shows "\<exists>l'. checkpoint_section pl cfg tu meta l = (l', Inr ()) \<and> I (world l') \<and> reg_of l' = reg_of l \<and> lp_current l' = lp_current l \<and>
    lp_gaps l' = lp_gaps l \<and> at_ease l' = at_ease l \<and>
    (hist (world l') = hist (world l) \<and> (cg_end cfg = 0 \<or> lp_current l \<noteq> cg_end cfg) \<or>
     (\<exists>st. hist (world l') = hist (world l) @ [Saved st] \<and> record_of cfg (lp_current l) (lp_gaps l) st))"
proof (cases "should_checkpoint (catching_up tu meta) (cg_end cfg \<noteq> 0 \<and> lp_current l = cg_end cfg) (lp_current l) (lp_checkpoint l)")
  case False
  then show ?thesis using assms by (auto simp: checkpoint_section_def should_checkpoint_def)
next
  case True
  let ?st = "snapshot_state cfg (reg_of l) (lp_current l) (hex_encode (lm_hash meta)) (lp_gaps l)"
  obtain w where w: "pl_save pl ?st (world l) = (w, None)" "I w" using assms(1,2) unfolding accepting_def by meson
  have "record_of cfg (lp_current l) (lp_gaps l) ?st" using assms(3) by simp
  with True w save_done [OF w(1)] show ?thesis
    by (auto simp: checkpoint_section_def save_section_def then_do_def set_world_def at_ease_def)
qed

lemma untroubled_turn:
  assumes "serves_ledger (pl_sdk pl) V cfg tu (lp_current l)" and "at_ease l" and "reg_inv (reg_of l)"
    and "accepting pl I V" and "I (world l)"
  shows "\<exists>l' ids. turn_step pl cfg tu l = (l', Inr ()) \<and> journal_entry pl cfg tu l = [(world l, lp_current l, ids)] \<and>
    I (world l') \<and> advances hist cfg l l' ids"
proof -
  from assms(1) obtain meta where f: "fetch_section cfg tu l = Ok meta" and m: "readable_ledger (pl_sdk pl) meta" "catching_up tu meta"
    and v: "process_ledger (pl_sdk pl) (tu_process_poll tu) meta r = (r', Ok (facts, active)) \<Longrightarrow> \<forall>e\<in>set (fact_envelopes cfg tu facts). V e"
    and t: "\<not> tu_cancelled tu" "\<forall>i. \<not> tu_process_poll tu i" "tu_commands tu = []" "tu_now tu \<le> tu_sweep_now tu"
    for r r' facts active
    by (auto simp: serves_ledger_def fetch_section_def split: sum.splits)
  have c: "continuity_section meta l = (l, Inr ())" using assms(2) by (simp add: continuity_section_def at_ease_def)
  obtain r' facts active where p: "process_ledger (pl_sdk pl) (tu_process_poll tu) meta (reg_of l) = (r', Ok (facts, active))"
    using readable_processes [OF m(1) t(2)] by (metis surj_pair)
  let ?l1 = "l\<lparr>lp_pipe := (lp_pipe l)\<lparr>pp_reg := r'\<rparr>\<rparr>" and ?es = "fact_envelopes cfg tu facts"
  have s: "process_section pl tu meta l = (?l1, Inr (facts, active))" by (simp add: process_section_def p)
  have r': "reg_inv r'" by (rule process_ledger_inv [OF p assms(3)])
  obtain w where w: "publish_all (pl_publish pl) ?es (world l) = (w, Delivered)" "I w" using accepting_publishes [OF assms(4,5) v [OF p]] by blast
  let ?l2 = "set_world w ?l1"
  have q: "publish_section pl ?es ?l1 = (?l2, Inr ())" by (simp add: publish_section_def w)
  let ?l3 = "?l2\<lparr>lp_pending := lp_pending ?l2 \<union> set active\<rparr>"
  have e: "state_section pl cfg tu meta active ?l2 = (?l3, Inr 0)" by (simp add: state_section_def m(2))
  have i3: "I (world ?l3)" "reg_inv (reg_of ?l3)" "at_ease ?l3" "reg_of ?l3 = r'" "lp_current ?l3 = lp_current l" "lp_gaps ?l3 = lp_gaps l"
    using w(2) r' assms(2) by (simp_all add: set_world_def at_ease_def)
  obtain l4 where k: "checkpoint_section pl cfg tu meta ?l3 = (l4, Inr ())" "I (world l4)" "reg_of l4 = reg_of ?l3" "lp_current l4 = lp_current ?l3"
      "lp_gaps l4 = lp_gaps ?l3" "at_ease l4 = at_ease ?l3"
      "hist (world l4) = hist (world ?l3) \<and> (cg_end cfg = 0 \<or> lp_current ?l3 \<noteq> cg_end cfg) \<or>
       (\<exists>st. hist (world l4) = hist (world ?l3) @ [Saved st] \<and> record_of cfg (lp_current ?l3) (lp_gaps ?l3) st)"
    using checkpoint_accepted [OF assms(4) i3(1,2)] by blast
  let ?l5 = "report_section tu meta (length facts) 0 l4"
  let ?l6 = "?l5\<lparr>lp_current := lp_current ?l5 + 1\<rparr>"
  have a5: "at_ease ?l5" using i3(3) k(6) by simp
  have T: "turn_step pl cfg tu l = (?l6, Inr ())"
    using f t(1)
    by (simp add: turn_step_def ledger_turn_def then_do_def c s q e old_ledger_no_sweep [OF m(2) t(4)] k(1) no_commands [OF t(3)] at_ease_no_hold [OF a5])
  have J: "journal_entry pl cfg tu l = [(world l, lp_current l, map en_message_id ?es)]"
    using f t(1) by (simp add: journal_entry_def then_do_def c s)
  have h: "hist (world ?l3) = hist (world l) @ map Accepted (map en_message_id ?es)"
    using publish_all_done [OF w(1)] by (simp add: set_world_def)
  have "advances hist cfg l ?l6 (map en_message_id ?es)"
    using k(3-7) i3 h a5 by (auto simp: advances_def at_ease_def)
  with T J k(2) show ?thesis by (intro exI [of _ ?l6] exI [of _ "map en_message_id ?es"]) simp
qed

end

section \<open>The whole range\<close>

text \<open>The turns serve the \<open>n\<close> ledgers from \<open>q\<close> on, one each.\<close>

definition serves_range :: "sdk \<Rightarrow> (envelope \<Rightarrow> bool) \<Rightarrow> ingest_config \<Rightarrow> turn list \<Rightarrow> u32 \<Rightarrow> nat \<Rightarrow> bool" where
  "serves_range k V cfg tus q n \<longleftrightarrow> n \<le> length tus \<and> (\<forall>i<n. serves_ledger k V cfg (tus ! i) (q + of_nat i))"

lemma serves_range_Suc:
  assumes "serves_range k V cfg tus q (Suc n)"
  obtains tu rest where "tus = tu # rest" "serves_ledger k V cfg tu q" "serves_range k V cfg rest (q + 1) n"
proof (cases tus)
  case Nil
  with assms show ?thesis by (simp add: serves_range_def)
next
  case (Cons tu rest)
  from assms have a: "serves_ledger k V cfg (tus ! i) (q + of_nat i)" if "i < Suc n" for i using that by (simp add: serves_range_def)
  have "serves_ledger k V cfg (rest ! i) (q + 1 + of_nat i)" if "i < n" for i
    using a [of "Suc i"] that by (simp add: Cons add.assoc)
  with a [of 0] assms that show ?thesis by (simp add: Cons serves_range_def)
qed

text \<open>The messages among the happenings are those of the journal, and the last happening saves cursor \<open>e\<close>.\<close>

definition completed :: "ingest_config \<Rightarrow> gap list \<Rightarrow> nat \<Rightarrow> happening list \<Rightarrow> 'w journal \<Rightarrow> bool" where
  "completed cfg gaps q evs log \<longleftrightarrow> map (\<lambda>(w, seq, ids). unat seq) log = [q..<Suc (unat (cg_end cfg))] \<and>
     accepted_ids evs = concat (map (\<lambda>(w, seq, ids). ids) log) \<and>
     (if log = [] then evs = [] else \<exists>evs0 st. evs = evs0 @ [Saved st] \<and> record_of cfg (cg_end cfg) gaps st)"

lemma unat_next: "(q :: u32) \<le> e \<Longrightarrow> e \<noteq> - 1 \<Longrightarrow> unat (q + 1) = Suc (unat q)"
proof -
  assume "q \<le> e" and "e \<noteq> - 1"
  then have "q \<noteq> - 1" by (metis word_order.extremum_unique)
  then have "1 + q \<noteq> 0" by (simp add: add_eq_0_iff)
  then show ?thesis by (metis add.commute unatSuc)
qed

lemma ingest_loop_step:
  assumes "turn_step pl cfg tu l = (l', Inr ())" and "\<not> (cg_end cfg \<noteq> 0 \<and> cg_end cfg < lp_current l)"
  shows "ingest_loop pl cfg (tu # tus) l log = ingest_loop pl cfg tus l' (log @ journal_entry pl cfg tu l)"
  using assms by (simp add: ingest_loop.simps [of pl cfg "tu # tus"] if_not_P [OF assms(2)])

context outside begin

lemma untroubled_loop:
  assumes "accepting pl I V" and "cg_end cfg \<noteq> 0" and "cg_end cfg \<noteq> - 1"
  shows "serves_range (pl_sdk pl) V cfg tus (lp_current l) n \<Longrightarrow> n = Suc (unat (cg_end cfg)) - unat (lp_current l) \<Longrightarrow>
    at_ease l \<Longrightarrow> reg_inv (reg_of l) \<Longrightarrow> I (world l) \<Longrightarrow>
    \<exists>l' log' evs. ingest_loop pl cfg tus l log = (l', Some ReturnsNil, log @ log') \<and> hist (world l') = hist (world l) @ evs \<and>
      completed cfg (lp_gaps l) (unat (lp_current l)) evs log'"
proof (induction n arbitrary: tus l log)
  case 0
  then have "cg_end cfg < lp_current l" by (simp add: word_less_nat_alt)
  then have "ingest_loop pl cfg tus l log = (l, Some ReturnsNil, log @ [])" using assms(2) by (simp add: ingest_loop.simps)
  moreover have "completed cfg (lp_gaps l) (unat (lp_current l)) [] []" using 0 by (simp add: completed_def)
  ultimately show ?case by (metis append_Nil2)
next
  case (Suc n)
  obtain tu rest where tus: "tus = tu # rest" and s: "serves_ledger (pl_sdk pl) V cfg tu (lp_current l)"
    and r: "serves_range (pl_sdk pl) V cfg rest (lp_current l + 1) n" by (rule serves_range_Suc [OF Suc.prems(1)])
  have le: "lp_current l \<le> cg_end cfg" using Suc.prems(2) by (simp add: word_le_nat_alt)
  note u = unat_next [OF le assms(3)]
  obtain l1 ids where t: "turn_step pl cfg tu l = (l1, Inr ())" "journal_entry pl cfg tu l = [(world l, lp_current l, ids)]"
    "I (world l1)" and a: "advances hist cfg l l1 ids" using untroubled_turn [OF s Suc.prems(3,4) assms(1) Suc.prems(5)] by blast
  then have c1: "lp_current l1 = lp_current l + 1" "lp_gaps l1 = lp_gaps l" "at_ease l1" "reg_inv (reg_of l1)" by (simp_all add: advances_def)
  have n: "n = Suc (unat (cg_end cfg)) - unat (lp_current l1)" using Suc.prems(2) by (simp add: c1 u)
  obtain l' log' evs where I: "ingest_loop pl cfg rest l1 (log @ [(world l, lp_current l, ids)]) = (l', Some ReturnsNil, (log @ [(world l, lp_current l, ids)]) @ log')"
    "hist (world l') = hist (world l1) @ evs" and C: "completed cfg (lp_gaps l1) (unat (lp_current l1)) evs log'"
    using Suc.IH [OF r [folded c1(1)] n c1(3,4) t(3)] by blast
  obtain evs1 where h: "hist (world l1) = hist (world l) @ map Accepted ids @ evs1"
    and e1: "evs1 = [] \<and> (cg_end cfg = 0 \<or> lp_current l \<noteq> cg_end cfg) \<or> (\<exists>st. evs1 = [Saved st] \<and> record_of cfg (lp_current l) (lp_gaps l) st)"
    using a by (auto simp: advances_def)
  have g: "ingest_loop pl cfg tus l log = (l', Some ReturnsNil, log @ (world l, lp_current l, ids) # log')"
    using I(1) le t by (simp add: tus ingest_loop_step not_less)
  have last: "lp_current l = cg_end cfg" if "log' = []"
    using C that le by (simp add: completed_def c1 u word_le_nat_alt word_unat_eq_iff split: if_splits)
  have "completed cfg (lp_gaps l) (unat (lp_current l)) (map Accepted ids @ evs1 @ evs) ((world l, lp_current l, ids) # log')"
    using C e1 last le assms(2) unfolding completed_def
    by (auto simp: c1 u word_le_nat_alt upt_conv_Cons split: if_splits)
  with g I(2) h show ?case by (intro exI) auto
qed

end

section \<open>A replay\<close>

definition replay_station :: "host \<Rightarrow> config \<Rightarrow> disk \<Rightarrow> station" where
  "replay_station ho c d = \<lparr>sn_rabbit = rabbit_of ho c, sn_store = null_store, sn_disk = d, sn_hist = []\<rparr>"

text \<open>The boot of a replay leaves the world alone and starts at the first ledger of the range.\<close>

lemma replay_boots:
  assumes "boot (host_plant ho c) (ingest_settings c) (boot_inputs_of ho c d) w = (w', Inr l)"
    and "cf_replay c" and "tame (ho_net ho)" and "cg_start (ingest_settings c) \<noteq> 0"
  shows "w' = w \<and> world l = w \<and> lp_current l = cg_start (ingest_settings c) \<and> lp_gaps l = [] \<and> at_ease l \<and> reg_inv (reg_of l)"
proof -
  let ?pl = "host_plant ho c" and ?cfg = "ingest_settings c" and ?bi = "boot_inputs_of ho c d"
  let ?rs = "\<lparr>rs_start = cg_start ?cfg, rs_escrows = [], rs_removed = [], rs_gaps = [], rs_last_seq = 0, rs_hash = [],
            rs_resumed = False, rs_recovered = False\<rparr>"
  have ld: "pl_load ?pl w = (w, zero_state, Some ErrStateNotFound)"
    using assms(2) by (simp add: host_plant_def null_station_load_def null_load_def)
  have rs: "resume_decision ?cfg zero_state (Some ErrStateNotFound) = Ok ?rs" by (simp add: resume_decision_def zero_state_def)
  from boot_started [OF assms(1) ld rs] obtain reg q gaps w3 start w2 where
    L: "l = boot_state ?pl ?cfg ?bi ?rs reg q gaps start w3" and reg: "boot_registry ?cfg ?bi ?rs = Ok reg" and
    c: "connect (on_gap_hook ?pl ?cfg reg) (bi_net ?bi) (bi_poll ?bi) (bi_now ?bi) (cg_start ?cfg) (cg_end ?cfg) (bi_pool ?bi) ([], w)
      = (q, (gaps, w2), Ok start)" by auto
  have p: "bi_pool ?bi = pool_of_config c" "bi_net ?bi = ho_net ho" by (simp_all add: boot_inputs_of_def)
  have pi: "pool_inv (pool_of_config c)" using new_rpc_pool_ok by (simp add: pool_of_config_def)
  have f: "require_full_range (pool_of_config c)" using assms(2) by (simp add: pool_of_config_def new_rpc_pool_def)
  from hand_over [OF disjI1 [OF c]] pi f assms(3,4) have g: "(gaps, w2) = ([], w)" "start = cg_start ?cfg"
    by (auto simp: p tame_def adopted_def resolve_start_def)
  from assms(1) ld rs reg c have w3: "publish_gaps (pl_publish ?pl) (bi_now ?bi) (cg_network ?cfg) gaps w2 = (w', Delivered) \<and> w' = world l"
    by (auto simp: boot_def boot_state_def Let_def split: option.splits prod.splits publish_result.splits)
  then have "w' = w" "world l = w" using g(1) by (simp_all add: publish_gaps_def)
  with L g boot_registry_inv [OF reg] show ?thesis by (simp add: boot_state_def at_ease_def Let_def)
qed

text \<open>The noop sink and the null store take everything.\<close>

lemma noop_replay_accepts:
  assumes "cf_replay c" and "sk_type (cf_sink c) \<noteq> ''rabbitmq''"
  shows "accepting (host_plant ho c) (\<lambda>_. True) (\<lambda>_. True)"
  using assms by (simp add: accepting_def host_plant_def noop_station_publish_eq null_station_save_def null_save_def)

text \<open>
  So do the null store and a RabbitMQ sink whose broker acks every message and returns none of them, for
  envelopes that are valid and can be rendered, from the station in which a replay starts.
\<close>

definition healthy_broker :: "broker \<Rightarrow> bool" where
  "healthy_broker b \<longleftrightarrow> (\<forall>n key msg. ba_publish (b n key msg) = None \<and>
     (\<exists>es. ba_confirm (b n key msg) = Some es \<and> await_confirm es = Delivered) \<and>
     pb_message_id msg \<notin> ret_message_id ` set (ba_returns (b n key msg)))"

definition sink_open :: "station \<Rightarrow> bool" where
  "sink_open s \<longleftrightarrow> rb_chan (sn_rabbit s) \<and> rb_returns (sn_rabbit s) = []"

definition sendable :: "codec \<Rightarrow> envelope \<Rightarrow> bool" where
  "sendable k e \<longleftrightarrow> validate e = None \<and> render k (json_object e) \<noteq> None"

lemma no_return_for: "mid \<notin> ret_message_id ` set rets \<Longrightarrow> check_returned mid rets = ([], Delivered)"
  by (induction rets) auto

lemma rabbit_replay_accepts:
  assumes "cf_replay c" and "sk_type (cf_sink c) = ''rabbitmq''" and "healthy_broker (ho_broker ho)"
  shows "accepting (host_plant ho c) sink_open (sendable (ho_codec ho))"
proof -
  have p: "\<exists>r'. rabbit_publish (ho_codec ho) (ho_broker ho) e r = (r', Delivered) \<and> rb_chan r' \<and> rb_returns r' = []"
    if o': "rb_chan r" "rb_returns r = []" and s: "sendable (ho_codec ho) e" for e r
  proof -
    from s obtain body where b: "validate e = None" "render (ho_codec ho) (json_object e) = Some body" by (auto simp: sendable_def)
    let ?a = "ho_broker ho (length (rb_sent r)) (routing_key e) (build_message (ho_codec ho) (rb_cfg r) e body)"
    obtain es where a: "ba_publish ?a = None" "ba_confirm ?a = Some es" "await_confirm es = Delivered"
      "en_message_id e \<notin> ret_message_id ` set (ba_returns ?a)"
      using assms(3) unfolding healthy_broker_def by (metis (no_types) build_message_def publishing.select_convs(3))
    with b o' show ?thesis by (simp add: rabbit_publish_def amqp_publish_def Let_def no_return_for)
  qed
  have q: "\<exists>w'. station_publish (ho_codec ho) (ho_broker ho) (ho_wait ho) e w = (w', Delivered) \<and> sink_open w'"
    if w: "sink_open w" and v: "sendable (ho_codec ho) e" for e w
  proof -
    obtain r' where r': "rabbit_publish (ho_codec ho) (ho_broker ho) e (sn_rabbit w) = (r', Delivered)" "rb_chan r'" "rb_returns r' = []"
      using p [OF _ _ v, of "sn_rabbit w"] w by (auto simp: sink_open_def)
    then have "pipeline_publish (ho_codec ho) (ho_broker ho) wt e (sn_rabbit w) = (r', Delivered)" for wt
      unfolding pipeline_publish_def bp_publish_def by (subst bp_loop.simps) simp
    with r'(2,3) show ?thesis by (simp add: station_publish_def sink_open_def Let_def)
  qed
  have "\<exists>w'. null_station_save st w = (w', None) \<and> sink_open w'" if "sink_open w" for st w
    using that by (simp add: null_station_save_def null_save_def sink_open_def)
  with q show ?thesis using assms(1,2) by (simp add: accepting_def host_plant_def)
qed

lemma replay_sink_open:
  assumes "new_sink (ho_amqp ho) (sink_settings_of c) = Ok (RabbitSink r)"
  shows "sink_open (replay_station ho c d)"
  using assms
  by (auto simp: sink_open_def replay_station_def rabbit_of_def new_sink_def new_rabbit_def connect_broker_def Let_def
      split: if_splits sum.splits)

text \<open>
  C12. A replay publishes exactly its range. Once it has started, and if the endpoints give the ledgers from
  \<open>--from\<close> to \<open>--to\<close>, old enough and readable, and the sink takes the messages, the run ends without error after
  having processed each ledger of the range once, in order, and the messages taken are exactly those of the
  facts of these ledgers, ledger by ledger; the disk is as it was.
\<close>

theorem replay_publishes_range:
  assumes "apply_replay_flags c0 (Ok (lo, hi)) = Ok c" and "hi \<noteq> 0xFFFFFFFF" and "tame (ho_net ho)"
    and "boot (host_plant ho c) (ingest_settings c) (boot_inputs_of ho c d) (replay_station ho c d) = (w, Inr l)"
    and "accepting (host_plant ho c) I V" and "I (replay_station ho c d)"
    and "serves_range (ho_sdk ho) V (ingest_settings c) tus (ucast lo) (Suc (unat hi) - unat lo)"
  shows "oc_exit (ingest_main ho c tus d) = Some ReturnsNil \<and> oc_disk (ingest_main ho c tus d) = d \<and>
    map (\<lambda>(w, seq, ids). unat seq) (oc_journal (ingest_main ho c tus d)) = [unat lo..<Suc (unat hi)] \<and>
    accepted_ids (oc_hist (ingest_main ho c tus d)) = concat (map (\<lambda>(w, seq, ids). ids) (oc_journal (ingest_main ho c tus d)))"
proof -
  let ?cfg = "ingest_settings c" and ?pl = "host_plant ho c"
  from replay_range [of c0 lo hi] assms(1) have r: "cf_replay c" "cg_start ?cfg = ucast lo" "cg_end ?cfg = ucast hi"
    "unat (cg_start ?cfg) = unat lo" "unat (cg_end ?cfg) = unat hi" "cg_start ?cfg \<noteq> 0" "cg_end ?cfg \<noteq> 0"
    by (auto simp: apply_replay_flags_def ingest_settings_def split: if_splits)
  have e: "cg_end ?cfg \<noteq> - 1"
  proof
    assume "cg_end ?cfg = - 1"
    then have "unat hi = unat (0xFFFFFFFF :: 64 word)" using r(5) by (simp add: unsigned_minus_1_eq_mask mask_eq_exp_minus_1)
    with assms(2) show False by (simp add: word_unat_eq_iff)
  qed
  have o1: "open_store ho c d = (d, Ok null_store)" using r(1) by (simp add: open_store_def)
  from replay_boots [OF assms(4) r(1) assms(3) r(6)] have B: "world l = replay_station ho c d" "lp_current l = cg_start ?cfg" "at_ease l" "reg_inv (reg_of l)"
    by auto
  have sdk: "pl_sdk ?pl = ho_sdk ho" by (simp add: host_plant_def)
  have s: "serves_range (pl_sdk ?pl) V ?cfg tus (lp_current l) (Suc (unat hi) - unat lo)" using assms(7) r(2) B(2) by (simp add: sdk)
  have n: "Suc (unat hi) - unat lo = Suc (unat (cg_end ?cfg)) - unat (lp_current l)" using r(4,5) B(2) by simp
  obtain l' log evs where L: "ingest_loop ?pl ?cfg tus l [] = (l', Some ReturnsNil, log)" "sn_hist (world l') = sn_hist (world l) @ evs"
    "completed ?cfg (lp_gaps l) (unat (lp_current l)) evs log"
    using host.untroubled_loop [OF assms(5) r(7) e s n B(3,4), of "[]"] assms(6) by (auto simp: B(1))
  have "oc_exit (ingest_main ho c tus d) = Some ReturnsNil" "oc_hist (ingest_main ho c tus d) = sn_hist (world l')"
    "oc_journal (ingest_main ho c tus d) = log"
    using o1 assms(4) L(1) by (simp_all add: ingest_main_def ingest_process_def replay_station_def)
  with L(2,3) replay_keeps_disk [OF r(1)] show ?thesis
    by (simp add: completed_def replay_station_def B(1,2) r(4,5))
qed

text \<open>
  A ledger that closed less than 20 minutes ago is treated like one at the tip also by a bounded run: the current
  entries of its active escrows are fetched, stamped with this ledger, and published. Nothing in the loop looks
  at the end ledger or at the replay flag before that.
\<close>

context outside begin

lemma recent_replay_publishes_states:
  assumes "\<not> catching_up tu meta" and "lp_pending l = {}" and "accepting pl I V" and "I (world l)"
    and "fetch_states_all (pl_sdk pl) (pl_entries pl (idx (lp_pool l))) (reg_of l) active (lp_current l) (time_unix (lm_close_time meta))
      (pp_det (lp_pipe l)) = (d, Ok states)"
    and "\<forall>sc\<in>set states. V (from_state_change (tu_now tu) (cg_network cfg) sc)"
  shows "\<exists>l'. state_section pl cfg tu meta active l = (l', Inr (length states)) \<and>
    hist (world l') = hist (world l) @ map (\<lambda>sc. Accepted (en_message_id (from_state_change (tu_now tu) (cg_network cfg) sc))) states"
proof -
  let ?es = "map (from_state_change (tu_now tu) (cg_network cfg)) states"
  have "\<forall>e\<in>set ?es. V e" using assms(6) by simp
  from accepting_publishes [OF assms(3,4) this] obtain w where w: "publish_all (pl_publish pl) ?es (world l) = (w, Delivered)" by blast
  from publish_all_done [OF w] have h: "hist w = hist (world l) @ map (\<lambda>sc. Accepted (en_message_id (from_state_change (tu_now tu) (cg_network cfg) sc))) states"
    by (simp add: comp_def)
  with assms(1,2,5) w show ?thesis
    by (simp add: state_section_def services_at_def publish_section_def then_do_def set_world_def)
qed

end

section \<open>A run to the last sequence number\<close>

text \<open>The loop returns without error only past its end or on a cancellation.\<close>

lemma exit_of_nil: "exit_of r = ReturnsNil \<longleftrightarrow> r = Delivered"
  by (cases r) simp_all

lemma sections_nil:
  "continuity_section meta l = (l', Inl x) \<Longrightarrow> x \<noteq> ReturnsNil"
  "process_section pl tu meta l = (l', Inl x) \<Longrightarrow> x \<noteq> ReturnsNil"
  "publish_section pl es l = (l', Inl x) \<Longrightarrow> x \<noteq> ReturnsNil"
  "save_section pl st l = (l', Inl x) \<Longrightarrow> x \<noteq> ReturnsNil"
  by (auto simp: continuity_section_def verify_chain_continuity_def process_section_def publish_section_def save_section_def
      split: if_splits option.splits prod.splits sum.splits publish_result.splits)

lemma more_sections_nil:
  "state_section pl cfg tu meta active l = (l', Inl x) \<Longrightarrow> x \<noteq> ReturnsNil"
  "sweep_section pl cfg tu meta l = (l', Inl x) \<Longrightarrow> x \<noteq> ReturnsNil"
  "checkpoint_section pl cfg tu meta l = (l', Inl x) \<Longrightarrow> x \<noteq> ReturnsNil"
  "command_section pl cfg tu meta l = (l', Inl x) \<Longrightarrow> x \<noteq> ReturnsNil"
  "hold_section pl cfg tu meta l = (l', Inl ReturnsNil) \<Longrightarrow> tu_hold_cancelled tu"
  by (auto simp: state_section_def sweep_section_def checkpoint_section_def command_section_def hold_section_def Let_def
      split: if_splits option.splits prod.splits sum.splits publish_result.splits elim!: then_doE dest: sections_nil)

lemma turn_step_nil:
  assumes "turn_step pl cfg tu l = (l', Inl ReturnsNil)"
  shows "tu_cancelled tu \<or> tu_cancelled_after tu \<or> tu_hold_cancelled tu"
proof (rule ccontr)
  assume n: "\<not> ?thesis"
  with assms consider meta where "ledger_turn pl cfg tu meta l = (l', Inl ReturnsNil)" | "rotate_section pl cfg tu l = (l', Inl ReturnsNil)"
    by (auto simp: turn_step_def split: if_splits sum.splits)
  then show False
  proof cases
    case (1 meta)
    with n show ?thesis unfolding ledger_turn_def
      by (auto elim!: then_doE split: prod.splits dest: sections_nil more_sections_nil)
  next
    case 2
    then show ?thesis by (auto simp: rotate_section_def Let_def split: prod.splits sum.splits if_splits dest: sections_nil)
  qed
qed

lemma unbounded_loop:
  assumes "\<forall>q. \<not> (cg_end cfg \<noteq> 0 \<and> cg_end cfg < q)"
    and "\<forall>tu\<in>set tus. \<not> tu_cancelled tu \<and> \<not> tu_cancelled_after tu \<and> \<not> tu_hold_cancelled tu"
  shows "fst (snd (ingest_loop pl cfg tus l log)) \<noteq> Some ReturnsNil"
  using assms(2)
proof (induction tus arbitrary: l log)
  case Nil
  then show ?case using assms(1) [rule_format, of "lp_current l"] by (auto simp: ingest_loop.simps)
next
  case (Cons tu tus)
  obtain l1 y where t: "turn_step pl cfg tu l = (l1, y)" by fastforce
  show ?case
  proof (cases y)
    case (Inl x)
    with turn_step_nil [of pl cfg tu l l1] t Cons.prems have "x \<noteq> ReturnsNil" by auto
    with t Inl assms(1) [rule_format, of "lp_current l"] show ?thesis by (simp add: ingest_loop.simps [of pl cfg "tu # tus"])
  next
    case (Inr u)
    with Cons t assms(1) [rule_format, of "lp_current l"] show ?thesis by (simp add: ingest_loop_step)
  qed
qed

text \<open>Boot never ends a run without an error.\<close>

lemma boot_not_nil: "boot pl cfg bi w = (w', Inl x) \<Longrightarrow> x \<noteq> ReturnsNil"
  by (auto simp: boot_def split: prod.splits sum.splits option.splits publish_result.splits)

text \<open>
  A replay to the last sequence number never completes. The flags accept \<open>--to 4294967295\<close>, but the loop
  compares a 32-bit number with that bound, which it can never pass: the cursor wraps to 0 and goes on. Whatever
  the endpoints, the broker and the store do, such a run ends without error only on a cancellation.
\<close>

theorem replay_to_last_never_completes:
  assumes "lo \<noteq> 0" and "lo \<le> 0xFFFFFFFF"
    and "\<forall>tu\<in>set tus. \<not> tu_cancelled tu \<and> \<not> tu_cancelled_after tu \<and> \<not> tu_hold_cancelled tu"
  shows "\<exists>c. apply_replay_flags c0 (Ok (lo, 0xFFFFFFFF)) = Ok c \<and> oc_exit (ingest_main ho c tus d) \<noteq> Some ReturnsNil"
proof -
  let ?c = "c0\<lparr>cf_replay := True, cf_indexer := (cf_indexer c0)\<lparr>ic_start := ucast lo, ic_end := ucast (0xFFFFFFFF :: 64 word)\<rparr>\<rparr>"
  have f: "apply_replay_flags c0 (Ok (lo, 0xFFFFFFFF)) = Ok ?c" using assms(1,2) by (simp add: apply_replay_flags_def not_less)
  have "cg_end (ingest_settings ?c) = - 1" by (simp add: ingest_settings_def)
  then have b: "\<forall>q. \<not> (cg_end (ingest_settings ?c) \<noteq> 0 \<and> cg_end (ingest_settings ?c) < q)"
    by (metis word_order.extremum_strict)
  obtain s x log where r: "ingest_process (host_plant ho ?c) (ingest_settings ?c) (boot_inputs_of ho ?c d) tus (replay_station ho ?c d) = (s, x, log)"
    by (metis prod_cases3)
  have "x \<noteq> Some ReturnsNil"
  proof (cases "snd (boot (host_plant ho ?c) (ingest_settings ?c) (boot_inputs_of ho ?c d) (replay_station ho ?c d))")
    case (Inl y)
    with r boot_not_nil show ?thesis by (fastforce simp: ingest_process_def split: prod.splits)
  next
    case (Inr l)
    with r unbounded_loop [OF b assms(3), of "host_plant ho ?c" l "[]"] show ?thesis
      by (simp add: ingest_process_def split: prod.splits)
  qed
  with r have "oc_exit (ingest_main ho ?c tus d) \<noteq> Some ReturnsNil" by (simp add: ingest_main_def open_store_def replay_station_def)
  with f show ?thesis by blast
qed

section \<open>Two ledgers to replay\<close>

definition replay_turn :: "ledger_meta \<Rightarrow> turn" where
  "replay_turn meta = tip_turn\<lparr>tu_get := (\<lambda>_. Got meta), tu_now := time_unix 5000, tu_sweep_now := time_unix 5001\<rparr>"

definition replay_turns :: "turn list" where
  "replay_turns = [replay_turn tip_meta, replay_turn (tip_meta\<lparr>lm_seq := 102, lm_reads := []\<rparr>)]"

definition range_config :: config where
  "range_config = plain_config\<lparr>cf_replay := True, cf_indexer := (cf_indexer plain_config)\<lparr>ic_start := 101, ic_end := 102\<rparr>\<rparr>"

lemma range_config_flags: "apply_replay_flags plain_config (Ok (101, 102)) = Ok range_config"
  by (simp add: apply_replay_flags_def range_config_def)

lemma replay_turn_serves:
  assumes "readable_ledger k meta" and "lm_close_time meta = 1000"
  shows "serves_ledger k (\<lambda>_. True) cfg (replay_turn meta) q"
  using assms
  by (simp add: serves_ledger_def replay_turn_def tip_turn_def fetch_ledger_with_retry_def fetch_loop.simps max_ledger_fetch_retries_def
      catching_up_def time_sub_def time_unix_def catch_up_min_age_def minute_def second_def min_duration_def max_duration_def)

lemma sample_readable: "readable_ledger sample_sdk tip_meta" "readable_ledger sample_sdk (tip_meta\<lparr>lm_seq := 102, lm_reads := []\<rparr>)"
proof -
  have m: "marshal_event sample_sdk ev \<noteq> None" for ev by (simp add: sample_sdk_def)
  have "readable_tx sample_sdk tx" if "tx_successful tx = Ret b" "tx_changes tx = Ret chs" "tx_ops tx = map Ret evss" for tx b chs evss
    using that m unfolding readable_tx_def by blast
  note I = this
  have "readable_tx sample_sdk deploy_tx" by (rule I [where evss = "[[]]"]) (simp_all add: deploy_tx_def)
  moreover have "readable_tx sample_sdk event_tx" by (rule I [where evss = "[[transfer_event], [init_event]]"]) (simp_all add: event_tx_def)
  moreover have "readable_tx sample_sdk failed_tx"
    by (rule I [where b = False and evss = "[[transfer_event], [init_event]]"]) (simp_all add: failed_tx_def event_tx_def)
  ultimately have "readable_tx sample_sdk tx" if "tx \<in> set sample_txs" for tx
    using that by (auto simp: sample_txs_def)
  then show "readable_ledger sample_sdk tip_meta" "readable_ledger sample_sdk (tip_meta\<lparr>lm_seq := 102, lm_reads := []\<rparr>)"
    by (auto simp: readable_ledger_def tip_meta_def)
qed

lemma replay_sample_boots: "\<exists>w l. boot (host_plant sample_host range_config) (ingest_settings range_config) (boot_inputs_of sample_host range_config empty_disk)
    (replay_station sample_host range_config empty_disk) = (w, Inr l)"
proof -
  have "case snd (boot (host_plant sample_host range_config) (ingest_settings range_config) (boot_inputs_of sample_host range_config empty_disk)
    (replay_station sample_host range_config empty_disk)) of Inl x \<Rightarrow> False | Inr l \<Rightarrow> True" by code_simp
  then show ?thesis by (metis (no_types, lifting) sum.case_eq_if sum.collapse(2) prod.collapse)
qed

lemma replay_turns_serve: "serves_range sample_sdk (\<lambda>_. True) cfg replay_turns q 2"
proof -
  have "lm_close_time tip_meta = 1000" by (simp add: tip_meta_def)
  then have "serves_ledger sample_sdk (\<lambda>_. True) cfg (replay_turns ! i) p" if "i < 2" for i p
    using less_2_cases [OF that] sample_readable by (auto simp: replay_turns_def intro!: replay_turn_serves)
  then show ?thesis by (simp add: serves_range_def) (simp add: replay_turns_def)
qed

lemma replay_publishes_range_witness:
  "map (\<lambda>(w, seq, ids). unat seq) (oc_journal (ingest_main sample_host range_config replay_turns empty_disk)) = [101, 102]"
proof -
  obtain w l where b: "boot (host_plant sample_host range_config) (ingest_settings range_config) (boot_inputs_of sample_host range_config empty_disk)
    (replay_station sample_host range_config empty_disk) = (w, Inr l)" using replay_sample_boots by blast
  have "accepting (host_plant sample_host range_config) (\<lambda>_. True) (\<lambda>_. True)"
    by (rule noop_replay_accepts) (simp_all add: range_config_def plain_config_def)
  moreover have "serves_range (ho_sdk sample_host) (\<lambda>_. True) (ingest_settings range_config) replay_turns (ucast (101 :: 64 word)) (Suc (unat (102 :: 64 word)) - unat (101 :: 64 word))"
    using replay_turns_serve by (simp add: sample_host_def)
  moreover have "tame (ho_net sample_host)" by (simp add: tame_def sample_host_def no_terminal_def endpoint_def)
  ultimately show ?thesis using replay_publishes_range [OF range_config_flags _ _ b] by (simp add: upt_rec)
qed

lemma replay_to_last_never_completes_witness:
  "\<exists>c. apply_replay_flags plain_config (Ok (101, 0xFFFFFFFF)) = Ok c \<and> oc_exit (ingest_main sample_host c replay_turns empty_disk) \<noteq> Some ReturnsNil"
  by (rule replay_to_last_never_completes) (simp_all add: replay_turns_def replay_turn_def tip_turn_def)

end
