(* ===== verification/Server.thy ===== *)
theory Server
  imports Config
begin

text \<open>
  The HTTP surface of the process, \<open>Handler\<close> of \<open>internal/health/server.go\<close> with the routes of
  \<open>AdminHandler\<close> under it, and the part of \<open>Ingest\<close> that decides what is mounted. Listening and the
  timeouts of the server are not modelled. A path is the list of its segments as they are sent, escapes
  included, after the leading slash, with an empty last one for a trailing slash.
\<close>

section \<open>The multiplexer of the standard library\<close>

datatype http_method = Get | Head | Post | Delete | OtherMethod string

datatype segment = Lit string | Wild

text \<open>
  A path that is not in its canonical form, with an empty segment inside or a segment of one or two dots, is
  not routed but redirected, except for \<open>CONNECT\<close>. Escaped dots and slashes do not count.
\<close>

definition clean_path :: "string list \<Rightarrow> bool" where
  "clean_path path \<longleftrightarrow> path \<noteq> [] \<and> (\<forall>s\<in>set (butlast path). s \<noteq> []) \<and> (\<forall>s\<in>set path. s \<noteq> ''.'' \<and> s \<noteq> ''..'')"

text \<open>\<open>url.PathUnescape\<close> of a segment; one with a broken escape stays as it is.\<close>

fun unescape :: "string \<Rightarrow> string option" where
  "unescape [] = Some []"
| "unescape (c # s) =
     (if c = CHR ''%'' then
        (case s of a # b # rest \<Rightarrow>
            (case (from_hex_char a, from_hex_char b, unescape rest) of
               (Some x, Some y, Some t) \<Rightarrow> Some (char_of (16 * x + y) # t)
             | _ \<Rightarrow> None)
         | _ \<Rightarrow> None)
      else map_option ((#) c) (unescape s))"

definition path_unescape :: "string \<Rightarrow> string" where
  "path_unescape s = (case unescape s of Some t \<Rightarrow> t | None \<Rightarrow> s)"

lemma path_unescape_plain: "CHR ''%'' \<notin> set s \<Longrightarrow> path_unescape s = s"
proof -
  assume "CHR ''%'' \<notin> set s"
  then have "unescape s = Some s" by (induction s) auto
  then show ?thesis by (simp add: path_unescape_def)
qed

text \<open>
  A wildcard matches one segment, which is neither empty nor an escaped slash. The result holds what the
  wildcards matched.
\<close>

fun match_path :: "segment list \<Rightarrow> string list \<Rightarrow> string list option" where
  "match_path [] [] = Some []"
| "match_path (Lit a # ps) (s # ss) = (if s = a then match_path ps ss else None)"
| "match_path (Wild # ps) (s # ss) = (if s = [] \<or> s = ''/'' then None else map_option ((#) s) (match_path ps ss))"
| "match_path _ _ = None"

definition match_method :: "http_method \<Rightarrow> http_method \<Rightarrow> bool" where
  "match_method pat m \<longleftrightarrow> m = pat \<or> pat = Get \<and> m = Head"

datatype 'a routed = Routed 'a "string list" | MethodNotAllowed | NotFound

fun mux :: "(http_method \<times> segment list \<times> 'a) list \<Rightarrow> http_method \<Rightarrow> string list \<Rightarrow> 'a routed" where
  "mux [] m path = NotFound"
| "mux ((pm, ps, h) # table) m path =
     (case match_path ps path of
        None \<Rightarrow> mux table m path
      | Some caps \<Rightarrow>
          if match_method pm m then Routed h caps
          else case mux table m path of NotFound \<Rightarrow> MethodNotAllowed | r \<Rightarrow> r)"

section \<open>The routes\<close>

record http_request =
  ht_method :: http_method
  ht_path :: "string list"
  ht_authorization :: string
  ht_body :: body

definition admin_table :: "(http_method \<times> segment list \<times> (string list \<Rightarrow> route)) list" where
  "admin_table =
     [(Post, [Lit ''admin'', Lit ''escrows''], \<lambda>_. RouteTrack),
      (Post, [Lit ''admin'', Lit ''escrows'', Wild, Lit ''refresh''], \<lambda>ids. RouteRefresh (hd ids)),
      (Delete, [Lit ''admin'', Lit ''escrows'', Wild], \<lambda>ids. RouteRemove (hd ids)),
      (Post, [Lit ''admin'', Lit ''reseed''], \<lambda>_. RouteReseed),
      (Post, [Lit ''admin'', Lit ''pause''], \<lambda>_. RoutePause),
      (Post, [Lit ''admin'', Lit ''resume''], \<lambda>_. RouteResume),
      (Post, [Lit ''admin'', Lit ''reconcile''], \<lambda>_. RouteReconcile),
      (Get, [Lit ''admin'', Lit ''registry''], \<lambda>_. RouteRegistry)]"

definition admin_route :: "http_method \<Rightarrow> string list \<Rightarrow> route" where
  "admin_route m path =
     (case mux admin_table m path of Routed h caps \<Rightarrow> h caps | MethodNotAllowed \<Rightarrow> WrongMethod | NotFound \<Rightarrow> NoRoute)"

datatype page = Probe endpoint | Metrics

definition probe_table :: "bool \<Rightarrow> (http_method \<times> segment list \<times> page) list" where
  "probe_table metrics =
     (if metrics then [(Get, [Lit ''metrics''], Metrics)] else []) @
     [(Get, [Lit ''healthz''], Probe Healthz), (Get, [Lit ''readyz''], Probe Readyz), (Get, [Lit ''status''], Probe StatusEndpoint)]"

text \<open>
  The handler: the queue of commands and the status of the answer. A path that is not canonical is redirected
  before anything else is looked at. The admin routes are mounted as a subtree with all methods, so that the
  multiplexer answers its root without a slash by a redirect as well.
\<close>

definition canonical :: "http_request \<Rightarrow> bool" where
  "canonical rq \<longleftrightarrow> ht_method rq = OtherMethod ''CONNECT'' \<or> clean_path (ht_path rq)"

definition decoded_path :: "http_request \<Rightarrow> string list" where
  "decoded_path rq = map path_unescape (ht_path rq)"

definition health_handler :: "sdk \<Rightarrow> string option \<Rightarrow> bool \<Rightarrow> time \<Rightarrow> tracker \<Rightarrow> http_request \<Rightarrow> command list \<Rightarrow> command list \<times> nat" where
  "health_handler k admin metrics now t rq q =
     (let path = decoded_path rq in
      if \<not> canonical rq then (q, 307)
      else if path \<noteq> [] \<and> hd path = ''admin'' then
        (case admin of
           None \<Rightarrow> (q, 404)
         | Some token \<Rightarrow>
             if tl path = [] then (q, 307)
             else admin_handler k token
               \<lparr>rq_authorization = ht_authorization rq, rq_route = admin_route (ht_method rq) path, rq_body = ht_body rq\<rparr> q)
      else (q, case mux (probe_table metrics) (ht_method rq) path of
          Routed (Probe ep) _ \<Rightarrow> serve_health ep now t | Routed Metrics _ \<Rightarrow> 200 | MethodNotAllowed \<Rightarrow> 405 | NotFound \<Rightarrow> 404))"

text \<open>What a process serves: nothing in a replay or when the server is off, and the admin routes only with a token.\<close>

definition server_of :: "config \<Rightarrow> sdk \<Rightarrow> (time \<Rightarrow> tracker \<Rightarrow> http_request \<Rightarrow> command list \<Rightarrow> command list \<times> nat) option" where
  "server_of c k =
     (if hc_enabled (cf_health c) \<and> \<not> cf_replay c
      then Some (health_handler k (if cf_admin_token c \<noteq> [] then Some (cf_admin_token c) else None) True)
      else None)"

section \<open>What is reachable\<close>

text \<open>The routes do not overlap, so the order of the table is irrelevant.\<close>

fun overlap :: "segment list \<Rightarrow> segment list \<Rightarrow> bool" where
  "overlap [] [] \<longleftrightarrow> True"
| "overlap (Lit a # ps) (Lit b # qs) \<longleftrightarrow> a = b \<and> overlap ps qs"
| "overlap (_ # ps) (_ # qs) \<longleftrightarrow> overlap ps qs"
| "overlap _ _ \<longleftrightarrow> False"

lemma overlap_sound: "match_path ps path \<noteq> None \<Longrightarrow> match_path qs path \<noteq> None \<Longrightarrow> overlap ps qs"
proof (induction ps arbitrary: qs path)
  case Nil
  then have "path = []" by (cases path) simp_all
  with Nil show ?case by (cases qs; cases "hd qs") auto
next
  case (Cons p ps)
  from Cons.prems obtain s ss where path: "path = s # ss" by (cases p; cases path) auto
  with Cons.prems obtain q qs' where qs: "qs = q # qs'" by (cases qs) auto
  have "match_path ps ss \<noteq> None" "match_path qs' ss \<noteq> None" using Cons.prems path qs by (cases p; cases q; auto split: if_splits)+
  from Cons.IH [OF this] Cons.prems path qs show ?case by (cases p; cases q) (auto split: if_splits)
qed

lemma admin_table_unambiguous: "sorted_wrt (\<lambda>x y. \<not> overlap (fst (snd x)) (fst (snd y))) admin_table"
  by (simp add: admin_table_def)

definition under_admin :: "http_request \<Rightarrow> bool" where
  "under_admin rq \<longleftrightarrow> canonical rq \<and> decoded_path rq \<noteq> [] \<and> hd (decoded_path rq) = ''admin''"

lemma probes_change_nothing:
  assumes "\<not> under_admin rq"
  shows "fst (health_handler k admin metrics now t rq q) = q \<and> snd (health_handler k admin metrics now t rq q) \<noteq> 202"
  using assms
  by (auto simp: health_handler_def under_admin_def Let_def serve_health_def split: routed.splits page.splits endpoint.splits)

lemma probes_ignore_header:
  assumes "\<not> under_admin rq"
  shows "health_handler k admin metrics now t (rq\<lparr>ht_authorization := a, ht_body := b\<rparr>) q = health_handler k admin metrics now t rq q"
proof -
  have "canonical (rq\<lparr>ht_authorization := a, ht_body := b\<rparr>) = canonical rq" "decoded_path (rq\<lparr>ht_authorization := a, ht_body := b\<rparr>) = decoded_path rq"
    by (simp_all add: canonical_def decoded_path_def)
  with assms show ?thesis by (auto simp: health_handler_def under_admin_def Let_def)
qed

lemma admin_handler_cases:
  assumes "admin_handler k token rq q = (q', st)"
  shows "q' = q \<and> st \<noteq> 202 \<or>
    rq_authorization rq = ''Bearer '' @ token \<and> token \<noteq> [] \<and>
      (\<exists>cmd. q' = q @ [cmd] \<and> st = 202 \<and> validate_command k cmd = None \<and> length q < command_queue_size)"
proof (cases "require_bearer token (rq_authorization rq)")
  case (Some code)
  then have "code \<noteq> 202" by (auto simp: require_bearer_def split: if_splits)
  with Some assms show ?thesis by (auto simp: admin_handler_def)
next
  case None
  then have "admin_routes k rq q = (q', st)" using assms by (simp add: admin_handler_def)
  from admin_routes_cases [OF this] None show ?thesis by (auto simp: require_bearer_None)
qed

lemma mux_routed: "mux table m path = Routed h caps \<Longrightarrow> \<exists>pm ps. (pm, ps, h) \<in> set table \<and> match_method pm m"
  by (induction table m path rule: mux.induct) (auto split: option.splits if_splits routed.splits)

lemma reading_enqueues_nothing:
  assumes "m = Get \<or> m = Head"
  shows "admin_route m path \<in> {RouteRegistry, WrongMethod, NoRoute}"
proof (cases "mux admin_table m path")
  case (Routed h caps)
  from mux_routed [OF Routed] assms have "h = (\<lambda>_. RouteRegistry)" by (auto simp: admin_table_def match_method_def)
  with Routed show ?thesis by (simp add: admin_route_def)
qed (simp_all add: admin_route_def)

text \<open>
  C36. The HTTP surface is guarded. A replay serves nothing. A request whose path is not canonical is redirected,
  whatever it is, and changes nothing. Of the others: without a token the admin routes do not exist; with one, every
  path under \<open>/admin/\<close>, however it is escaped, answers 401 without the exact header, whether or not it is a route;
  a request that changes the queue is answered 202, is under \<open>/admin/\<close>, is no GET, carries the header, and adds
  one valid command; and the probes answer the same with and without a header and a body.
\<close>

theorem server_is_guarded:
  assumes "server_of c k = Some serve" and "serve now t rq q = (q', st)"
  shows "\<not> cf_replay c \<and>
    (\<not> canonical rq \<longrightarrow> q' = q \<and> st = 307) \<and>
    (under_admin rq \<and> cf_admin_token c = [] \<longrightarrow> q' = q \<and> st = 404) \<and>
    (under_admin rq \<and> tl (decoded_path rq) \<noteq> [] \<and> cf_admin_token c \<noteq> [] \<and>
       ht_authorization rq \<noteq> ''Bearer '' @ cf_admin_token c \<longrightarrow> q' = q \<and> st = 401) \<and>
    (q' \<noteq> q \<longrightarrow> st = 202) \<and>
    (st = 202 \<longrightarrow> under_admin rq \<and> ht_method rq \<noteq> Get \<and> ht_method rq \<noteq> Head \<and>
       ht_authorization rq = ''Bearer '' @ cf_admin_token c \<and> cf_admin_token c \<noteq> [] \<and>
       (\<exists>cmd. q' = q @ [cmd] \<and> validate_command k cmd = None \<and> length q' \<le> command_queue_size)) \<and>
    (\<not> under_admin rq \<longrightarrow> q' = q \<and> serve now t (rq\<lparr>ht_authorization := a, ht_body := b\<rparr>) q = (q, st))"
proof -
  have s: "serve = health_handler k (if cf_admin_token c \<noteq> [] then Some (cf_admin_token c) else None) True" and r: "\<not> cf_replay c"
    using assms(1) by (auto simp: server_of_def split: if_splits)
  have c: "\<not> canonical rq \<longrightarrow> q' = q \<and> st = 307" using assms(2) by (auto simp: s health_handler_def)
  show ?thesis
  proof (cases "under_admin rq")
    case False
    from False probes_change_nothing [of rq k _ True now t q] assms(2) have "q' = q \<and> st \<noteq> 202" by (metis s fst_conv snd_conv)
    moreover from probes_ignore_header [of rq] False assms(2) have "serve now t (rq\<lparr>ht_authorization := a, ht_body := b\<rparr>) q = (q', st)"
      by (simp add: s)
    ultimately show ?thesis using False r c by auto
  next
    case True
    then have u: "canonical rq" "decoded_path rq \<noteq> []" "hd (decoded_path rq) = ''admin''" by (simp_all add: under_admin_def)
    show ?thesis
    proof (cases "cf_admin_token c = [] \<or> tl (decoded_path rq) = []")
      case no: True
      with u assms(2) have "q' = q" "st = (if cf_admin_token c = [] then 404 else 307)"
        by (auto simp: s health_handler_def Let_def split: if_splits)
      with True no r c show ?thesis by auto
    next
      case False
      let ?rq = "\<lparr>rq_authorization = ht_authorization rq, rq_route = admin_route (ht_method rq) (decoded_path rq), rq_body = ht_body rq\<rparr>"
      from False u assms(2) have h: "admin_handler k (cf_admin_token c) ?rq q = (q', st)" by (simp add: s health_handler_def Let_def)
      have "q' = q \<and> st = 401" if "ht_authorization rq \<noteq> ''Bearer '' @ cf_admin_token c"
        using h that False require_bearer_None [of "cf_admin_token c" "ht_authorization rq"]
        by (auto simp: admin_handler_def require_bearer_def split: option.splits if_splits)
      moreover have "st \<noteq> 202" if "ht_method rq = Get \<or> ht_method rq = Head"
        using h reading_enqueues_nothing [OF that, of "decoded_path rq"]
        by (auto simp: admin_handler_def admin_routes_def require_bearer_def split: option.splits if_splits)
      moreover note admin_handler_cases [OF h]
      ultimately show ?thesis using True False r c by auto
    qed
  qed
qed

definition admin_config :: config where
  "admin_config = plain_config\<lparr>cf_admin_token := ''0123456789abcdef''\<rparr>"

definition resume_call :: http_request where
  "resume_call = \<lparr>ht_method = Post, ht_path = [''admin'', ''resume''], ht_authorization = ''Bearer 0123456789abcdef'', ht_body = BodyEmpty\<rparr>"

lemma server_is_guarded_witness:
  "\<exists>serve. server_of admin_config sample_sdk = Some serve \<and> snd (serve 0 (new_tracker ''testnet'' 0) resume_call []) = 202 \<and>
     serve 0 (new_tracker ''testnet'' 0) (resume_call\<lparr>ht_authorization := []\<rparr>) [] = ([], 401)"
proof -
  obtain serve where s: "server_of admin_config sample_sdk = Some serve"
    and d: "serve = health_handler sample_sdk (Some ''0123456789abcdef'') True"
    by (simp add: server_of_def admin_config_def plain_config_def)
  have y: "snd (serve 0 (new_tracker ''testnet'' 0) resume_call []) = 202"
    unfolding d by code_simp
  obtain q' st where n: "serve 0 (new_tracker ''testnet'' 0) (resume_call\<lparr>ht_authorization := []\<rparr>) [] = (q', st)" by fastforce
  have "under_admin (resume_call\<lparr>ht_authorization := []\<rparr>)" "tl (decoded_path (resume_call\<lparr>ht_authorization := []\<rparr>)) \<noteq> []"
    by (simp_all add: under_admin_def canonical_def clean_path_def decoded_path_def path_unescape_plain resume_call_def)
  with server_is_guarded [OF s n] have "q' = [] \<and> st = 401" by (simp add: admin_config_def resume_call_def)
  with s y n show ?thesis by blast
qed

end
