(* ===== verification/Plane.thy ===== *)
theory Plane
  imports Backfill Server
begin

text \<open>
  The HTTP handlers and the loop run at the same time and share the bounded channel of commands. Here every
  request, every receive from the channel and every stretch of the loop between two receives is a step of its
  own, in any order. Each such interleaving is a run of \<open>ingest_loop\<close> over turns whose commands are those that
  were taken from the channel, so what is proved of the runs over turns holds of all interleavings.
\<close>

section \<open>The loop in pieces\<close>

text \<open>A turn up to the place where it drains the channel.\<close>

definition ledger_front :: "'w plant \<Rightarrow> ingest_config \<Rightarrow> turn \<Rightarrow> ledger_meta \<Rightarrow> 'w ingest \<Rightarrow> ('w, unit) section_result" where
  "ledger_front pl cfg tu meta l =
     then_do (continuity_section meta l) (\<lambda>_ l.
     then_do (process_section pl tu meta l) (\<lambda>(facts, active) l.
     then_do (publish_section pl (fact_envelopes cfg tu facts) l) (\<lambda>_ l.
     then_do (state_section pl cfg tu meta active l) (\<lambda>states l.
     then_do (sweep_section pl cfg tu meta l) (\<lambda>swept l.
     then_do (checkpoint_section pl cfg tu meta l) (\<lambda>_ l.
       (report_section tu meta (length facts) (states + swept) l, Inr ())))))))"

text \<open>What follows the drain: the result of the commands is saved if one of them changed the registry.\<close>

definition after_drain :: "'w plant \<Rightarrow> ingest_config \<Rightarrow> 'w ingest \<Rightarrow> 'w pipe \<Rightarrow> bool \<Rightarrow> ('w, unit) section_result" where
  "after_drain pl cfg l x mutated =
     (let l1 = l\<lparr>lp_pipe := x\<rparr> in if mutated then save_section pl (command_state cfg l1 x) l1 else (l1, Inr ()))"

definition next_ledger :: "'w ingest \<Rightarrow> 'w ingest" where
  "next_ledger l = l\<lparr>lp_current := lp_current l + 1\<rparr>"

definition past_end :: "ingest_config \<Rightarrow> 'w ingest \<Rightarrow> bool" where
  "past_end cfg l \<longleftrightarrow> cg_end cfg \<noteq> 0 \<and> cg_end cfg < lp_current l"

lemma then_do_assoc: "then_do (then_do r f) g = then_do r (\<lambda>a l. then_do (f a l) g)"
  by (cases r; cases "snd r") (auto simp: then_do_def)

lemma then_do_simps [simp]: "then_do (l, Inl x) f = (l, Inl x)" "then_do (l, Inr a) f = f a l"
  by (simp_all add: then_do_def)

lemma ledger_turn_split:
  "ledger_turn pl cfg tu meta l =
     then_do (ledger_front pl cfg tu meta l) (\<lambda>_ l. then_do (command_section pl cfg tu meta l) (\<lambda>_ l.
       then_do (hold_section pl cfg tu meta l) (\<lambda>_ l. (next_ledger l, Inr ()))))"
  by (simp add: ledger_turn_def ledger_front_def then_do_assoc next_ledger_def split_def)

text \<open>The pieces before the drain do not look at the commands.\<close>

abbreviation with_inputs :: "(time \<times> command) list \<Rightarrow> (time \<times> hold_event) list \<Rightarrow> turn \<Rightarrow> turn" where
  "with_inputs cs evs tu \<equiv> tu\<lparr>tu_commands := cs, tu_hold := evs\<rparr>"

lemma front_ignores_inputs [simp]:
  fixes l :: "'w ingest"
  shows "ledger_front pl cfg (with_inputs cs evs tu) meta l = ledger_front pl cfg tu meta l"
proof -
  have "process_section pl (with_inputs cs evs tu) = process_section pl tu"
    "fact_envelopes cfg (with_inputs cs evs tu) = fact_envelopes cfg tu"
    "state_section pl cfg (with_inputs cs evs tu) = state_section pl cfg tu"
    "sweep_section pl cfg (with_inputs cs evs tu) = sweep_section pl cfg tu"
    "checkpoint_section pl cfg (with_inputs cs evs tu) = checkpoint_section pl cfg tu"
    "report_section (with_inputs cs evs tu) = (report_section tu :: _ \<Rightarrow> _ \<Rightarrow> _ \<Rightarrow> 'w ingest \<Rightarrow> 'w ingest)"
    by (simp_all add: fun_eq_iff process_section_def fact_envelopes_def state_section_def catching_up_def sweep_section_def
        checkpoint_section_def report_section_def cong del: prod.case_cong_weak sum.case_cong_weak if_weak_cong)
  then show ?thesis by (simp add: ledger_front_def)
qed

lemma fetch_ignores_inputs [simp]: "fetch_section cfg (with_inputs cs evs tu) l = fetch_section cfg tu l"
  by (simp add: fetch_section_def)

lemma rotate_ignores_inputs [simp]: "rotate_section pl cfg (with_inputs cs evs tu) l = rotate_section pl cfg tu l"
  by (simp add: rotate_section_def cong del: prod.case_cong_weak sum.case_cong_weak if_weak_cong)

section \<open>The plane\<close>

text \<open>
  Where the loop is: at the top, in the drain, in the hold, or returned. In the drain and the hold the phase has
  the turn and its ledger, the state before, the pipeline as the commands have left it, and what was taken
  in this turn so far; the drain also has the mutation flag.
\<close>

datatype 'w phase =
    AtTop "'w ingest"
  | Draining turn ledger_meta "'w ingest" "'w pipe" bool "(time \<times> command) list"
  | Holding turn ledger_meta "'w ingest" "'w pipe" "(time \<times> hold_event) list"
  | Returned "'w ingest" exit

text \<open>The channel, the phase, and two histories: the commands answered with 202, and the finished turns.\<close>

record 'w plane =
  pn_queue :: "command list"
  pn_phase :: "'w phase"
  pn_accepted :: "command list"
  pn_turns :: "turn list"

section \<open>The steps\<close>

abbreviation closed_at :: "ledger_meta \<Rightarrow> time" where
  "closed_at meta \<equiv> time_unix (lm_close_time meta)"

text \<open>What comes after the drain of a turn, and after each event of a hold.\<close>

definition leave_drain :: "'w plant \<Rightarrow> ingest_config \<Rightarrow> turn \<Rightarrow> ledger_meta \<Rightarrow> 'w ingest \<Rightarrow> 'w pipe \<Rightarrow> bool \<Rightarrow> 'w phase" where
  "leave_drain pl cfg tu meta l x mutated =
     (case after_drain pl cfg l x mutated of
        (l', Inl e) \<Rightarrow> Returned l' e
      | (l', Inr _) \<Rightarrow> if is_paused (tu_hold_now tu) (lp_pipe l') then Holding tu meta l' (lp_pipe l') [] else AtTop (next_ledger l'))"

definition after_hold_command :: "'w plant \<Rightarrow> ingest_config \<Rightarrow> turn \<Rightarrow> ledger_meta \<Rightarrow> 'w ingest \<Rightarrow> (time \<times> hold_event) list
    \<Rightarrow> 'w pipe \<times> bool \<times> publish_result \<Rightarrow> 'w phase" where
  "after_hold_command pl cfg tu meta l evs res =
     (case res of
        (x, m, Refused e) \<Rightarrow> Returned (l\<lparr>lp_pipe := x\<rparr>) (if tu_hold_cancelled tu then ReturnsNil else ReturnsErr e)
      | (x, m, Crashed) \<Rightarrow> Returned (l\<lparr>lp_pipe := x\<rparr>) Panics
      | (x, m, Blocked) \<Rightarrow> Returned (l\<lparr>lp_pipe := x\<rparr>) NeverReturns
      | (x, m, Delivered) \<Rightarrow>
          if m then (case pl_save pl (command_state cfg l x) (pp_sink x) of
              (s, Some e) \<Rightarrow> Returned (l\<lparr>lp_pipe := x\<lparr>pp_sink := s\<rparr>\<rparr>) (if tu_hold_cancelled tu then ReturnsNil else ReturnsErr e)
            | (s, None) \<Rightarrow> Holding tu meta l (x\<lparr>pp_sink := s\<rparr>) evs)
          else Holding tu meta l x evs)"

text \<open>The turn of a phase, with the inputs that it has met, when the phase is left for the top or for good.\<close>

fun finished :: "'w phase \<Rightarrow> turn \<Rightarrow> turn list" where
  "finished (AtTop l) tu = [tu]"
| "finished (Returned l x) tu = [tu]"
| "finished _ tu = []"

definition go :: "'w phase \<Rightarrow> turn \<Rightarrow> 'w plane \<Rightarrow> 'w plane" where
  "go ph tu s = s\<lparr>pn_phase := ph, pn_turns := pn_turns s @ finished ph tu\<rparr>"

inductive plane_step :: "config \<Rightarrow> 'w plant \<Rightarrow> 'w plane \<Rightarrow> 'w plane \<Rightarrow> bool" for c :: config and pl :: "'w plant" where
  request: "server_of c (pl_sdk pl) = Some serve \<Longrightarrow> serve now t rq (pn_queue s) = (q, status) \<Longrightarrow>
    plane_step c pl s (s\<lparr>pn_queue := q, pn_accepted := pn_accepted s @ (if status = 202 then drop (length (pn_queue s)) q else [])\<rparr>)"
| finish: "pn_phase s = AtTop l \<Longrightarrow> past_end (ingest_settings c) l \<Longrightarrow>
    plane_step c pl s (s\<lparr>pn_phase := Returned l ReturnsNil\<rparr>)"
| no_ledger: "pn_phase s = AtTop l \<Longrightarrow> \<not> past_end (ingest_settings c) l \<Longrightarrow>
    tu_cancelled tu \<or> (\<exists>e. fetch_section (ingest_settings c) tu l = Err e) \<Longrightarrow> turn_step pl (ingest_settings c) tu l = (l', y) \<Longrightarrow>
    plane_step c pl s (go (case y of Inl x \<Rightarrow> Returned l' x | Inr _ \<Rightarrow> AtTop l') (with_inputs [] [] tu) s)"
| front_fails: "pn_phase s = AtTop l \<Longrightarrow> \<not> past_end (ingest_settings c) l \<Longrightarrow> \<not> tu_cancelled tu \<Longrightarrow>
    fetch_section (ingest_settings c) tu l = Ok meta \<Longrightarrow> ledger_front pl (ingest_settings c) tu meta l = (l', Inl x) \<Longrightarrow>
    plane_step c pl s (go (Returned l' x) (with_inputs [] [] tu) s)"
| front: "pn_phase s = AtTop l \<Longrightarrow> \<not> past_end (ingest_settings c) l \<Longrightarrow> \<not> tu_cancelled tu \<Longrightarrow>
    fetch_section (ingest_settings c) tu l = Ok meta \<Longrightarrow> ledger_front pl (ingest_settings c) tu meta l = (l', Inr ()) \<Longrightarrow>
    plane_step c pl s (s\<lparr>pn_phase := Draining tu meta l' (lp_pipe l') False []\<rparr>)"
| receive: "pn_phase s = Draining tu meta l x m cs \<Longrightarrow> pn_queue s = cmd # q \<Longrightarrow>
    execute (services_at pl (ingest_settings c) (lp_pool l)) now cmd (lp_current l) (closed_at meta) x = (x', m', r) \<Longrightarrow>
    plane_step c pl s (go (if r = Delivered then Draining tu meta l x' (m \<or> m') (cs @ [(now, cmd)]) else Returned (l\<lparr>lp_pipe := x'\<rparr>) (exit_of r))
      (with_inputs (cs @ [(now, cmd)]) [] tu) (s\<lparr>pn_queue := q\<rparr>))"
| drained: "pn_phase s = Draining tu meta l x m cs \<Longrightarrow> pn_queue s = [] \<Longrightarrow>
    plane_step c pl s (go (leave_drain pl (ingest_settings c) (with_inputs cs [] tu) meta l x m) (with_inputs cs [] tu) s)"
| hold_second: "pn_phase s = Holding tu meta l x evs \<Longrightarrow> is_paused now x \<Longrightarrow>
    plane_step c pl s (s\<lparr>pn_phase := Holding tu meta l x (evs @ [(now, HoldSecond)])\<rparr>)"
| hold_cancelled: "pn_phase s = Holding tu meta l x evs \<Longrightarrow> is_paused now x \<Longrightarrow>
    plane_step c pl s (go (Returned (l\<lparr>lp_pipe := x\<rparr>) (if tu_hold_cancelled tu then ReturnsNil else ReturnsErr ErrCanceled))
      (with_inputs (tu_commands tu) (evs @ [(now, HoldCancelled)]) tu) s)"
| hold_receive: "pn_phase s = Holding tu meta l x evs \<Longrightarrow> is_paused now x \<Longrightarrow> pn_queue s = cmd # q \<Longrightarrow>
    execute (services_at pl (ingest_settings c) (lp_pool l)) t cmd (lp_current l) (closed_at meta) x = res \<Longrightarrow>
    plane_step c pl s (go (after_hold_command pl (ingest_settings c) tu meta l (evs @ [(now, HoldCommand t cmd)]) res)
      (with_inputs (tu_commands tu) (evs @ [(now, HoldCommand t cmd)]) tu) (s\<lparr>pn_queue := q\<rparr>))"
| hold_over: "pn_phase s = Holding tu meta l x evs \<Longrightarrow> \<not> is_paused now x \<Longrightarrow>
    plane_step c pl s (go (AtTop (next_ledger (l\<lparr>lp_pipe := (if pp_paused_until x \<noteq> 0 then set_pause 0 x else x)\<rparr>)))
      (with_inputs (tu_commands tu) (evs @ [(now, HoldSecond)]) tu) s)"

section \<open>Every interleaving is a run over turns\<close>

text \<open>The commands that a turn takes from the channel, in order, and those that the current turn has taken so far.\<close>

definition hold_commands :: "(time \<times> hold_event) list \<Rightarrow> command list" where
  "hold_commands evs = concat (map (\<lambda>(now, ev). case ev of HoldCommand t cmd \<Rightarrow> [cmd] | _ \<Rightarrow> []) evs)"

definition taken_in :: "turn \<Rightarrow> command list" where
  "taken_in tu = map snd (tu_commands tu) @ hold_commands (tu_hold tu)"

fun in_flight :: "'w phase \<Rightarrow> command list" where
  "in_flight (Draining tu meta l x m cs) = map snd cs"
| "in_flight (Holding tu meta l x evs) = map snd (tu_commands tu) @ hold_commands evs"
| "in_flight _ = []"

text \<open>The loop over the turns \<open>tus\<close> from \<open>l0\<close> leads to the state \<open>l\<close>, whatever follows.\<close>

definition runs_to :: "'w plant \<Rightarrow> ingest_config \<Rightarrow> 'w ingest \<Rightarrow> turn list \<Rightarrow> 'w ingest \<Rightarrow> bool" where
  "runs_to pl cfg l0 tus l \<longleftrightarrow> (\<exists>log. \<forall>rest. ingest_loop pl cfg (tus @ rest) l0 [] = ingest_loop pl cfg rest l log)"

definition returns_with :: "'w plant \<Rightarrow> ingest_config \<Rightarrow> 'w ingest \<Rightarrow> turn list \<Rightarrow> 'w ingest \<Rightarrow> exit \<Rightarrow> bool" where
  "returns_with pl cfg l0 tus l x \<longleftrightarrow> (\<exists>log. ingest_loop pl cfg tus l0 [] = (l, Some x, log))"

lemma hold_commands_append [simp]: "hold_commands (a @ b) = hold_commands a @ hold_commands b"
  and hold_commands_simps [simp]: "hold_commands [] = []" "hold_commands [(now, HoldSecond)] = []" "hold_commands [(now, HoldCancelled)] = []"
    "hold_commands [(now, HoldCommand t cmd)] = [cmd]"
  by (simp_all add: hold_commands_def)

lemma runs_to_refl: "runs_to pl cfg l [] l"
  by (auto simp: runs_to_def)

lemma runs_to_turn:
  assumes "runs_to pl cfg l0 tus l" and "\<not> past_end cfg l" and "turn_step pl cfg tu l = (l', Inr ())"
  shows "runs_to pl cfg l0 (tus @ [tu]) l'"
proof -
  from assms(1) obtain log where r: "ingest_loop pl cfg (tus @ rest) l0 [] = ingest_loop pl cfg rest l log" for rest
    by (auto simp: runs_to_def)
  have "ingest_loop pl cfg ((tus @ [tu]) @ rest) l0 [] = ingest_loop pl cfg rest l' (log @ journal_entry pl cfg tu l)" for rest
    using r [of "tu # rest"] ingest_loop_step [OF assms(3) assms(2) [unfolded past_end_def]] by simp
  then show ?thesis unfolding runs_to_def by blast
qed

lemma runs_to_return:
  assumes "runs_to pl cfg l0 tus l" and "\<not> past_end cfg l" and "turn_step pl cfg tu l = (l', Inl x)"
  shows "returns_with pl cfg l0 (tus @ [tu]) l' x"
proof -
  from assms(1) obtain log where "ingest_loop pl cfg (tus @ [tu]) l0 [] = ingest_loop pl cfg [tu] l log" by (auto simp: runs_to_def)
  with assms(2,3) show ?thesis by (auto simp: returns_with_def past_end_def ingest_loop.simps [of pl cfg "[tu]"])
qed

lemma runs_to_finish:
  assumes "runs_to pl cfg l0 tus l" and "past_end cfg l"
  shows "returns_with pl cfg l0 tus l ReturnsNil"
proof -
  from assms(1) obtain log where "ingest_loop pl cfg (tus @ []) l0 [] = ingest_loop pl cfg [] l log" unfolding runs_to_def by blast
  with assms(2) show ?thesis by (auto simp: returns_with_def past_end_def ingest_loop.simps [of pl cfg "[]"])
qed

text \<open>A turn from the place where its front has ended.\<close>

definition at_drain :: "'w plant \<Rightarrow> ingest_config \<Rightarrow> 'w ingest \<Rightarrow> turn list \<Rightarrow> turn \<Rightarrow> ledger_meta \<Rightarrow> 'w ingest \<Rightarrow> bool" where
  "at_drain pl cfg l0 tus tu meta l \<longleftrightarrow>
     (\<exists>lb. runs_to pl cfg l0 tus lb \<and> \<not> past_end cfg lb \<and> \<not> tu_cancelled tu \<and> fetch_section cfg tu lb = Ok meta \<and>
       ledger_front pl cfg tu meta lb = (l, Inr ()))"

lemma at_drain_inputs: "at_drain pl cfg l0 tus (with_inputs cs evs tu) meta l = at_drain pl cfg l0 tus tu meta l"
  by (simp add: at_drain_def)

lemma at_drain_input [simp]:
  "at_drain pl cfg l0 tus (tu\<lparr>tu_hold := evs\<rparr>) meta l = at_drain pl cfg l0 tus tu meta l"
  "at_drain pl cfg l0 tus (tu\<lparr>tu_commands := cs\<rparr>) meta l = at_drain pl cfg l0 tus tu meta l"
  using at_drain_inputs [where cs = "tu_commands tu" and tu = tu] at_drain_inputs [where evs = "tu_hold tu" and tu = tu] by simp_all

lemma at_drain_ends:
  assumes "at_drain pl cfg l0 tus tu meta l"
    and "then_do (command_section pl cfg tu meta l) (\<lambda>_ l. then_do (hold_section pl cfg tu meta l) (\<lambda>_ l. (next_ledger l, Inr ()))) = (l', y)"
  shows "case y of Inl x \<Rightarrow> returns_with pl cfg l0 (tus @ [tu]) l' x | Inr _ \<Rightarrow> runs_to pl cfg l0 (tus @ [tu]) l'"
proof -
  from assms(1) obtain lb where b: "runs_to pl cfg l0 tus lb" "\<not> past_end cfg lb" "\<not> tu_cancelled tu"
    "fetch_section cfg tu lb = Ok meta" "ledger_front pl cfg tu meta lb = (l, Inr ())" by (auto simp: at_drain_def)
  then have "turn_step pl cfg tu lb = (l', y)" using assms(2) by (simp add: turn_step_def ledger_turn_split)
  with runs_to_turn [OF b(1,2)] runs_to_return [OF b(1,2)] show ?thesis by (cases y) auto
qed

text \<open>The commands taken so far have led the pipeline of \<open>l\<close> to \<open>x\<close>.\<close>

definition drained_as :: "'w plant \<Rightarrow> ingest_config \<Rightarrow> 'w ingest \<Rightarrow> ledger_meta \<Rightarrow> (time \<times> command) list \<Rightarrow> 'w pipe \<Rightarrow> bool \<Rightarrow> bool" where
  "drained_as pl cfg l meta cs x m \<longleftrightarrow>
     (\<forall>more. drain_commands (services_at pl cfg (lp_pool l)) (cs @ more) (lp_current l) (closed_at meta) (lp_pipe l) False =
       drain_commands (services_at pl cfg (lp_pool l)) more (lp_current l) (closed_at meta) x m)"

abbreviation saver :: "'w plant \<Rightarrow> ingest_config \<Rightarrow> 'w ingest \<Rightarrow> 'w on_mutation" where
  "saver pl cfg l \<equiv> \<lambda>x. pl_save pl (command_state cfg l x) (pp_sink x)"

definition held_as :: "'w plant \<Rightarrow> ingest_config \<Rightarrow> 'w ingest \<Rightarrow> ledger_meta \<Rightarrow> (time \<times> hold_event) list \<Rightarrow> 'w pipe \<Rightarrow> bool" where
  "held_as pl cfg l meta evs x \<longleftrightarrow>
     (\<forall>more. hold_loop (services_at pl cfg (lp_pool l)) (saver pl cfg l) (evs @ more) (lp_current l) (closed_at meta) (lp_pipe l) =
       hold_loop (services_at pl cfg (lp_pool l)) (saver pl cfg l) more (lp_current l) (closed_at meta) x)"

fun phase_ok :: "'w plant \<Rightarrow> ingest_config \<Rightarrow> 'w ingest \<Rightarrow> turn list \<Rightarrow> 'w phase \<Rightarrow> bool" where
  "phase_ok pl cfg l0 tus (AtTop l) \<longleftrightarrow> runs_to pl cfg l0 tus l"
| "phase_ok pl cfg l0 tus (Draining tu meta l x m cs) \<longleftrightarrow> at_drain pl cfg l0 tus tu meta l \<and> drained_as pl cfg l meta cs x m"
| "phase_ok pl cfg l0 tus (Holding tu meta l x evs) \<longleftrightarrow>
     (\<exists>l1. at_drain pl cfg l0 tus tu meta l1 \<and> command_section pl cfg tu meta l1 = (l, Inr ())) \<and>
     is_paused (tu_hold_now tu) (lp_pipe l) \<and> held_as pl cfg l meta evs x"
| "phase_ok pl cfg l0 tus (Returned l x) \<longleftrightarrow> returns_with pl cfg l0 tus l x"

lemma drained_as_start [simp]: "drained_as pl cfg l meta [] (lp_pipe l) False"
  by (simp add: drained_as_def)

lemma held_as_start [simp]: "held_as pl cfg l meta [] (lp_pipe l)"
  by (simp add: held_as_def)

lemma drained_as_receive:
  assumes "drained_as pl cfg l meta cs x m"
    and "execute (services_at pl cfg (lp_pool l)) now cmd (lp_current l) (closed_at meta) x = (x', m', r)"
  shows "r = Delivered \<Longrightarrow> drained_as pl cfg l meta (cs @ [(now, cmd)]) x' (m \<or> m')"
    and "r \<noteq> Delivered \<Longrightarrow> drain_commands (services_at pl cfg (lp_pool l)) (cs @ [(now, cmd)]) (lp_current l) (closed_at meta) (lp_pipe l) False = (x', m \<or> m', r)"
  using assms by (auto simp: drained_as_def split: publish_result.splits)

text \<open>Receiving in the drain, and leaving it.\<close>

lemma receive_ok:
  assumes "phase_ok pl cfg l0 tus (Draining tu meta l x m cs)"
    and e: "execute (services_at pl cfg (lp_pool l)) now cmd (lp_current l) (closed_at meta) x = (x', m', r)"
  shows "r = Delivered \<Longrightarrow> phase_ok pl cfg l0 tus (Draining tu meta l x' (m \<or> m') (cs @ [(now, cmd)]))"
    and "r \<noteq> Delivered \<Longrightarrow> returns_with pl cfg l0 (tus @ [with_inputs (cs @ [(now, cmd)]) [] tu]) (l\<lparr>lp_pipe := x'\<rparr>) (exit_of r)"
proof -
  from assms(1) have d: "at_drain pl cfg l0 tus tu meta l" "drained_as pl cfg l meta cs x m" by simp_all
  show "r = Delivered \<Longrightarrow> phase_ok pl cfg l0 tus (Draining tu meta l x' (m \<or> m') (cs @ [(now, cmd)]))"
    using drained_as_receive(1) [OF d(2) e] d(1) by simp
  let ?tu = "with_inputs (cs @ [(now, cmd)]) [] tu"
  assume r: "r \<noteq> Delivered"
  have "command_section pl cfg ?tu meta l = (l\<lparr>lp_pipe := x'\<rparr>, Inl (exit_of r))"
    using drained_as_receive(2) [OF d(2) e r] r by (cases r) (simp_all add: command_section_def)
  then show "returns_with pl cfg l0 (tus @ [?tu]) (l\<lparr>lp_pipe := x'\<rparr>) (exit_of r)"
    using at_drain_ends [of pl cfg l0 tus ?tu meta l "l\<lparr>lp_pipe := x'\<rparr>" "Inl (exit_of r)"] d(1) by simp
qed

lemma command_section_drained:
  assumes "drained_as pl cfg l meta cs x m"
  shows "command_section pl cfg (with_inputs cs evs tu) meta l = after_drain pl cfg l x m"
  using assms [unfolded drained_as_def, rule_format, of "[]"] by (simp add: command_section_def after_drain_def)

lemma leave_drain_ok:
  assumes "phase_ok pl cfg l0 tus (Draining tu meta l x m cs)"
  shows "phase_ok pl cfg l0 (tus @ finished (leave_drain pl cfg (with_inputs cs [] tu) meta l x m) (with_inputs cs [] tu))
    (leave_drain pl cfg (with_inputs cs [] tu) meta l x m)"
proof -
  let ?tu = "with_inputs cs [] tu"
  from assms have d: "at_drain pl cfg l0 tus ?tu meta l" and x: "drained_as pl cfg l meta cs x m" by simp_all
  obtain l' y where a: "after_drain pl cfg l x m = (l', y)" by fastforce
  note c = command_section_drained [OF x, of "[]" tu, unfolded a]
  show ?thesis
  proof (cases y)
    case (Inl e)
    with at_drain_ends [OF d, of l' "Inl e"] c a show ?thesis by (simp add: leave_drain_def)
  next
    case (Inr u)
    show ?thesis
    proof (cases "is_paused (tu_hold_now tu) (lp_pipe l')")
      case True
      with a Inr c d show ?thesis by (auto simp: leave_drain_def)
    next
      case False
      then have "hold_section pl cfg ?tu meta l' = (l', Inr ())" by (simp add: hold_section_def)
      with at_drain_ends [OF d, of "next_ledger l'" "Inr ()"] c a Inr False show ?thesis by (simp add: leave_drain_def)
    qed
  qed
qed

text \<open>Leaving a hold, however it ends.\<close>

definition hold_exit :: "turn \<Rightarrow> publish_result \<Rightarrow> exit" where
  "hold_exit tu r = (case r of Refused e \<Rightarrow> if tu_hold_cancelled tu then ReturnsNil else ReturnsErr e | _ \<Rightarrow> exit_of r)"

lemma leave_hold:
  assumes "phase_ok pl cfg l0 tus (Holding tu meta l x evs)"
    and h: "hold_loop (services_at pl cfg (lp_pool l)) (saver pl cfg l) evs' (lp_current l) (closed_at meta) (lp_pipe l) = (x', r)"
  shows "r = Delivered \<Longrightarrow> runs_to pl cfg l0 (tus @ [with_inputs (tu_commands tu) evs' tu]) (next_ledger (l\<lparr>lp_pipe := x'\<rparr>))"
    and "r \<noteq> Delivered \<Longrightarrow> returns_with pl cfg l0 (tus @ [with_inputs (tu_commands tu) evs' tu]) (l\<lparr>lp_pipe := x'\<rparr>) (hold_exit tu r)"
proof -
  let ?tu = "with_inputs (tu_commands tu) evs' tu"
  from assms(1) obtain l1 where d: "at_drain pl cfg l0 tus ?tu meta l1" and c: "command_section pl cfg tu meta l1 = (l, Inr ())"
    and p: "is_paused (tu_hold_now tu) (lp_pipe l)" by auto
  have c': "command_section pl cfg ?tu meta l1 = (l, Inr ())" using c by (simp add: command_section_def)
  have s: "hold_section pl cfg ?tu meta l = (l\<lparr>lp_pipe := x'\<rparr>, if r = Delivered then Inr () else Inl (hold_exit tu r))"
    using h p by (cases r) (simp_all add: hold_section_def hold_while_paused_def hold_exit_def)
  show "r = Delivered \<Longrightarrow> runs_to pl cfg l0 (tus @ [?tu]) (next_ledger (l\<lparr>lp_pipe := x'\<rparr>))"
    using at_drain_ends [OF d, of "next_ledger (l\<lparr>lp_pipe := x'\<rparr>)" "Inr ()"] c' s by simp
  show "r \<noteq> Delivered \<Longrightarrow> returns_with pl cfg l0 (tus @ [?tu]) (l\<lparr>lp_pipe := x'\<rparr>) (hold_exit tu r)"
    using at_drain_ends [OF d, of "l\<lparr>lp_pipe := x'\<rparr>" "Inl (hold_exit tu r)"] c' s by simp
qed

lemma held_as_last:
  assumes "held_as pl cfg l meta evs x"
  shows "hold_loop (services_at pl cfg (lp_pool l)) (saver pl cfg l) (evs @ [e]) (lp_current l) (closed_at meta) (lp_pipe l) =
    hold_loop (services_at pl cfg (lp_pool l)) (saver pl cfg l) [e] (lp_current l) (closed_at meta) x"
  using assms by (simp add: held_as_def)

lemma hold_second_ok:
  assumes "phase_ok pl cfg l0 tus (Holding tu meta l x evs)" and "is_paused now x"
  shows "phase_ok pl cfg l0 tus (Holding tu meta l x (evs @ [(now, HoldSecond)]))"
  using assms by (auto simp: held_as_def)

lemma hold_receive_ok:
  assumes "phase_ok pl cfg l0 tus (Holding tu meta l x evs)" and "is_paused now x"
    and e: "execute (services_at pl cfg (lp_pool l)) t cmd (lp_current l) (closed_at meta) x = res"
  shows "phase_ok pl cfg l0 (tus @ finished (after_hold_command pl cfg tu meta l (evs @ [(now, HoldCommand t cmd)]) res)
      (with_inputs (tu_commands tu) (evs @ [(now, HoldCommand t cmd)]) tu))
    (after_hold_command pl cfg tu meta l (evs @ [(now, HoldCommand t cmd)]) res)"
proof -
  let ?evs = "evs @ [(now, HoldCommand t cmd)]"
  from assms(1) have x: "held_as pl cfg l meta evs x" by simp
  obtain x' m r where res: "res = (x', m, r)" by (metis prod_cases3)
  note L = held_as_last [OF x, of "(now, HoldCommand t cmd)"]
  have fin: "returns_with pl cfg l0 (tus @ [with_inputs (tu_commands tu) ?evs tu]) (l\<lparr>lp_pipe := x'\<rparr>) (hold_exit tu r)" if "r \<noteq> Delivered"
    by (rule leave_hold(2) [OF assms(1) _ that]) (use L assms(2) e res that in \<open>cases r; simp\<close>)
  show ?thesis
  proof (cases "r = Delivered \<and> (\<exists>s er. m \<and> pl_save pl (command_state cfg l x') (pp_sink x') = (s, Some er))")
    case True
    then obtain s er where s: "r = Delivered" m "pl_save pl (command_state cfg l x') (pp_sink x') = (s, Some er)" by blast
    have "returns_with pl cfg l0 (tus @ [with_inputs (tu_commands tu) ?evs tu]) (l\<lparr>lp_pipe := x'\<lparr>pp_sink := s\<rparr>\<rparr>) (hold_exit tu (Refused er))"
      by (rule leave_hold(2) [OF assms(1)]) (use L assms(2) e res s in simp_all)
    with s res show ?thesis by (simp add: after_hold_command_def hold_exit_def)
  next
    case False
    show ?thesis
    proof (cases "r = Delivered")
      case True
      define y where "y = (if m then x'\<lparr>pp_sink := fst (pl_save pl (command_state cfg l x') (pp_sink x'))\<rparr> else x')"
      have "after_hold_command pl cfg tu meta l ?evs res = Holding tu meta l y ?evs"
        using False True res by (auto simp: after_hold_command_def y_def split: prod.splits option.splits)
      moreover have "held_as pl cfg l meta ?evs y"
        using x assms(2) e res False True by (auto simp: held_as_def y_def split: prod.splits option.splits)
      ultimately show ?thesis using assms(1) by auto
    next
      case no: False
      with fin res show ?thesis by (cases r) (simp_all add: after_hold_command_def hold_exit_def)
    qed
  qed
qed

section \<open>First in, first out\<close>

definition fifo :: "sdk \<Rightarrow> 'w plane \<Rightarrow> bool" where
  "fifo k s \<longleftrightarrow> pn_accepted s = concat (map taken_in (pn_turns s)) @ in_flight (pn_phase s) @ pn_queue s \<and>
     length (pn_queue s) \<le> command_queue_size \<and> list_all (\<lambda>cmd. validate_command k cmd = None) (pn_accepted s)"

lemma serve_cases:
  assumes "server_of c k = Some serve" and "serve now t rq q = (q', st)"
  shows "q' = q \<and> st \<noteq> 202 \<or>
    (\<exists>cmd. q' = q @ [cmd] \<and> st = 202 \<and> validate_command k cmd = None \<and> length q < command_queue_size)"
proof -
  from assms have h: "health_handler k (if cf_admin_token c \<noteq> [] then Some (cf_admin_token c) else None) True now t rq q = (q', st)"
    by (auto simp: server_of_def split: if_splits)
  show ?thesis
  proof (cases "under_admin rq")
    case False
    with probes_change_nothing [of rq k "if cf_admin_token c \<noteq> [] then Some (cf_admin_token c) else None" True now t q] h show ?thesis by auto
  next
    case True
    with h show ?thesis by (auto simp: health_handler_def under_admin_def Let_def split: if_splits dest!: admin_handler_cases)
  qed
qed

lemma request_fifo:
  assumes "fifo k s" and "server_of c k = Some serve" and "serve now t rq (pn_queue s) = (q, st)"
  shows "fifo k (s\<lparr>pn_queue := q, pn_accepted := pn_accepted s @ (if st = 202 then drop (length (pn_queue s)) q else [])\<rparr>)"
  using serve_cases [OF assms(2,3)] assms(1) by (auto simp: fifo_def)

text \<open>What a step takes from the channel is with the current turn, or with the turn that it finishes.\<close>

lemma go_fifo:
  assumes "fifo k s" and "pn_queue s = got @ q" and "concat (map taken_in (finished ph tu)) @ in_flight ph = in_flight (pn_phase s) @ got"
  shows "fifo k (go ph tu (s\<lparr>pn_queue := q\<rparr>))"
proof -
  have "concat (map taken_in (finished ph tu)) @ in_flight ph @ r = in_flight (pn_phase s) @ got @ r" for r
    using assms(3) by (metis append.assoc)
  with assms(1,2) show ?thesis by (auto simp: fifo_def go_def)
qed

lemma go_fifo_idle:
  assumes "fifo k s" and "concat (map taken_in (finished ph tu)) @ in_flight ph = in_flight (pn_phase s)"
  shows "fifo k (go ph tu s)"
  using go_fifo [OF assms(1), of "[]" "pn_queue s" ph tu] assms(2) by simp

lemma leave_drain_taken:
  "concat (map taken_in (finished (leave_drain pl cfg (with_inputs cs [] tu) meta l x m) (with_inputs cs [] tu))) @
     in_flight (leave_drain pl cfg (with_inputs cs [] tu) meta l x m) = map snd cs"
  by (simp add: leave_drain_def taken_in_def split: prod.splits sum.splits)

lemma after_hold_taken:
  "concat (map taken_in (finished (after_hold_command pl cfg tu meta l evs res) (with_inputs (tu_commands tu) evs tu))) @
     in_flight (after_hold_command pl cfg tu meta l evs res) = map snd (tu_commands tu) @ hold_commands evs"
  by (simp add: after_hold_command_def taken_in_def split: prod.splits publish_result.splits option.splits)

lemma step_fifo:
  assumes "plane_step c pl s s'" and "fifo (pl_sdk pl) s"
  shows "fifo (pl_sdk pl) s'"
  using assms
proof cases
  case (request serve now t rq q status)
  with assms(2) request_fifo show ?thesis by blast
next
  case (no_ledger l tu l' y)
  show ?thesis unfolding no_ledger(1)
    by (rule go_fifo_idle [OF assms(2)]) (use no_ledger(2) in \<open>simp add: taken_in_def split: sum.splits\<close>)
next
  case (front_fails l tu meta l' x)
  show ?thesis unfolding front_fails(1)
    by (rule go_fifo_idle [OF assms(2)]) (use front_fails(2) in \<open>simp add: taken_in_def\<close>)
next
  case (receive tu meta l x m cs cmd q now x' m' r)
  show ?thesis unfolding receive(1)
    by (rule go_fifo [OF assms(2), of "[cmd]"]) (use receive(2,3) in \<open>simp_all add: taken_in_def\<close>)
next
  case (drained tu meta l x m cs)
  show ?thesis unfolding drained(1)
    by (rule go_fifo_idle [OF assms(2)]) (use drained(2) leave_drain_taken in simp)
next
  case (hold_cancelled tu meta l x evs now)
  show ?thesis unfolding hold_cancelled(1)
    by (rule go_fifo_idle [OF assms(2)]) (use hold_cancelled(2) in \<open>simp add: taken_in_def\<close>)
next
  case (hold_receive tu meta l x evs now cmd q t res)
  show ?thesis unfolding hold_receive(1)
    by (rule go_fifo [OF assms(2), of "[cmd]"])
      (use hold_receive(2,4) after_hold_taken [of pl "ingest_settings c" tu meta l "evs @ [(now, HoldCommand t cmd)]" res] in simp_all)
next
  case (hold_over tu meta l x evs now)
  show ?thesis unfolding hold_over(1)
    by (rule go_fifo_idle [OF assms(2)]) (use hold_over(2) in \<open>simp add: taken_in_def\<close>)
qed (use assms(2) in \<open>simp_all add: fifo_def\<close>)

section \<open>The theorem\<close>

lemma go_phase [simp]: "pn_phase (go ph tu s) = ph" "pn_turns (go ph tu s) = pn_turns s @ finished ph tu"
  by (simp_all add: go_def)

lemma turn_step_inputs:
  "tu_cancelled tu \<or> (\<exists>e. fetch_section cfg tu l = Err e) \<Longrightarrow> turn_step pl cfg (with_inputs cs evs tu) l = turn_step pl cfg tu l"
  "\<not> tu_cancelled tu \<Longrightarrow> fetch_section cfg tu l = Ok meta \<Longrightarrow> ledger_front pl cfg tu meta l = (l', Inl x) \<Longrightarrow>
     turn_step pl cfg (with_inputs cs evs tu) l = (l', Inl x)"
  by (auto simp: turn_step_def ledger_turn_split)

lemma step_phase_ok:
  assumes "plane_step c pl s s'" and "phase_ok pl (ingest_settings c) l0 (pn_turns s) (pn_phase s)"
  shows "phase_ok pl (ingest_settings c) l0 (pn_turns s') (pn_phase s')"
  using assms
proof cases
  case (finish l)
  with assms(2) runs_to_finish show ?thesis by simp
next
  case (no_ledger l tu l' y)
  have r: "runs_to pl (ingest_settings c) l0 (pn_turns s) l" using assms(2) no_ledger(2) by simp
  have t: "turn_step pl (ingest_settings c) (with_inputs [] [] tu) l = (l', y)" using turn_step_inputs(1) [OF no_ledger(4)] no_ledger(5) by simp
  with runs_to_turn [OF r no_ledger(3)] runs_to_return [OF r no_ledger(3)] show ?thesis unfolding no_ledger(1) by (cases y) simp_all
next
  case (front_fails l tu meta l' x)
  have r: "runs_to pl (ingest_settings c) l0 (pn_turns s) l" using assms(2) front_fails(2) by simp
  show ?thesis unfolding front_fails(1)
    using runs_to_return [OF r front_fails(3) turn_step_inputs(2) [OF front_fails(4-6)]] by simp
next
  case (front l tu meta l')
  with assms(2) show ?thesis by (auto simp: at_drain_def)
next
  case (receive tu meta l x m cs cmd q now x' m' r)
  note R = receive_ok [OF assms(2) [unfolded receive(2)] receive(4)]
  show ?thesis unfolding receive(1) using R by (cases "r = Delivered") simp_all
next
  case (drained tu meta l x m cs)
  show ?thesis unfolding drained(1) go_phase by (rule leave_drain_ok [OF assms(2) [unfolded drained(2)]])
next
  case (hold_second tu meta l x evs now)
  show ?thesis unfolding hold_second(1) using hold_second_ok [OF assms(2) [unfolded hold_second(2)] hold_second(3)] by simp
next
  case (hold_cancelled tu meta l x evs now)
  note H = assms(2) [unfolded hold_cancelled(2)]
  then have x: "held_as pl (ingest_settings c) l meta evs x" by simp
  have "hold_loop (services_at pl (ingest_settings c) (lp_pool l)) (saver pl (ingest_settings c) l) (evs @ [(now, HoldCancelled)]) (lp_current l)
      (closed_at meta) (lp_pipe l) = (x, Refused ErrCanceled)"
    using hold_cancelled(3) by (simp add: held_as_last [OF x])
  from leave_hold(2) [OF H this] show ?thesis unfolding hold_cancelled(1) by (simp add: hold_exit_def)
next
  case (hold_receive tu meta l x evs now cmd q t res)
  show ?thesis unfolding hold_receive(1) go_phase using hold_receive_ok [OF assms(2) [unfolded hold_receive(2)] hold_receive(3,5)] by simp
next
  case (hold_over tu meta l x evs now)
  note H = assms(2) [unfolded hold_over(2)]
  then have x: "held_as pl (ingest_settings c) l meta evs x" by simp
  have "hold_loop (services_at pl (ingest_settings c) (lp_pool l)) (saver pl (ingest_settings c) l) (evs @ [(now, HoldSecond)]) (lp_current l)
      (closed_at meta) (lp_pipe l) = (if pp_paused_until x \<noteq> 0 then set_pause 0 x else x, Delivered)"
    using hold_over(3) by (simp add: held_as_last [OF x])
  from leave_hold(1) [OF H this] show ?thesis unfolding hold_over(1) by simp
qed simp_all

definition plane_start :: "'w ingest \<Rightarrow> 'w plane" where
  "plane_start l = \<lparr>pn_queue = [], pn_phase = AtTop l, pn_accepted = [], pn_turns = []\<rparr>"

lemma plane_invariant:
  "(plane_step c pl)\<^sup>*\<^sup>* (plane_start l0) s \<Longrightarrow> fifo (pl_sdk pl) s \<and> phase_ok pl (ingest_settings c) l0 (pn_turns s) (pn_phase s)"
proof (induction rule: rtranclp_induct)
  case base
  show ?case by (simp add: plane_start_def fifo_def runs_to_refl)
next
  case (step s s')
  then show ?case using step_fifo step_phase_ok by blast
qed

text \<open>
  C3. Every interleaving is a sequential run. However the requests to the HTTP server, the receives from the
  channel and the steps of the loop interleave, the finished turns are a run of the loop, each with the commands
  that it took from the channel; a loop that has returned has returned as that run does. The commands that were
  answered with 202 are those taken by the finished turns, by the current turn, and those still in the channel, in
  the order of their answers: none is lost, doubled or overtaken. The channel holds at most 64, all valid.
\<close>

theorem interleavings_are_runs:
  assumes "(plane_step c pl)\<^sup>*\<^sup>* (plane_start l0) s"
  shows "pn_accepted s = concat (map taken_in (pn_turns s)) @ in_flight (pn_phase s) @ pn_queue s \<and>
    length (pn_queue s) \<le> 64 \<and> list_all (\<lambda>cmd. validate_command (pl_sdk pl) cmd = None) (pn_accepted s) \<and>
    (case pn_phase s of
       AtTop l \<Rightarrow> fst (ingest_loop pl (ingest_settings c) (pn_turns s) l0 []) = l
     | Returned l x \<Rightarrow> \<exists>log. ingest_loop pl (ingest_settings c) (pn_turns s) l0 [] = (l, Some x, log)
     | _ \<Rightarrow> True)"
proof -
  from plane_invariant [OF assms] have o1: "fifo (pl_sdk pl) s" and p: "phase_ok pl (ingest_settings c) l0 (pn_turns s) (pn_phase s)" by blast+
  have "fst (ingest_loop pl (ingest_settings c) (pn_turns s) l0 []) = l" if "pn_phase s = AtTop l" for l
  proof -
    from p that obtain log where "ingest_loop pl (ingest_settings c) (pn_turns s @ []) l0 [] = ingest_loop pl (ingest_settings c) [] l log"
      unfolding phase_ok.simps runs_to_def by (metis phase_ok.simps(1) runs_to_def)
    then show ?thesis by (simp add: ingest_loop.simps [of pl "ingest_settings c" "[]"])
  qed
  with o1 p show ?thesis by (cases "pn_phase s") (auto simp: fifo_def command_queue_size_def returns_with_def)
qed

section \<open>An interleaving\<close>

text \<open>
  A command arrives before the loop has its ledger, another one while the first is being taken, and the loop
  goes on to the next ledger with the second one in hand.
\<close>

definition plane_loop :: "station ingest" where
  "plane_loop = boot_state (host_plant sample_host admin_config) (ingest_settings admin_config)
     (boot_inputs_of sample_host admin_config empty_disk)
     \<lparr>rs_start = 101, rs_escrows = [], rs_removed = [], rs_gaps = [], rs_last_seq = 0, rs_hash = [], rs_resumed = False, rs_recovered = False\<rparr>
     sample_registry two_pool [] 101 sample_station"

definition plane_meta :: ledger_meta where
  "plane_meta = tip_meta\<lparr>lm_reads := []\<rparr>"

definition resume_command :: command where
  "resume_command = zero_command\<lparr>c_kind := KindResume\<rparr>"

lemma empty_front:
  assumes "at_ease l" and "lm_reader meta = Ret ()" and "lm_reads meta = []" and "catching_up tu meta" and "tu_now tu \<le> tu_sweep_now tu"
    and "\<not> should_checkpoint True (cg_end cfg \<noteq> 0 \<and> lp_current l = cg_end cfg) (lp_current l) (lp_checkpoint l)"
  shows "ledger_front pl cfg tu meta l = (report_section tu meta 0 0 l, Inr ())"
proof -
  have "continuity_section meta l = (l, Inr ())" using assms(1) by (simp add: continuity_section_def at_ease_def)
  moreover have "process_section pl tu meta l = (l, Inr ([], []))"
    using assms(2,3) by (simp add: process_section_def process_ledger_def read_ledger_transactions_def process_transactions_def)
  moreover have "publish_section pl (fact_envelopes cfg tu []) l = (l, Inr ())"
    by (simp add: publish_section_def fact_envelopes_def set_world_def)
  moreover have "state_section pl cfg tu meta [] l = (l, Inr 0)" using assms(4) by (simp add: state_section_def)
  moreover have "checkpoint_section pl cfg tu meta l = (l, Inr ())" using assms(4,6) by (simp add: checkpoint_section_def)
  ultimately show ?thesis by (simp add: ledger_front_def old_ledger_no_sweep [OF assms(4,5)])
qed

lemma sample_request:
  "plane_step admin_config (host_plant sample_host admin_config) s
     (s\<lparr>pn_queue := pn_queue s @ [resume_command], pn_accepted := pn_accepted s @ [resume_command]\<rparr>)" if "length (pn_queue s) < 64"
proof -
  obtain serve where v: "server_of admin_config sample_sdk = Some serve"
    and d: "serve = health_handler sample_sdk (Some ''0123456789abcdef'') True"
    by (simp add: server_of_def admin_config_def plain_config_def)
  have "serve 0 (new_tracker ''testnet'' 0) resume_call (pn_queue s) = (pn_queue s @ [resume_command], 202)"
    using that
    by (simp add: d health_handler_def Let_def canonical_def clean_path_def decoded_path_def path_unescape_plain resume_call_def admin_route_def admin_table_def match_method_def admin_handler_def require_bearer_def
        bearer_prefix_def admin_routes_def accept_def validate_command_def enqueue_into_def command_queue_size_def resume_command_def zero_command_def)
  moreover have "pl_sdk (host_plant sample_host admin_config) = sample_sdk" by (simp add: host_plant_def sample_host_def)
  ultimately show ?thesis
    using plane_step.request [where s = s and serve = serve and q = "pn_queue s @ [resume_command]" and status = 202 and now = 0
      and t = "new_tracker ''testnet'' 0" and rq = resume_call and c = admin_config and pl = "host_plant sample_host admin_config"] v by simp
qed

lemma interleavings_are_runs_witness:
  "\<exists>s l. (plane_step admin_config (host_plant sample_host admin_config))\<^sup>*\<^sup>* (plane_start plane_loop) s \<and> pn_phase s = AtTop l \<and>
     pn_queue s = [resume_command] \<and> pn_accepted s = [resume_command, resume_command] \<and>
     concat (map taken_in (pn_turns s)) = [resume_command]"
proof -
  let ?pl = "host_plant sample_host admin_config" and ?cfg = "ingest_settings admin_config" and ?tu = "replay_turn plane_meta"
  let ?step = "plane_step admin_config ?pl"
  let ?l = "report_section ?tu plane_meta 0 0 plane_loop"
  have cfg: "cg_end ?cfg = 0" by (simp add: ingest_settings_def admin_config_def plain_config_def)
  have old: "catching_up ?tu plane_meta"
    by (simp add: catching_up_def replay_turn_def tip_turn_def plane_meta_def tip_meta_def time_sub_def time_unix_def catch_up_min_age_def
        minute_def second_def min_duration_def max_duration_def)
  have l: "at_ease plane_loop" "lp_current plane_loop = 101" "lp_checkpoint plane_loop = 100"
    by (simp_all add: plane_loop_def boot_state_def at_ease_def Let_def)
  have f: "ledger_front ?pl ?cfg ?tu plane_meta plane_loop = (?l, Inr ())"
    by (rule empty_front) (use old in \<open>simp_all add: l plane_meta_def tip_meta_def replay_turn_def tip_turn_def should_checkpoint_def
        checkpoint_interval_def cfg time_unix_def second_def word_le_nat_alt\<close>)
  have g: "fetch_section ?cfg ?tu plane_loop = Ok plane_meta"
    by (simp add: fetch_section_def replay_turn_def tip_turn_def fetch_ledger_with_retry_def fetch_loop.simps max_ledger_fetch_retries_def)
  let ?x = "set_pause 0 (lp_pipe ?l)"
  define s1 where "s1 = (plane_start plane_loop)\<lparr>pn_queue := [resume_command], pn_accepted := [resume_command]\<rparr>"
  define s2 where "s2 = s1\<lparr>pn_phase := Draining ?tu plane_meta ?l (lp_pipe ?l) False []\<rparr>"
  have "?step (plane_start plane_loop) s1" using sample_request [of "plane_start plane_loop"] by (simp add: plane_start_def s1_def)
  moreover have "?step s1 s2" unfolding s2_def
    by (rule plane_step.front) (use f g cfg in \<open>simp_all add: s1_def plane_start_def past_end_def replay_turn_def tip_turn_def\<close>)
  moreover define s3 where "s3 = s2\<lparr>pn_queue := [], pn_phase := Draining ?tu plane_meta ?l ?x False [(7, resume_command)]\<rparr>"
  have "?step s2 s3"
  proof -
    have "execute (services_at ?pl ?cfg (lp_pool ?l)) 7 resume_command (lp_current ?l) (closed_at plane_meta) (lp_pipe ?l) = (?x, False, Delivered)"
      by (simp add: execute_def resume_command_def zero_command_def)
    from plane_step.receive [OF _ _ this, of s2 ?tu False "[]" "[]"] show ?thesis
      by (simp add: s2_def s1_def s3_def go_def plane_start_def)
  qed
  moreover define s4 where "s4 = s3\<lparr>pn_phase := AtTop (next_ledger (?l\<lparr>lp_pipe := ?x\<rparr>)), pn_turns := [with_inputs [(7, resume_command)] [] ?tu]\<rparr>"
  have "?step s3 s4"
  proof -
    have "leave_drain ?pl ?cfg (with_inputs [(7, resume_command)] [] ?tu) plane_meta ?l ?x False = AtTop (next_ledger (?l\<lparr>lp_pipe := ?x\<rparr>))"
      by (simp add: leave_drain_def after_drain_def is_paused_def set_pause_def)
    with plane_step.drained [of s3 ?tu plane_meta ?l ?x False "[(7, resume_command)]" admin_config ?pl] show ?thesis
      by (simp add: s3_def s2_def s1_def s4_def go_def plane_start_def)
  qed
  moreover define s5 where "s5 = s4\<lparr>pn_queue := [resume_command], pn_accepted := [resume_command, resume_command]\<rparr>"
  have "?step s4 s5" using sample_request [of s4] by (simp add: s5_def s4_def s3_def s2_def s1_def plane_start_def)
  ultimately have r: "?step\<^sup>*\<^sup>* (plane_start plane_loop) s5" by (meson converse_rtranclp_into_rtranclp rtranclp.rtrancl_refl)
  from interleavings_are_runs [OF r] have "concat (map taken_in (pn_turns s5)) = [resume_command]"
    by (simp add: s5_def s4_def s3_def s2_def s1_def plane_start_def)
  with r show ?thesis by (intro exI [of _ s5]) (simp add: s5_def s4_def s3_def s2_def s1_def plane_start_def)
qed

end
