(* ===== verification/Spec2Isabelle.thy ===== *)
theory Spec2Isabelle
  imports Faults Crash Lives Durable Plane
begin

text \<open>
  The escrow indexer. The program follows the ledgers of a Stellar network, recognises the contracts that
  were deployed from approved WASM code (the escrows), and publishes three kinds of messages to a broker:
  facts (events and deposits of escrows), state changes (the current entry of an escrow, or its removal)
  and gap evidence (ledgers knowingly skipped). It keeps a cursor, the watchlist, the tombstones and the
  gaps on disk. All paths below are relative to \<open>src/internal\<close>.

  \<^bold>\<open>Theories.\<close>
  \<^item> \<open>Prelude\<close>, \<open>GoText\<close>: errors as values, machine integers, instants and durations, doubling backoffs;
    the string functions of the standard library that the code relies on (decimal, hex, base64, trimming, and the
    coercion of strings to UTF-8 by the JSON encoder).
  \<^item> \<open>Interfaces\<close>: the contracts between components, as locales.
  \<^item> \<open>Registry\<close>: \<open>indexer/registry\<close>, the watchlist with its tombstones.
  \<^item> \<open>Chain\<close>, \<open>Detection\<close>: what the SDK reads from a ledger, and \<open>indexer/indexer.go\<close> with the discovery and
    event processors.
  \<^item> \<open>StateDetector\<close>, \<open>Sweeper\<close>: \<open>escrow_state.go\<close>, \<open>escrow_sweep.go\<close>.
  \<^item> \<open>Envelope\<close>, \<open>Sink\<close>, \<open>Rabbit\<close>: \<open>events\<close>, \<open>sink\<close> and the backpressure wrapper of \<open>ingest\<close>.
  \<^item> \<open>FileStore\<close>: \<open>state\<close>, on a file system whose operations can fail or be cut short by death.
  \<^item> \<open>Failover\<close>, \<open>Fetch\<close>: clamping, connecting and rotating endpoints; one ledger with bounded retries.
  \<^item> \<open>Commands\<close>, \<open>Control\<close>: validation and admission of operator commands; their execution and the pause.
  \<^item> \<open>Health\<close>, \<open>Server\<close>: tracker, readiness, probes, metrics, heartbeat; the HTTP routes and who reaches them.
  \<^item> \<open>Config\<close>, \<open>Dump\<close>: \<open>config\<close>, \<open>../cmd/ingest.go\<close> and \<open>ingest/ledger_backend.go\<close>: the configuration tree, its
    validation, the replay flags, what the components get from it; the dump with its redaction.
  \<^item> \<open>Ingest\<close>: \<open>ingest/ingest.go\<close> and \<open>catchup.go\<close>, boot and the loop body, section by section, over a record of the
    calls that leave the process.
  \<^item> \<open>Loop\<close>: the order in which boot and the loop make things durable, in the locale \<open>outside\<close> of the promises
    that sink and store make. \<open>Station\<close> is that outside with RabbitMQ and the files; a restart loses nothing.
  \<^item> \<open>Resume\<close>: what a resumed process starts from, and that what it skips is recorded first. \<open>Crash\<close>: how far the cursor
    on the disk stays behind the ledgers processed. \<open>Faults\<close>: two inputs that stop the process although the chain
    is right.
  \<^item> \<open>Feed\<close>: an abstract machine, and the refinement of the process to it.
  \<^item> \<open>Run\<close>: \<open>Ingest\<close> from a configuration, with the choice of store and sink and the deferred calls at the end; every
    such run is a run of the abstract machine.
    \<open>Lives\<close>: any number of such runs on one disk, one after the other. \<open>Backfill\<close>: a bounded run, which ends and
    delivers exactly its range. \<open>Durable\<close>: the result of a command is saved before the next ledger.
  \<^item> \<open>Plane\<close>: the HTTP handlers, the command channel and the loop as one step relation in which they interleave;
    every interleaving is a run of the loop over turns.

  \<^bold>\<open>Conventions.\<close> A fallible function returns \<open>err + 'a\<close>; a call of the SDK that may panic returns \<open>'a call\<close>.
  State is passed explicitly. What the outside answers, RPC endpoints, broker, clock, file system faults,
  cancellation, is an argument: a function of the number of the call or a record of inputs of a turn.
  Sequence numbers are 32-bit words, durations 64-bit where the code can overflow them.

  \<^bold>\<open>Loops.\<close> Loops over data are structural. The ledger fetch has a measure (attempts left, then the stall
  budget left). The publish retry loop need not end, so it is a partial function whose value \<open>None\<close> is a
  loop that never ends; the theorems about it say when it does. The ingest loop runs over the list of
  turns it gets to make, and says whether it has returned within them.

  \<^bold>\<open>What is shown.\<close> From the bottom up: each component keeps its invariant and does what its contract says
  (the registry's sets stay apart, detection equals a reference definition, a save is atomic towards \<open>Load\<close>,
  \<open>Publish\<close> succeeds only on the broker's confirmation, a connect records what it skips). The locales of
  \<open>Interfaces\<close>, \<open>Sink\<close> and \<open>Loop\<close> carry these over to their clients and are interpreted on the models of
  the code. The loop's durability order then gives the end-to-end properties, for one process and for
  the whole history of a deployment: no ledger up to the saved cursor is lost without a recorded gap, and the
  cursor on the disk is at most a hundred ledgers behind.

  \<^bold>\<open>Strings.\<close> A Go string is a list of bytes. The JSON encoder and decoder coerce it to UTF-8 (\<open>json_text\<close>), which
  is modelled for the messages and for the state files: an id that is not valid UTF-8, as an operator can remove
  one, comes back from the disk as its coercion. Otherwise a JSON document is its list of members; its bytes, the
  layout apart, duplicate members and the case-insensitive matching of member names on reading are not modelled.

  \<^bold>\<open>Panics.\<close> The accessors of the chain data that the processors call may panic, which \<open>processLedger\<close> turns into an
  error; the accessor of the parent hash is called outside of it, and its panic ends the process. The other
  accessors of the header that the loop calls come after a successful read of the same ledger, whose header
  version they share, and are taken not to panic.

  \<^bold>\<open>Not modelled.\<close> The log lines and their texts, the Prometheus library behind the collected metrics, the parsers
  of the environment, the flags and the log level, the operating system's signals, the listening and timeouts of
  the HTTP server, the parsing of request lines and URLs (a path is given as its segments; the parser of the dump's
  URLs is a parameter), and the library code of the SDK, the
  AMQP client and the codecs, which are parameters too. The registry and the tracker are guarded
  by mutexes and the queue is a channel, so that each access is one atomic step; the step relation of \<open>Plane\<close>
  interleaves the accesses that change something, and its theorem reduces them to turns. In \<open>Plane\<close> the clock of a
  hold is read once per event, and the inputs of a turn other than its commands are given with the turn.
\<close>

end
